(* ===== verification/Prelude.thy ===== *)
theory Prelude
  imports Main "HOL-Library.Word" "HOL-Library.Char_ord" "HOL-Library.List_Lexorder"
begin

text \<open>
  Shared vocabulary of the development: the machine integers of the Rust sources, the
  fragments of the Rust standard library that several crates use (saturating subtraction,
  decimal printing and parsing, string trimming and splitting), with the lemmas about them
  that the component theories use.
\<close>

section \<open>Machine integers and results\<close>

type_synonym u8 = "8 word"
type_synonym u16 = "16 word"
type_synonym u32 = "32 word"
type_synonym u64 = "64 word"
type_synonym usize = "64 word"
type_synonym bytes = "u8 list"

named_theorems word_simps \<open>reading machine integers as natural numbers\<close>
named_theorems step_defs \<open>definitions of the operations of a component, unfolded one step\<close>

definition saturating_sub :: "'a::len word \<Rightarrow> 'a word \<Rightarrow> 'a word" where
  "saturating_sub x y = (if x < y then 0 else x - y)"

lemma unat_saturating_sub [simp, word_simps]:
  "unat (saturating_sub x y) = unat x - unat y"
  by (auto simp: saturating_sub_def unat_sub word_less_nat_alt word_le_nat_alt not_less)

lemma saturating_sub_le: "y \<le> x \<Longrightarrow> saturating_sub x y = x - y"
  by (auto simp: saturating_sub_def)

lemma unat_inc:
  fixes x :: "'a::len word"
  assumes "unat x + 1 < 2 ^ LENGTH('a)"
  shows "unat (x + 1) = unat x + 1"
proof -
  have "unat (x + 1) = (unat x + unat (1 :: 'a word)) mod 2 ^ LENGTH('a)"
    by (rule unat_word_ariths(1))
  then show ?thesis using assms by simp
qed

lemma unat_dec: "x \<noteq> 0 \<Longrightarrow> unat (x - 1) = unat x - 1" for x :: "'a::len word"
  by (simp add: unat_minus_one)

section \<open>Strings of the standard library\<close>

text \<open>
  A Rust string is its UTF-8 byte sequence; \<open>as_bytes\<close> reads the bytes off.
\<close>

definition as_bytes :: "string \<Rightarrow> bytes" where
  "as_bytes s = map (\<lambda>c. of_nat (of_char c :: nat)) s"

lemma byte_of_char_inj:
  "(of_nat (of_char c :: nat) :: u8) = of_nat (of_char d) \<longleftrightarrow> c = d"
proof
  assume "(of_nat (of_char c :: nat) :: u8) = of_nat (of_char d)"
  then have "unat (of_nat (of_char c :: nat) :: u8) = unat (of_nat (of_char d :: nat) :: u8)"
    by simp
  then show "c = d" by (simp add: unat_of_nat)
qed simp

lemma inj_as_bytes: "as_bytes s = as_bytes t \<longleftrightarrow> s = t"
proof -
  have "inj (\<lambda>c. of_nat (of_char c :: nat) :: u8)"
    by (rule injI) (simp only: byte_of_char_inj)
  then show ?thesis by (simp add: as_bytes_def)
qed

lemma length_as_bytes [simp]: "length (as_bytes s) = length s"
  by (simp add: as_bytes_def)

text \<open>\<open>str::strip_prefix\<close>.\<close>

fun strip_prefix :: "string \<Rightarrow> string \<Rightarrow> string option" where
  "strip_prefix [] s = Some s"
| "strip_prefix (p # ps) [] = None"
| "strip_prefix (p # ps) (c # s) = (if p = c then strip_prefix ps s else None)"

lemma strip_prefix_iff: "strip_prefix p s = Some r \<longleftrightarrow> s = p @ r"
  by (induction p s rule: strip_prefix.induct) auto

lemma strip_prefix_append [simp]: "strip_prefix p (p @ r) = Some r"
  by (simp add: strip_prefix_iff)

text \<open>
  \<open>str::trim\<close> removes the code points with the Unicode property \<open>White_Space\<close> from both
  ends.  Over UTF-8 these are the byte sequences listed here; no proper prefix of a sequence
  is a sequence, so stripping one sequence at a time is the same as stripping code points.
\<close>

definition whitespace_seqs :: "string list" where
  "whitespace_seqs =
     map (\<lambda>n. [char_of (n :: nat)]) [9, 10, 11, 12, 13, 32] @
     map (map (char_of :: nat \<Rightarrow> char))
       ([[0xC2, 0x85], [0xC2, 0xA0], [0xE1, 0x9A, 0x80]] @
        map (\<lambda>n. [0xE2, 0x80, n]) [0x80, 0x81, 0x82, 0x83, 0x84, 0x85, 0x86, 0x87, 0x88, 0x89, 0x8A] @
        [[0xE2, 0x80, 0xA8], [0xE2, 0x80, 0xA9], [0xE2, 0x80, 0xAF], [0xE2, 0x81, 0x9F],
         [0xE3, 0x80, 0x80]])"

fun strip_any :: "string list \<Rightarrow> string \<Rightarrow> string option" where
  "strip_any [] s = None"
| "strip_any (w # ws) s = (case strip_prefix w s of Some r \<Rightarrow> Some r | None \<Rightarrow> strip_any ws s)"

lemma strip_any_SomeE:
  assumes "strip_any ws s = Some r"
  obtains w where "w \<in> set ws" "s = w @ r"
  using assms by (induction ws) (auto split: option.splits simp: strip_prefix_iff)

function strip_all :: "string list \<Rightarrow> string \<Rightarrow> string" where
  "strip_all ws s =
     (case strip_any ws s of
        None \<Rightarrow> s
      | Some r \<Rightarrow> if length r < length s then strip_all ws r else s)"
  by pat_completeness auto
termination
  by (relation "measure (\<lambda>(ws, s). length s)") auto

declare strip_all.simps [simp del]

definition trim_start :: "string \<Rightarrow> string" where
  "trim_start s = strip_all whitespace_seqs s"

definition trim_end :: "string \<Rightarrow> string" where
  "trim_end s = rev (strip_all (map rev whitespace_seqs) (rev s))"

definition trim :: "string \<Rightarrow> string" where
  "trim s = trim_end (trim_start s)"

lemma strip_all_suffix: "\<exists>p. s = p @ strip_all ws s"
proof (induction ws s rule: strip_all.induct)
  case (1 ws s)
  show ?case
  proof (cases "strip_any ws s")
    case (Some r)
    then obtain w where w: "s = w @ r" by (rule strip_any_SomeE)
    show ?thesis
    proof (cases "length r < length s")
      case True
      with 1 Some obtain p where "r = p @ strip_all ws r" by blast
      with w have "s = (w @ p) @ strip_all ws r" by simp
      moreover from True Some have "strip_all ws s = strip_all ws r"
        by (simp add: strip_all.simps [of ws s])
      ultimately show ?thesis by metis
    qed (simp add: strip_all.simps [of ws s] Some)
  qed (simp add: strip_all.simps)
qed

lemma strip_all_done:
  assumes "[] \<notin> set ws"
  shows "strip_any ws (strip_all ws s) = None"
  using assms
proof (induction ws s rule: strip_all.induct)
  case (1 ws s)
  show ?case
  proof (cases "strip_any ws s")
    case (Some r)
    then obtain w where w: "w \<in> set ws" "s = w @ r" by (rule strip_any_SomeE)
    with "1.prems" have "length r < length s" by (cases w) auto
    with 1 Some show ?thesis by (simp add: strip_all.simps [of ws s])
  qed (simp add: strip_all.simps)
qed

lemma trim_infix: "\<exists>p q. s = p @ trim s @ q"
proof -
  obtain p where p: "s = p @ trim_start s"
    using strip_all_suffix unfolding trim_start_def by blast
  obtain q where "rev (trim_start s) = q @ strip_all (map rev whitespace_seqs) (rev (trim_start s))"
    using strip_all_suffix by blast
  then have "trim_start s = trim s @ rev q"
    unfolding trim_def trim_end_def by (metis rev_append rev_rev_ident)
  with p show ?thesis by metis
qed

definition ascii_space :: "char \<Rightarrow> bool" where
  "ascii_space c \<longleftrightarrow> (of_char c :: nat) \<in> {9, 10, 11, 12, 13, 32}"

definition ascii_visible :: "char \<Rightarrow> bool" where
  "ascii_visible c \<longleftrightarrow> 32 < (of_char c :: nat) \<and> (of_char c :: nat) < 127"

lemma strip_any_head:
  assumes "[] \<notin> set ws" "\<forall>w \<in> set ws. hd w = c \<longrightarrow> w = [c]"
  shows "strip_any ws (c # s) = (if [c] \<in> set ws then Some s else None)"
  using assms
proof (induction ws)
  case (Cons w ws)
  show ?case
  proof (cases "hd w = c")
    case True
    with Cons.prems show ?thesis by simp
  next
    case False
    with Cons.prems obtain d w' where "w = d # w'" "d \<noteq> c" by (cases w) auto
    with Cons show ?thesis by auto
  qed
qed simp

lemma whitespace_seqs_shape:
  "list_all (\<lambda>w. w \<noteq> [] \<and> (ascii_space (hd w) \<and> tl w = [] \<or>
     128 \<le> (of_char (hd w) :: nat) \<and> 128 \<le> (of_char (hd (rev w)) :: nat))) whitespace_seqs"
  by (simp add: whitespace_seqs_def ascii_space_def)

lemma ascii_space_in_seqs: "ascii_space c \<Longrightarrow> [c] \<in> set whitespace_seqs"
proof -
  assume "ascii_space c"
  then obtain n :: nat where n: "n \<in> {9, 10, 11, 12, 13, 32}" "n = of_char c" by (simp add: ascii_space_def)
  have "[char_of n] \<in> set whitespace_seqs" using n(1) by (auto simp: whitespace_seqs_def)
  with n(2) show ?thesis by simp
qed

lemma whitespace_heads:
  assumes c: "ascii_space c \<or> ascii_visible c" and ws: "ws = whitespace_seqs \<or> ws = map rev whitespace_seqs"
  shows "strip_any ws (c # s) = (if ascii_space c then Some s else None)"
proof -
  have small: "(of_char c :: nat) < 128" using c by (auto simp: ascii_space_def ascii_visible_def)
  have shape: "w \<noteq> [] \<and> (hd w = c \<longrightarrow> ascii_space c \<and> w = [c])" if "w \<in> set ws" for w
  proof -
    from that ws obtain v where v: "v \<in> set whitespace_seqs" "w = v \<or> w = rev v" by auto
    with whitespace_seqs_shape have "v \<noteq> []" "ascii_space (hd v) \<and> tl v = [] \<or>
        128 \<le> (of_char (hd v) :: nat) \<and> 128 \<le> (of_char (hd (rev v)) :: nat)"
      by (auto simp: list_all_iff)
    with v(2) small show ?thesis by (cases v) auto
  qed
  have "[c] \<in> set ws \<longleftrightarrow> ascii_space c"
    using shape [of "[c]"] ascii_space_in_seqs [of c] ws by force
  then show ?thesis using shape by (subst strip_any_head) auto
qed

lemma strip_all_spaces:
  assumes "ws = whitespace_seqs \<or> ws = map rev whitespace_seqs" "\<forall>c \<in> set p. ascii_space c"
  shows "strip_all ws (p @ s) = strip_all ws s"
  using assms(2)
proof (induction p)
  case (Cons c p)
  then show ?case
    using whitespace_heads [of c ws "p @ s"] assms(1) by (subst strip_all.simps) simp
qed simp

lemma strip_all_visible:
  assumes "ws = whitespace_seqs \<or> ws = map rev whitespace_seqs" "\<forall>c \<in> set s. ascii_visible c"
  shows "strip_all ws s = s"
proof (cases s)
  case (Cons c t)
  then have "\<not> ascii_space c" using assms(2) by (auto simp: ascii_visible_def ascii_space_def)
  then show ?thesis using whitespace_heads [of c ws t] assms Cons by (simp add: strip_all.simps)
next
  case Nil
  have "[] \<notin> set ws" using assms(1) by (auto simp: whitespace_seqs_def)
  then have "strip_any ws [] = None" by (induction ws) (auto split: option.splits simp: strip_prefix_iff)
  then show ?thesis using Nil by (simp add: strip_all.simps)
qed

text \<open>Trimming visible text between runs of ASCII white space gives the text.\<close>

lemma trim_visible:
  assumes "\<forall>c \<in> set p. ascii_space c" "\<forall>c \<in> set s. ascii_visible c" "\<forall>c \<in> set q. ascii_space c" "s \<noteq> []"
  shows "trim (p @ s @ q) = s"
proof -
  obtain c t where s: "s = c # t" using assms(4) by (cases s) auto
  then have "\<not> ascii_space c" using assms(2) by (auto simp: ascii_visible_def ascii_space_def)
  then have "strip_all whitespace_seqs (s @ q) = s @ q"
    using whitespace_heads [of c whitespace_seqs "t @ q"] assms(2) by (simp add: s strip_all.simps)
  then have "trim_start (p @ s @ q) = s @ q"
    using strip_all_spaces [of whitespace_seqs p "s @ q"] assms(1) by (simp add: trim_start_def)
  moreover have "trim_end (s @ q) = s"
    using strip_all_spaces [of "map rev whitespace_seqs" "rev q" "rev s"] assms(2,3)
      strip_all_visible [of "map rev whitespace_seqs" "rev s"]
    by (simp add: trim_end_def)
  ultimately show ?thesis by (simp add: trim_def)
qed

text \<open>The first piece of \<open>str::split\<close> on one character: everything before it.\<close>

definition split_first :: "char \<Rightarrow> string \<Rightarrow> string" where
  "split_first c s = takeWhile (\<lambda>x. x \<noteq> c) s"

text \<open>\<open>str::eq_ignore_ascii_case\<close>.\<close>

definition ascii_lower :: "char \<Rightarrow> char" where
  "ascii_lower c =
     (let n = of_char c :: nat in if 65 \<le> n \<and> n \<le> 90 then char_of (n + 32) else c)"

definition eq_ignore_ascii_case :: "string \<Rightarrow> string \<Rightarrow> bool" where
  "eq_ignore_ascii_case s t \<longleftrightarrow> map ascii_lower s = map ascii_lower t"

subsection \<open>Decimal numbers\<close>

definition digit_char :: "nat \<Rightarrow> char" where
  "digit_char d = char_of (48 + d)"

definition digit_val :: "char \<Rightarrow> nat option" where
  "digit_val c = (let n = of_char c :: nat in if 48 \<le> n \<and> n \<le> 57 then Some (n - 48) else None)"

lemma digit_val_char [simp]: "d < 10 \<Longrightarrow> digit_val (digit_char d) = Some d"
  by (simp add: digit_val_def digit_char_def Let_def)

text \<open>\<open>ToString\<close> of an unsigned integer: its decimal digits, no leading zero.\<close>

fun dec_string :: "nat \<Rightarrow> string" where
  "dec_string n = (if n < 10 then [digit_char n] else dec_string (n div 10) @ [digit_char (n mod 10)])"

declare dec_string.simps [simp del]

text \<open>
  \<open>FromStr\<close> of an unsigned integer of a given width: an optional plus sign, then at least one
  digit and nothing else; overflow is an error.
\<close>

fun dec_value :: "nat \<Rightarrow> nat \<Rightarrow> string \<Rightarrow> nat option" where
  "dec_value bound acc [] = Some acc"
| "dec_value bound acc (c # cs) =
     (case digit_val c of
        None \<Rightarrow> None
      | Some d \<Rightarrow> if acc * 10 + d < bound then dec_value bound (acc * 10 + d) cs else None)"

definition parse_unsigned :: "nat \<Rightarrow> string \<Rightarrow> nat option" where
  "parse_unsigned bound s =
     (let digits = (case s of c # cs \<Rightarrow> if c = CHR ''+'' then cs else s | [] \<Rightarrow> [])
      in if digits = [] then None else dec_value bound 0 digits)"

definition parse_u32 :: "string \<Rightarrow> u32 option" where
  "parse_u32 s = map_option of_nat (parse_unsigned (2 ^ 32) s)"

lemma dec_value_append:
  "dec_value b acc (s @ t) = Option.bind (dec_value b acc s) (\<lambda>a. dec_value b a t)"
  by (induction b acc s rule: dec_value.induct) (auto split: option.splits)

lemma dec_value_dec_string: "n < b \<Longrightarrow> dec_value b 0 (dec_string n) = Some n"
proof (induction n rule: dec_string.induct)
  case (1 n)
  show ?case
  proof (cases "n < 10")
    case True
    with "1.prems" show ?thesis by (simp add: dec_string.simps [of n])
  next
    case False
    with "1.prems" have "n div 10 < b" by auto
    with 1 False have "dec_value b 0 (dec_string (n div 10)) = Some (n div 10)" by simp
    with False "1.prems" show ?thesis
      by (simp add: dec_string.simps [of n] dec_value_append)
  qed
qed

lemma dec_string_not_Nil [simp]: "dec_string n \<noteq> []"
  by (simp add: dec_string.simps [of n])

lemma set_dec_string: "set (dec_string n) \<subseteq> digit_char ` {..<10}"
proof (induction n rule: dec_string.induct)
  case (1 n)
  then show ?case by (cases "n < 10") (auto simp: dec_string.simps [of n])
qed

lemma plus_not_digit: "CHR ''+'' \<notin> digit_char ` {..<10}"
proof
  assume "CHR ''+'' \<in> digit_char ` {..<10}"
  then obtain d where "d < 10" "CHR ''+'' = digit_char d" by auto
  then have "digit_val CHR ''+'' = Some d" by simp
  then show False by (simp add: digit_val_def)
qed

lemma parse_dec_string: "n < b \<Longrightarrow> parse_unsigned b (dec_string n) = Some n"
proof -
  assume "n < b"
  moreover have "CHR ''+'' \<notin> set (dec_string n)"
    using set_dec_string plus_not_digit by blast
  then have "(case dec_string n of c # cs \<Rightarrow> if c = CHR ''+'' then cs else dec_string n | [] \<Rightarrow> [])
      = dec_string n"
    by (cases "dec_string n") auto
  ultimately show ?thesis
    by (simp add: parse_unsigned_def Let_def dec_value_dec_string)
qed

lemma dec_string_inject: "dec_string m = dec_string n \<longleftrightarrow> m = n"
proof
  assume eq: "dec_string m = dec_string n"
  let ?b = "Suc (max m n)"
  have "Some m = dec_value ?b 0 (dec_string m)" by (subst dec_value_dec_string) simp_all
  also have "\<dots> = Some n" unfolding eq by (subst dec_value_dec_string) simp_all
  finally show "m = n" by simp
qed simp

section \<open>Updates of lists\<close>

lemma map_filter_update:
  "f x = f (xs ! j) \<Longrightarrow> List.map_filter f (xs[j := x]) = List.map_filter f xs"
proof (induction xs arbitrary: j)
  case (Cons y ys)
  then show ?case by (cases j) (auto simp: List.map_filter_simps split: option.split)
qed simp

lemma set_map_filter: "set (List.map_filter f xs) = {y. \<exists>x \<in> set xs. f x = Some y}"
  by (induction xs) (auto simp: List.map_filter_simps split: option.split)

lemma in_update: "q \<in> set (xs[j := x]) \<Longrightarrow> j < length xs \<Longrightarrow> q = x \<or> (\<exists>k < length xs. k \<noteq> j \<and> q = xs ! k)"
  by (auto simp: in_set_conv_nth nth_list_update split: if_splits)

lemma length_filter_update:
  assumes "i < length xs"
  shows "length (filter P (xs[i := y])) + (if P (xs ! i) then 1 else 0) =
    length (filter P xs) + (if P y then 1 else 0)"
proof -
  have "length (filter P (take i xs @ xs ! i # drop (Suc i) xs)) =
      length (filter P (take i xs)) + (if P (xs ! i) then 1 else 0) + length (filter P (drop (Suc i) xs))"
    by simp
  then have "length (filter P xs) =
      length (filter P (take i xs)) + (if P (xs ! i) then 1 else 0) + length (filter P (drop (Suc i) xs))"
    by (simp only: id_take_nth_drop [OF assms, symmetric])
  then show ?thesis by (simp add: upd_conv_take_nth_drop [OF assms])
qed

lemma count_list_update:
  "j < length xs \<Longrightarrow> count_list (xs[j := x]) v + (if xs ! j = v then 1 else 0) = count_list xs v + (if x = v then 1 else 0)"
proof (induction xs arbitrary: j)
  case (Cons y ys)
  show ?case
  proof (cases j)
    case (Suc k)
    then show ?thesis using Cons.IH [of k] Cons.prems by (auto split: if_splits)
  qed auto
qed simp

lemma sum_list_update_less:
  fixes f :: "'a \<Rightarrow> nat"
  assumes "j < length xs" "f x < f (xs ! j)"
  shows "(\<Sum>y\<leftarrow>xs[j := x]. f y) < (\<Sum>y\<leftarrow>xs. f y)"
  using assms
proof (induction xs arbitrary: j)
  case (Cons y ys)
  then show ?case by (cases j) auto
qed simp

end
