(* ===== verification/Float64.thy ===== *)
theory Float64
  imports Complex_Main Prelude "HOL-Library.Log_Nat"
begin

text \<open>
  The double-precision arithmetic the sources use: conversion of integers, division,
  multiplication, comparison, \<open>f64::min\<close>, \<open>f64::powi\<close> on base two and the
  saturating cast to \<open>u64\<close>.  A finite double is the rational it denotes (the sources
  never divide by a negative zero, so the two zeros are one), and every operation rounds the
  exact result to nearest, ties to even, with 53 bits of precision, gradual underflow below
  the exponent \<open>-1022\<close> and overflow to infinity, as IEEE 754 prescribes.
\<close>

datatype f64 = NaN | Infinite | NegInfinite | Fin rat

section \<open>Rounding\<close>

text \<open>The exponent of a positive rational: the \<open>e\<close> with \<open>2 powi e \<le> q < 2 powi (e + 1)\<close>.\<close>

definition exponent_of :: "rat \<Rightarrow> int" where
  "exponent_of q =
     (let (n, d) = quotient_of q; e = bitlen n - bitlen d
      in if 2 powi e \<le> q then e else e - 1)"

definition round_even :: "rat \<Rightarrow> int" where
  "round_even q =
     (let f = \<lfloor>q\<rfloor>; r = q - of_int f
      in if r < 1/2 then f else if r > 1/2 then f + 1 else if even f then f else f + 1)"

definition ulp_exponent :: "rat \<Rightarrow> int" where
  "ulp_exponent q = max (exponent_of q - 52) (-1074)"

definition round_pos :: "rat \<Rightarrow> rat" where
  "round_pos q = (let u = ulp_exponent q in of_int (round_even (q / 2 powi u)) * 2 powi u)"

definition f64_round :: "rat \<Rightarrow> f64" where
  "f64_round q =
     (if q = 0 then Fin 0
      else if q > 0 then (let r = round_pos q in if r < 2 ^ 1024 then Fin r else Infinite)
      else (let r = round_pos (- q) in if r < 2 ^ 1024 then Fin (- r) else NegInfinite))"

section \<open>Operations\<close>

definition f64_of_nat :: "nat \<Rightarrow> f64" where
  "f64_of_nat n = f64_round (of_nat n)"

fun f64_div :: "f64 \<Rightarrow> f64 \<Rightarrow> f64" where
  "f64_div (Fin a) (Fin b) =
     (if b = 0 then (if a = 0 then NaN else if a > 0 then Infinite else NegInfinite)
      else f64_round (a / b))"
| "f64_div Infinite (Fin b) = (if b < 0 then NegInfinite else Infinite)"
| "f64_div NegInfinite (Fin b) = (if b < 0 then Infinite else NegInfinite)"
| "f64_div (Fin a) Infinite = Fin 0"
| "f64_div (Fin a) NegInfinite = Fin 0"
| "f64_div NaN _ = NaN"
| "f64_div _ NaN = NaN"
| "f64_div Infinite _ = NaN"
| "f64_div NegInfinite _ = NaN"

fun f64_sgn :: "f64 \<Rightarrow> int" where
  "f64_sgn NaN = 0"
| "f64_sgn Infinite = 1"
| "f64_sgn NegInfinite = -1"
| "f64_sgn (Fin a) = (if a = 0 then 0 else if a > 0 then 1 else -1)"

fun f64_mul :: "f64 \<Rightarrow> f64 \<Rightarrow> f64" where
  "f64_mul (Fin a) (Fin b) = f64_round (a * b)"
| "f64_mul NaN _ = NaN"
| "f64_mul _ NaN = NaN"
| "f64_mul x y =
     (let s = f64_sgn x * f64_sgn y
      in if s = 0 then NaN else if s > 0 then Infinite else NegInfinite)"

fun f64_ge :: "f64 \<Rightarrow> f64 \<Rightarrow> bool" where
  "f64_ge NaN _ = False"
| "f64_ge _ NaN = False"
| "f64_ge Infinite _ = True"
| "f64_ge _ NegInfinite = True"
| "f64_ge (Fin a) (Fin b) = (a \<ge> b)"
| "f64_ge _ _ = False"

text \<open>\<open>f64::min\<close> ignores a NaN operand.\<close>

fun f64_min :: "f64 \<Rightarrow> f64 \<Rightarrow> f64" where
  "f64_min NaN y = y"
| "f64_min x NaN = x"
| "f64_min x y = (if f64_ge y x then x else y)"

text \<open>\<open>as u64\<close>: truncation, saturating at the ends of the range; NaN is 0.\<close>

fun f64_to_u64 :: "f64 \<Rightarrow> u64" where
  "f64_to_u64 NaN = 0"
| "f64_to_u64 Infinite = - 1"
| "f64_to_u64 NegInfinite = 0"
| "f64_to_u64 (Fin a) =
     (if a < 0 then 0 else if a \<ge> 2 ^ 64 then - 1 else of_int \<lfloor>a\<rfloor>)"

text \<open>
  \<open>2f64.powi(n)\<close>: the power by repeated multiplication, its reciprocal for a negative
  exponent.  Powers of two are exact up to the largest exponent, 1023.
\<close>

definition f64_two_powi :: "int \<Rightarrow> f64" where
  "f64_two_powi n =
     (if n \<ge> 0 then f64_round (2 ^ nat n) else f64_div (Fin 1) (f64_round (2 ^ nat (- n))))"

section \<open>Correct rounding\<close>

lemma powi_add2: "(2::rat) powi (a + b) = 2 powi a * 2 powi b"
  by (simp add: power_int_add)

lemma powi_mono2: "a \<le> b \<Longrightarrow> (2::rat) powi a \<le> 2 powi b"
  by (simp add: power_int_increasing)

lemma bitlen_nat_bounds:
  assumes "(n::int) > 0"
  shows "(2::rat) powi (bitlen n - 1) \<le> of_int n" "of_int n < (2::rat) powi bitlen n"
proof -
  have b: "2 ^ nat (bitlen n - 1) \<le> n \<and> n < 2 ^ nat (bitlen n)"
    using assms by (rule bitlen_bounds)
  have p: "bitlen n > 0" using b assms by (cases "bitlen n > 0") auto
  have "(of_int (2 ^ nat (bitlen n - 1)) :: rat) \<le> of_int n" "(of_int n :: rat) < of_int (2 ^ nat (bitlen n))"
    using b by (simp_all only: of_int_le_iff of_int_less_iff)
  then show "(2::rat) powi (bitlen n - 1) \<le> of_int n" "of_int n < (2::rat) powi bitlen n"
    using p by (simp_all add: power_int_def)
qed

lemma exponent_bounds:
  assumes "q > 0"
  shows "2 powi exponent_of q \<le> q" "q < 2 powi (exponent_of q + 1)"
proof -
  obtain n d where nd: "quotient_of q = (n, d)" by (cases "quotient_of q")
  then have d: "d > 0" by (rule quotient_of_denom_pos)
  have q: "q = of_int n / of_int d" using nd by (rule quotient_of_div)
  with assms d have n: "n > 0" by (simp add: zero_less_divide_iff)
  define e where "e = bitlen n - bitlen d"
  note bn = bitlen_nat_bounds [OF n] and bd = bitlen_nat_bounds [OF d]
  have dp: "(0::rat) < of_int d" using d by simp
  have "q < 2 powi bitlen n / 2 powi (bitlen d - 1)"
    unfolding q using bn bd dp n by (intro frac_less) auto
  also have "\<dots> = 2 powi (e + 1)"
    by (simp add: e_def power_int_diff powi_add2)
  finally have hi: "q < 2 powi (e + 1)" .
  have "2 powi (bitlen n - 1) / 2 powi bitlen d \<le> q"
    unfolding q using bn bd dp n by (intro frac_le) auto
  then have lo: "2 powi (e - 1) \<le> q"
    by (simp add: e_def power_int_diff)
  show "2 powi exponent_of q \<le> q" "q < 2 powi (exponent_of q + 1)"
    using hi lo by (auto simp: exponent_of_def nd Let_def simp flip: e_def)
qed

lemma exponent_less:
  assumes "q > 0" "q < 2 powi k"
  shows "exponent_of q < k"
proof (rule ccontr)
  assume "\<not> exponent_of q < k"
  then have "(2::rat) powi k \<le> 2 powi exponent_of q" by (intro powi_mono2) simp
  with exponent_bounds(1) [OF assms(1)] assms(2) show False by simp
qed

lemma exponent_mono:
  assumes "0 < p" "p \<le> q"
  shows "exponent_of p \<le> exponent_of q"
proof -
  have "p < 2 powi (exponent_of q + 1)"
    using exponent_bounds(2) [of q] assms by simp
  then have "exponent_of p < exponent_of q + 1"
    using assms by (intro exponent_less)
  then show ?thesis by simp
qed

lemma round_even_of_int [simp]: "round_even (of_int k) = k"
  by (simp add: round_even_def)

lemma round_even_floor: "\<lfloor>q\<rfloor> \<le> round_even q" "round_even q \<le> \<lfloor>q\<rfloor> + 1"
  by (auto simp: round_even_def Let_def)

lemma round_even_mono:
  assumes "p \<le> q"
  shows "round_even p \<le> round_even q"
proof (cases "\<lfloor>p\<rfloor> = \<lfloor>q\<rfloor>")
  case True
  then show ?thesis using assms by (auto simp: round_even_def Let_def)
next
  case False
  with assms have "\<lfloor>p\<rfloor> + 1 \<le> \<lfloor>q\<rfloor>" using floor_mono [OF assms] by simp
  then show ?thesis using round_even_floor(2) [of p] round_even_floor(1) [of q] by simp
qed

lemma round_pos_le_grid:
  assumes "p \<le> of_int k * 2 powi ulp_exponent p"
  shows "round_pos p \<le> of_int k * 2 powi ulp_exponent p"
proof -
  have "p / 2 powi ulp_exponent p \<le> of_int k"
    using assms by (simp add: pos_divide_le_eq)
  then have "round_even (p / 2 powi ulp_exponent p) \<le> k"
    using round_even_mono by fastforce
  then have "(of_int (round_even (p / 2 powi ulp_exponent p)) :: rat) \<le> of_int k"
    by simp
  then show ?thesis by (simp add: round_pos_def Let_def)
qed

lemma round_pos_ge_grid:
  assumes "of_int k * 2 powi ulp_exponent p \<le> p"
  shows "of_int k * 2 powi ulp_exponent p \<le> round_pos p"
proof -
  have "of_int k \<le> p / 2 powi ulp_exponent p"
    using assms by (simp add: pos_le_divide_eq)
  then have "k \<le> round_even (p / 2 powi ulp_exponent p)"
    using round_even_mono by fastforce
  then have "(of_int k :: rat) \<le> of_int (round_even (p / 2 powi ulp_exponent p))"
    by simp
  then show ?thesis by (simp add: round_pos_def Let_def)
qed

text \<open>Every multiple of a power of two that fits in 53 bits is rounded to itself.\<close>

lemma grid_shift:
  assumes "u \<le> k"
  shows "of_int m * (2::rat) powi k = of_int (m * 2 ^ nat (k - u)) * 2 powi u"
proof -
  have "(2::rat) powi k = 2 powi (k - u) * 2 powi u" by (simp flip: power_int_add)
  also have "(2::rat) powi (k - u) = 2 ^ nat (k - u)" using assms by (simp add: power_int_def)
  finally show ?thesis by simp
qed

lemma round_pos_exact:
  assumes "0 < q" "q = of_int m * 2 powi k" "q < 2 powi (53 + k)" "-1074 \<le> k"
  shows "round_pos q = q"
proof -
  have "exponent_of q < 53 + k" using assms(1,3) by (rule exponent_less)
  then have "ulp_exponent q \<le> k" using assms(4) by (simp add: ulp_exponent_def)
  then have "q = of_int (m * 2 ^ nat (k - ulp_exponent q)) * 2 powi ulp_exponent q"
    unfolding assms(2) by (rule grid_shift)
  then show ?thesis
    using round_pos_le_grid round_pos_ge_grid by (metis order_antisym order_refl)
qed

lemma round_pos_mono:
  assumes "0 < p" "p \<le> q"
  shows "round_pos p \<le> round_pos q"
proof (cases "ulp_exponent p = ulp_exponent q")
  case True
  have "round_even (p / 2 powi ulp_exponent q) \<le> round_even (q / 2 powi ulp_exponent q)"
    using assms by (intro round_even_mono divide_right_mono) simp_all
  then show ?thesis by (simp add: round_pos_def True Let_def)
next
  case False
  let ?E = "exponent_of q"
  have le: "exponent_of p \<le> ?E" using assms by (rule exponent_mono)
  with False have v: "ulp_exponent q = ?E - 52" and u: "ulp_exponent p \<le> ?E"
    and lt: "exponent_of p + 1 \<le> ?E"
    by (auto simp: ulp_exponent_def)
  have "p \<le> 2 powi (exponent_of p + 1)" using exponent_bounds(2) assms(1) by (simp add: less_imp_le)
  also have "\<dots> \<le> 2 powi ?E" using lt by (rule powi_mono2)
  finally have "p \<le> of_int (1 * 2 ^ nat (?E - ulp_exponent p)) * 2 powi ulp_exponent p"
    using grid_shift [OF u, of 1] by simp
  then have "round_pos p \<le> of_int (1 * 2 ^ nat (?E - ulp_exponent p)) * 2 powi ulp_exponent p"
    by (rule round_pos_le_grid)
  also have "\<dots> = 2 powi ?E" using grid_shift [OF u, of 1] by simp
  also have "\<dots> = of_int (1 * 2 ^ nat (?E - ulp_exponent q)) * 2 powi ulp_exponent q"
    using grid_shift [of "ulp_exponent q" ?E 1] v by simp
  also have "\<dots> \<le> round_pos q"
  proof (rule round_pos_ge_grid)
    have "2 powi ?E \<le> q" using assms by (intro exponent_bounds) simp
    then show "of_int (1 * 2 ^ nat (?E - ulp_exponent q)) * 2 powi ulp_exponent q \<le> q"
      using grid_shift [of "ulp_exponent q" ?E 1] v by simp
  qed
  finally show ?thesis .
qed

lemma round_pos_nonneg: "0 \<le> q \<Longrightarrow> 0 \<le> round_pos q"
  using round_pos_ge_grid [of 0 q] by simp

section \<open>Consequences for the operations\<close>

lemma f64_round_0 [simp]: "f64_round 0 = Fin 0"
  by (simp add: f64_round_def)

lemma f64_round_exact:
  assumes "0 \<le> q" "q = of_int m * 2 powi k" "q < 2 powi (53 + k)" "-1074 \<le> k" "k \<le> 971"
  shows "f64_round q = Fin q"
proof (cases "q = 0")
  case False
  with assms(1) have "0 < q" by simp
  then have "round_pos q = q" using assms(2-4) by (rule round_pos_exact)
  moreover have "q < 2 ^ 1024"
  proof -
    have "q < 2 powi (53 + k)" by fact
    also have "\<dots> \<le> 2 powi 1024" using assms(5) by (intro powi_mono2) simp
    also have "\<dots> = 2 ^ 1024" by (simp only: power_int_numeral)
    finally show ?thesis .
  qed
  ultimately show ?thesis using False assms(1) by (simp only: f64_round_def Let_def) simp
qed simp

lemma f64_of_nat_exact:
  assumes "n \<le> 2 ^ 53"
  shows "f64_of_nat n = Fin (of_nat n)"
proof (cases "n < 2 ^ 53")
  case True
  then have "(of_nat n :: rat) < of_nat (2 ^ 53)" by (simp only: of_nat_less_iff)
  then have "f64_round (of_nat n) = Fin (of_nat n)"
    by (intro f64_round_exact [of _ "int n" 0]) simp_all
  then show ?thesis by (simp add: f64_of_nat_def)
next
  case False
  with assms have n: "n = 2 ^ 53" by simp
  have "f64_round (of_nat n) = Fin (of_nat n)"
    unfolding n by (rule f64_round_exact [of _ "2 ^ 52" 1]) simp_all
  then show ?thesis by (simp add: f64_of_nat_def)
qed

lemma f64_div_nat:
  assumes "0 < r" "r \<le> 2 ^ 53" "f \<le> 2 ^ 53"
  shows "f64_div (f64_of_nat f) (f64_of_nat r) = f64_round (of_nat f / of_nat r)"
  using assms by (simp add: f64_of_nat_exact)

lemma f64_round_ge:
  assumes "0 \<le> p" "p \<le> q"
  shows "f64_ge (f64_round q) (f64_round p)"
proof (cases "p = 0")
  case True
  then show ?thesis using assms round_pos_nonneg [of q]
    by (cases "q = 0") (simp_all add: f64_round_def Let_def)
next
  case False
  with assms have "0 < p" "0 < q" and "round_pos p \<le> round_pos q"
    by (auto intro: round_pos_mono)
  then show ?thesis using False by (auto simp: f64_round_def Let_def)
qed

lemma f64_ge_trans: "f64_ge x y \<Longrightarrow> f64_ge y z \<Longrightarrow> f64_ge x z"
  by (cases x; cases y; cases z) auto

text \<open>
  The quotient of two \<open>u32\<close> counters compared with the double nearest to a fraction whose denominator
  is at most \<open>2\<^sup>2\<^sup>0\<close>: rounding never changes the verdict, because two such fractions that differ are
  more than one unit in the last place apart.
\<close>

lemma fraction_gap:
  fixes f r a b :: nat
  assumes "0 < r" "r < 2 ^ 32" "0 < b" "b \<le> 2 ^ 20" "f * b < a * r"
  shows "(of_nat f / of_nat r :: rat) \<le> of_nat a / of_nat b - 1 / 2 ^ 52"
proof -
  have "f * b + 1 \<le> a * r" using assms(5) by simp
  then have "(of_nat (f * b + 1) :: rat) \<le> of_nat (a * r)" by (simp only: of_nat_le_iff)
  then have 1: "of_nat f * of_nat b + 1 \<le> (of_nat a * of_nat r :: rat)" by simp
  have "r * b \<le> 2 ^ 32 * 2 ^ 20" using assms(2,4) by (intro mult_mono) simp_all
  then have "(of_nat (r * b) :: rat) \<le> of_nat (2 ^ 32 * 2 ^ 20)" by (simp only: of_nat_le_iff)
  then have rb: "(of_nat r * of_nat b :: rat) \<le> 2 ^ 52" by simp
  have p: "(0 :: rat) < of_nat r" "(0 :: rat) < of_nat b" using assms(1,3) by simp_all
  have "(of_nat f / of_nat r :: rat) = of_nat f * of_nat b / (of_nat r * of_nat b)" using p by simp
  also have "\<dots> \<le> (of_nat a * of_nat r - 1) / (of_nat r * of_nat b)"
    using 1 p by (intro divide_right_mono) simp_all
  also have "\<dots> = of_nat a / of_nat b - 1 / (of_nat r * of_nat b)"
    using p by (simp add: field_simps)
  finally have "of_nat f / of_nat r \<le> of_nat a / of_nat b - 1 / (of_nat r * of_nat b :: rat)" .
  moreover have "1 / 2 ^ 52 \<le> (1 / (of_nat r * of_nat b) :: rat)"
    using rb p by (intro divide_left_mono) simp_all
  ultimately show ?thesis by simp
qed

lemma fraction_compare:
  fixes f r a b :: nat
  assumes "0 < r" "0 < b"
  shows "a * r \<le> f * b \<longleftrightarrow> of_nat a / of_nat b \<le> (of_nat f / of_nat r :: rat)"
proof -
  have "a * r \<le> f * b \<longleftrightarrow> (of_nat (a * r) :: rat) \<le> of_nat (f * b)" by (simp only: of_nat_le_iff)
  also have "\<dots> \<longleftrightarrow> of_nat a / of_nat b \<le> (of_nat f / of_nat r :: rat)"
    using assms by (simp add: field_simps)
  finally show ?thesis .
qed

text \<open>The multiples of \<open>2\<^sup>-\<^sup>5\<^sup>3\<close> up to one are doubles.\<close>

lemma grid53_exact:
  assumes "0 \<le> m" "m \<le> 2 ^ 53"
  shows "f64_round (of_int m / 2 ^ 53) = Fin (of_int m / 2 ^ 53)"
proof (cases "m = 2 ^ 53")
  case True
  have "f64_round 1 = Fin 1" by (rule f64_round_exact [of 1 1 0]) simp_all
  then show ?thesis by (simp add: True)
next
  case False
  with assms have "(of_int m :: rat) < of_int (2 ^ 53)" by (simp only: of_int_less_iff)
  then have "(of_int m / 2 ^ 53 :: rat) < 2 powi (53 + (- 53))" by simp
  moreover have "(of_int m / 2 ^ 53 :: rat) = of_int m * 2 powi (- 53)"
    by (simp add: power_int_def power_one_over)
  moreover have "0 \<le> (of_int m / 2 ^ 53 :: rat)" using assms(1) by simp
  ultimately show ?thesis by (intro f64_round_exact [where k = "- 53"]) simp_all
qed

lemma round_separates:
  assumes "0 \<le> x" "x \<le> y - 1 / 2 ^ 52" "y \<le> 1"
  shows "\<not> f64_ge (f64_round x) (f64_round y)"
proof
  let ?m = "\<lceil>x * 2 ^ 53\<rceil>" and ?n = "\<lfloor>y * 2 ^ 53\<rfloor>"
  have step: "x * 2 ^ 53 \<le> y * 2 ^ 53 - 2" using assms(2) by simp
  have "of_int ?m < x * 2 ^ 53 + 1" "y * 2 ^ 53 < of_int ?n + 1" by linarith+
  then have "(of_int ?m :: rat) < of_int ?n" using step by linarith
  then have mn: "?m < ?n" by (simp only: of_int_less_iff)
  have "0 \<le> x * 2 ^ 53" using assms(1) by simp
  then have m0: "0 \<le> ?m" by linarith
  have "y * 2 ^ 53 \<le> of_int (2 ^ 53)" using assms(3) by simp
  then have n1: "?n \<le> 2 ^ 53" by linarith
  have exact: "f64_round (of_int ?m / 2 ^ 53) = Fin (of_int ?m / 2 ^ 53)"
    "f64_round (of_int ?n / 2 ^ 53) = Fin (of_int ?n / 2 ^ 53)"
    using m0 n1 mn by (simp_all only: grid53_exact)
  have "x * 2 ^ 53 \<le> of_int ?m" "of_int ?n \<le> y * 2 ^ 53" by (rule le_of_int_ceiling, rule of_int_floor_le)
  then have "x \<le> of_int ?m / 2 ^ 53" "of_int ?n / 2 ^ 53 \<le> y" by (simp_all add: field_simps)
  moreover have "0 \<le> (of_int ?n / 2 ^ 53 :: rat)"
  proof (rule divide_nonneg_nonneg)
    have "0 \<le> ?n" using m0 mn by linarith
    then show "(0 :: rat) \<le> of_int ?n" by (simp only: of_int_0_le_iff)
  qed simp
  ultimately have "f64_ge (Fin (of_int ?m / 2 ^ 53)) (f64_round x)" "f64_ge (f64_round y) (Fin (of_int ?n / 2 ^ 53))"
    using f64_round_ge [OF assms(1), of "of_int ?m / 2 ^ 53"] f64_round_ge [of "of_int ?n / 2 ^ 53" y] exact by simp_all
  moreover assume "f64_ge (f64_round x) (f64_round y)"
  ultimately have "f64_ge (Fin (of_int ?m / 2 ^ 53)) (Fin (of_int ?n / 2 ^ 53))" using f64_ge_trans by blast
  then have "(of_int ?n :: rat) \<le> of_int ?m" by (simp add: field_simps)
  with mn show False by simp
qed

lemma ratio_ge_fraction:
  fixes f r a b :: nat
  assumes "0 < r" "r < 2 ^ 32" "f < 2 ^ 32" "0 < b" "b \<le> 2 ^ 20" "a \<le> b"
  shows "f64_ge (f64_div (f64_of_nat f) (f64_of_nat r)) (f64_round (of_nat a / of_nat b))
    \<longleftrightarrow> of_nat a / of_nat b \<le> (of_nat f / of_nat r :: rat)"
proof -
  let ?q = "of_nat f / of_nat r :: rat" and ?t = "of_nat a / of_nat b :: rat"
  have "f64_div (f64_of_nat f) (f64_of_nat r) = f64_round ?q" using assms by (intro f64_div_nat) simp_all
  moreover have "f64_ge (f64_round ?q) (f64_round ?t)" if "?t \<le> ?q" using that by (intro f64_round_ge) simp_all
  moreover have "\<not> f64_ge (f64_round ?q) (f64_round ?t)" if "\<not> ?t \<le> ?q"
  proof (rule round_separates)
    have "f * b < a * r" using that fraction_compare [OF assms(1,4), of a f] by simp
    then show "?q \<le> ?t - 1 / 2 ^ 52" by (rule fraction_gap [OF assms(1,2,4,5)])
    show "?t \<le> 1" using assms(4,6) by simp
  qed simp
  ultimately show ?thesis by auto
qed

end
