(* ===== verification/Std_Time.thy ===== *)
theory Std_Time
  imports Prelude
begin

text \<open>
  The time types of the standard library that the sources use.  A \<open>Duration\<close> is a
  number of nanoseconds; a reading of the system clock is a signed number of nanoseconds
  since the Unix epoch (the clock may be set before it).  Every call of the clock in the
  sources is an argument of the model, so consecutive calls may read different times and the
  clock may go backwards.
\<close>

type_synonym duration = nat
type_synonym sys_time = int

definition duration_from_secs :: "u64 \<Rightarrow> duration" where
  "duration_from_secs s = unat s * 10 ^ 9"

definition duration_from_millis :: "u64 \<Rightarrow> duration" where
  "duration_from_millis ms = unat ms * 10 ^ 6"

text \<open>\<open>Duration::as_millis\<close> is 128 bits wide; \<open>as u64\<close> keeps the low 64.\<close>

definition as_millis_u64 :: "duration \<Rightarrow> u64" where
  "as_millis_u64 d = of_nat (d div 10 ^ 6)"

definition as_secs :: "duration \<Rightarrow> u64" where
  "as_secs d = of_nat (d div 10 ^ 9)"

text \<open>\<open>SystemTime::duration_since(UNIX_EPOCH).unwrap_or_default()\<close>.\<close>

definition since_epoch :: "sys_time \<Rightarrow> duration" where
  "since_epoch t = (if t < 0 then 0 else nat t)"

lemma since_epoch_mono: "s \<le> t \<Longrightarrow> since_epoch s \<le> since_epoch t"
  by (auto simp: since_epoch_def)

lemma as_millis_from_millis [simp]: "as_millis_u64 (duration_from_millis ms) = ms"
  by (simp add: as_millis_u64_def duration_from_millis_def)

lemma as_millis_from_secs:
  assumes "unat s * 1000 < 2 ^ 64"
  shows "unat (as_millis_u64 (duration_from_secs s)) = unat s * 1000"
proof -
  have "unat s * 10 ^ 9 div 10 ^ 6 = unat s * 1000" by simp
  then show ?thesis using assms
    by (simp only: as_millis_u64_def duration_from_secs_def unat_of_nat) simp
qed

text \<open>
  The \<open>Debug\<close> form of a duration (\<open>{:?}\<close>): the largest unit with a non-zero integer part, a
  decimal fraction without trailing zeros.
\<close>

definition zero_padded :: "nat \<Rightarrow> nat \<Rightarrow> string" where
  "zero_padded width n = (let s = dec_string n in replicate (width - length s) (CHR ''0'') @ s)"

definition fmt_decimal :: "nat \<Rightarrow> nat \<Rightarrow> nat \<Rightarrow> string" where
  "fmt_decimal integer fraction width =
     (if fraction = 0 then dec_string integer
      else dec_string integer @ ''.'' @
        rev (dropWhile (\<lambda>c. c = CHR ''0'') (rev (zero_padded width fraction))))"

definition duration_debug :: "duration \<Rightarrow> string" where
  "duration_debug d =
     (if d \<ge> 10 ^ 9 then fmt_decimal (d div 10 ^ 9) (d mod 10 ^ 9) 9 @ ''s''
      else if d \<ge> 10 ^ 6 then fmt_decimal (d div 10 ^ 6) (d mod 10 ^ 6) 6 @ ''ms''
      else if d \<ge> 10 ^ 3 then fmt_decimal (d div 10 ^ 3) (d mod 10 ^ 3) 3 @
        map (char_of :: nat \<Rightarrow> char) [0xC2, 0xB5] @ ''s''
      else fmt_decimal d 0 1 @ ''ns'')"

text \<open>A period clamped as the probes clamp theirs.\<close>

lemma probe_period_positive: "duration_from_secs (max n 1) \<ge> duration_from_secs 1"
proof -
  have "unat (max n 1) \<ge> 1" by (simp add: max_def word_le_nat_alt)
  then show ?thesis by (simp add: duration_from_secs_def)
qed

end
