(* ===== verification/Circuit_Breaker.thy ===== *)
theory Circuit_Breaker
  imports Float64 Std_Time Transition_Systems
begin

text \<open>
  The circuit breaker of \<open>crates/resilient-client/src/circuit_breaker.rs\<close>, called by
  one thread at a time: the record of its atomics and settings, one definition per method
  with the clock readings of that method as arguments, an abstract three-state breaker over
  natural numbers and exact fractions, and the proof that the machine-integer and
  floating-point implementation refines it.  \<open>Circuit_Breaker_Conc\<close> has the same
  methods as interleaved atomic accesses.
\<close>

section \<open>State\<close>

datatype cb_state = Closed | Open | HalfOpen

fun cb_state_as_u8 :: "cb_state \<Rightarrow> u8" where
  "cb_state_as_u8 Closed = 0"
| "cb_state_as_u8 Open = 1"
| "cb_state_as_u8 HalfOpen = 2"

definition cb_state_from :: "u8 \<Rightarrow> cb_state" where
  "cb_state_from v = (if v = 0 then Closed else if v = 1 then Open else HalfOpen)"

record circuit_breaker =
  state_cell :: u8
  window_requests :: u32
  window_failures :: u32
  window_start_ms :: u64
  opened_at_ms :: u64
  failure_threshold :: f64
  min_requests :: u32
  window_duration_ms :: u64
  half_open_timeout_ms :: u64

lemma cb_state_roundtrip [simp]: "cb_state_from (cb_state_as_u8 s) = s"
  by (cases s) (simp_all add: cb_state_from_def)

section \<open>Operations\<close>

definition now_ms :: "sys_time \<Rightarrow> u64" where
  "now_ms t = as_millis_u64 (since_epoch t)"

definition cb_new ::
  "f64 \<Rightarrow> u32 \<Rightarrow> duration \<Rightarrow> duration \<Rightarrow> sys_time \<Rightarrow> circuit_breaker" where
  "cb_new threshold min_reqs window timeout t =
     \<lparr>state_cell = cb_state_as_u8 Closed, window_requests = 0, window_failures = 0,
      window_start_ms = now_ms t, opened_at_ms = 0,
      failure_threshold = threshold, min_requests = min_reqs,
      window_duration_ms = as_millis_u64 window,
      half_open_timeout_ms = as_millis_u64 timeout\<rparr>"

definition cb_state_of :: "circuit_breaker \<Rightarrow> cb_state" where
  "cb_state_of cb = cb_state_from (state_cell cb)"

definition allow_request :: "sys_time \<Rightarrow> circuit_breaker \<Rightarrow> bool \<times> circuit_breaker" where
  "allow_request t cb =
     (case cb_state_of cb of
        Closed \<Rightarrow> (True, cb)
      | HalfOpen \<Rightarrow> (True, cb)
      | Open \<Rightarrow>
          (let opened_at = opened_at_ms cb
           in if opened_at > 0 \<and> saturating_sub (now_ms t) opened_at \<ge> half_open_timeout_ms cb
              then (if state_cell cb = cb_state_as_u8 Open
                    then (True, cb\<lparr>state_cell := cb_state_as_u8 HalfOpen\<rparr>)
                    else (False, cb))
              else (False, cb)))"

definition open_circuit :: "sys_time \<Rightarrow> circuit_breaker \<Rightarrow> circuit_breaker" where
  "open_circuit t cb = cb\<lparr>state_cell := cb_state_as_u8 Open, opened_at_ms := now_ms t\<rparr>"

definition reset_window :: "sys_time \<Rightarrow> circuit_breaker \<Rightarrow> circuit_breaker" where
  "reset_window t cb =
     cb\<lparr>window_start_ms := now_ms t, window_requests := 0, window_failures := 0\<rparr>"

definition maybe_rotate_window :: "sys_time \<Rightarrow> circuit_breaker \<Rightarrow> circuit_breaker" where
  "maybe_rotate_window t cb =
     (let start = window_start_ms cb; now = now_ms t
      in if saturating_sub now start \<ge> window_duration_ms cb \<and> window_start_ms cb = start
         then cb\<lparr>window_start_ms := now, window_requests := 0, window_failures := 0\<rparr>
         else cb)"

definition record_success :: "sys_time \<Rightarrow> circuit_breaker \<Rightarrow> circuit_breaker" where
  "record_success t cb =
     (case cb_state_of cb of
        HalfOpen \<Rightarrow> reset_window t (cb\<lparr>state_cell := cb_state_as_u8 Closed\<rparr>)
      | Closed \<Rightarrow>
          (let cb = maybe_rotate_window t cb
           in cb\<lparr>window_requests := window_requests cb + 1\<rparr>)
      | Open \<Rightarrow> cb)"

definition trips :: "circuit_breaker \<Rightarrow> u32 \<Rightarrow> u32 \<Rightarrow> bool" where
  "trips cb requests failures \<longleftrightarrow>
     requests \<ge> min_requests cb \<and>
     f64_ge (f64_div (f64_of_nat (unat failures)) (f64_of_nat (unat requests)))
       (failure_threshold cb)"

text \<open>
  The first clock reading is that of \<open>maybe_rotate_window\<close>, the second that of
  \<open>open_circuit\<close>.
\<close>

definition record_failure :: "sys_time \<Rightarrow> sys_time \<Rightarrow> circuit_breaker \<Rightarrow> circuit_breaker" where
  "record_failure t t' cb =
     (case cb_state_of cb of
        HalfOpen \<Rightarrow> open_circuit t' cb
      | Closed \<Rightarrow>
          (let cb = maybe_rotate_window t cb;
               requests = window_requests cb + 1;
               failures = window_failures cb + 1;
               cb = cb\<lparr>window_requests := requests, window_failures := failures\<rparr>
           in if trips cb requests failures then open_circuit t' cb else cb)
      | Open \<Rightarrow> cb)"

lemmas cb_op_defs =
  allow_request_def record_success_def record_failure_def open_circuit_def reset_window_def
  maybe_rotate_window_def cb_state_of_def

declare cb_op_defs [step_defs]

section \<open>Sequences of calls\<close>

datatype cb_call = Allow sys_time | Success sys_time | Failure sys_time sys_time

fun cb_apply :: "cb_call \<Rightarrow> circuit_breaker \<Rightarrow> circuit_breaker" where
  "cb_apply (Allow t) cb = snd (allow_request t cb)"
| "cb_apply (Success t) cb = record_success t cb"
| "cb_apply (Failure t t') cb = record_failure t t' cb"

definition cb_run :: "cb_call list \<Rightarrow> circuit_breaker \<Rightarrow> circuit_breaker" where
  "cb_run calls cb = fold cb_apply calls cb"

lemma cb_run_simps [simp]:
  "cb_run [] cb = cb"
  "cb_run (c # cs) cb = cb_run cs (cb_apply c cb)"
  by (simp_all add: cb_run_def)

lemma cb_run_append [simp]: "cb_run (cs @ ds) cb = cb_run ds (cb_run cs cb)"
  by (simp add: cb_run_def)

subsection \<open>Facts every call keeps\<close>

definition cb_valid :: "circuit_breaker \<Rightarrow> bool" where
  "cb_valid cb \<longleftrightarrow> state_cell cb \<in> {0, 1, 2}"

lemma cb_valid_cell: "cb_valid cb \<Longrightarrow> state_cell cb = cb_state_as_u8 (cb_state_of cb)"
  by (auto simp: cb_valid_def cb_state_of_def cb_state_from_def)

lemma cb_state_of_cases:
  "cb_state_of cb = Closed \<longleftrightarrow> state_cell cb = 0"
  "cb_state_of cb = Open \<longleftrightarrow> state_cell cb = 1"
  "cb_state_of cb = HalfOpen \<longleftrightarrow> state_cell cb \<noteq> 0 \<and> state_cell cb \<noteq> 1"
  by (auto simp: cb_state_of_def cb_state_from_def)

lemma cb_state_of_update [simp]:
  "cb_state_of (cb\<lparr>state_cell := cb_state_as_u8 s\<rparr>) = s"
  "cb_state_of (cb\<lparr>window_requests := r\<rparr>) = cb_state_of cb"
  "cb_state_of (cb\<lparr>window_failures := r\<rparr>) = cb_state_of cb"
  "cb_state_of (cb\<lparr>window_start_ms := w\<rparr>) = cb_state_of cb"
  "cb_state_of (cb\<lparr>opened_at_ms := w\<rparr>) = cb_state_of cb"
  by (simp_all add: cb_state_of_def)

lemma cb_state_rotate [simp]: "cb_state_of (maybe_rotate_window t cb) = cb_state_of cb"
  by (simp add: maybe_rotate_window_def Let_def)

lemma cb_state_open [simp]: "cb_state_of (open_circuit t cb) = Open"
  by (simp add: open_circuit_def cb_state_of_def cb_state_from_def)

text \<open>The settings of a breaker are written once, by its constructor.\<close>

definition cb_settings :: "circuit_breaker \<Rightarrow> f64 \<times> u32 \<times> u64 \<times> u64" where
  "cb_settings cb =
     (failure_threshold cb, min_requests cb, window_duration_ms cb, half_open_timeout_ms cb)"

lemma cb_settings_apply [simp]: "cb_settings (cb_apply c cb) = cb_settings cb"
  by (cases c) (simp_all add: cb_settings_def cb_op_defs Let_def split: cb_state.split)

lemma cb_settings_run [simp]: "cb_settings (cb_run cs cb) = cb_settings cb"
  by (induction cs arbitrary: cb) simp_all

lemma cb_valid_apply: "cb_valid cb \<Longrightarrow> cb_valid (cb_apply c cb)"
  by (cases c) (auto simp: cb_valid_def cb_op_defs Let_def split: cb_state.split)

text \<open>The window counters grow by at most one per call, and failures never outnumber requests.\<close>

definition cb_counts :: "nat \<Rightarrow> circuit_breaker \<Rightarrow> bool" where
  "cb_counts n cb \<longleftrightarrow>
     unat (window_failures cb) \<le> unat (window_requests cb) \<and> unat (window_requests cb) \<le> n"

lemma cb_counts_mono: "cb_counts m cb \<Longrightarrow> m \<le> n \<Longrightarrow> cb_counts n cb"
  by (auto simp: cb_counts_def)

lemma cb_counts_rotate: "cb_counts n cb \<Longrightarrow> cb_counts n (maybe_rotate_window t cb)"
  by (simp add: cb_counts_def maybe_rotate_window_def Let_def)

lemma cb_counts_apply:
  assumes "cb_counts n cb" "Suc n < 2 ^ 32"
  shows "cb_counts (Suc n) (cb_apply c cb)"
proof -
  have *: "cb_counts n (maybe_rotate_window t cb)" for t
    using assms(1) by (rule cb_counts_rotate)
  have r: "unat (window_requests (maybe_rotate_window t cb) + 1)
      = unat (window_requests (maybe_rotate_window t cb)) + 1" for t
    using * [of t] assms(2) by (intro unat_inc) (simp add: cb_counts_def)
  have f: "unat (window_failures (maybe_rotate_window t cb) + 1)
      = unat (window_failures (maybe_rotate_window t cb)) + 1" for t
    using * [of t] assms(2) by (intro unat_inc) (simp add: cb_counts_def)
  show ?thesis
  proof (cases c)
    case (Allow t)
    then show ?thesis using assms
      by (simp add: cb_counts_def allow_request_def Let_def split: cb_state.split)
  next
    case (Success t)
    then show ?thesis using assms * [of t] r [of t]
      by (simp add: cb_counts_def record_success_def reset_window_def Let_def split: cb_state.split)
  next
    case (Failure t t')
    then show ?thesis using assms * [of t] r [of t] f [of t]
      by (simp add: cb_counts_def record_failure_def open_circuit_def Let_def split: cb_state.split)
  qed
qed

lemma cb_counts_run:
  "cb_counts n cb \<Longrightarrow> n + length cs < 2 ^ 32 \<Longrightarrow> cb_counts (n + length cs) (cb_run cs cb)"
proof (induction cs arbitrary: n cb)
  case (Cons c cs)
  have "cb_counts (Suc n) (cb_apply c cb)"
    using Cons.prems by (intro cb_counts_apply) simp_all
  then show ?case using Cons.IH [of "Suc n"] Cons.prems(2) by simp
qed simp

section \<open>The abstract breaker\<close>

text \<open>
  Three states, counters and times as natural numbers, the failure ratio as an exact
  fraction.  A closed breaker keeps its window (requests, failures, start); an open one the
  time it opened; a half-open one nothing.
\<close>

datatype breaker = AClosed nat nat nat | AOpen nat | AHalfOpen

record breaker_policy =
  p_threshold :: rat
  p_min_requests :: nat
  p_window :: nat
  p_timeout :: nat

fun spec_allow :: "breaker_policy \<Rightarrow> nat \<Rightarrow> breaker \<Rightarrow> bool \<times> breaker" where
  "spec_allow P now (AOpen since) =
     (if since > 0 \<and> p_timeout P \<le> now - since then (True, AHalfOpen) else (False, AOpen since))"
| "spec_allow P now b = (True, b)"

definition spec_window :: "breaker_policy \<Rightarrow> nat \<Rightarrow> nat \<times> nat \<times> nat \<Rightarrow> nat \<times> nat \<times> nat" where
  "spec_window P now w =
     (case w of (r, f, start) \<Rightarrow> if p_window P \<le> now - start then (0, 0, now) else (r, f, start))"

fun spec_success :: "breaker_policy \<Rightarrow> nat \<Rightarrow> breaker \<Rightarrow> breaker" where
  "spec_success P now (AClosed r f start) =
     (case spec_window P now (r, f, start) of (r, f, start) \<Rightarrow> AClosed (Suc r) f start)"
| "spec_success P now AHalfOpen = AClosed 0 0 now"
| "spec_success P now (AOpen since) = AOpen since"

fun spec_failure :: "breaker_policy \<Rightarrow> nat \<Rightarrow> nat \<Rightarrow> breaker \<Rightarrow> breaker" where
  "spec_failure P now now' (AClosed r f start) =
     (case spec_window P now (r, f, start) of
        (r, f, start) \<Rightarrow>
          if p_min_requests P \<le> Suc r \<and> p_threshold P \<le> of_nat (Suc f) / of_nat (Suc r)
          then AOpen now' else AClosed (Suc r) (Suc f) start)"
| "spec_failure P now now' AHalfOpen = AOpen now'"
| "spec_failure P now now' (AOpen since) = AOpen since"

fun spec_apply :: "breaker_policy \<Rightarrow> cb_call \<Rightarrow> breaker \<Rightarrow> breaker" where
  "spec_apply P (Allow t) b = snd (spec_allow P (unat (now_ms t)) b)"
| "spec_apply P (Success t) b = spec_success P (unat (now_ms t)) b"
| "spec_apply P (Failure t t') b = spec_failure P (unat (now_ms t)) (unat (now_ms t')) b"

text \<open>The answers a client sees: those of the \<open>allow_request\<close> calls, in order.\<close>

fun cb_answers :: "cb_call list \<Rightarrow> circuit_breaker \<Rightarrow> bool list" where
  "cb_answers [] cb = []"
| "cb_answers (c # cs) cb =
     (case c of Allow t \<Rightarrow> [fst (allow_request t cb)] | _ \<Rightarrow> []) @ cb_answers cs (cb_apply c cb)"

fun spec_answers :: "breaker_policy \<Rightarrow> cb_call list \<Rightarrow> breaker \<Rightarrow> bool list" where
  "spec_answers P [] b = []"
| "spec_answers P (c # cs) b =
     (case c of Allow t \<Rightarrow> [fst (spec_allow P (unat (now_ms t)) b)] | _ \<Rightarrow> [])
       @ spec_answers P cs (spec_apply P c b)"

section \<open>Refinement\<close>

definition cb_abs :: "circuit_breaker \<Rightarrow> breaker" where
  "cb_abs cb =
     (case cb_state_of cb of
        Closed \<Rightarrow> AClosed (unat (window_requests cb)) (unat (window_failures cb))
          (unat (window_start_ms cb))
      | Open \<Rightarrow> AOpen (unat (opened_at_ms cb))
      | HalfOpen \<Rightarrow> AHalfOpen)"

definition cb_policy :: "rat \<Rightarrow> circuit_breaker \<Rightarrow> breaker_policy" where
  "cb_policy q cb =
     \<lparr>p_threshold = q, p_min_requests = unat (min_requests cb),
      p_window = unat (window_duration_ms cb), p_timeout = unat (half_open_timeout_ms cb)\<rparr>"

text \<open>
  A configured threshold: the fraction \<open>a / b\<close>, of which the configuration holds the nearest double
  (\<open>0.5\<close> is \<open>1 / 2\<close> exactly, \<open>0.1\<close> is the double nearest to \<open>1 / 10\<close>).
\<close>

definition fraction :: "nat \<Rightarrow> nat \<Rightarrow> rat" where
  "fraction a b = of_nat a / of_nat b"

lemma fraction_half: "f64_round (fraction 1 2) = Fin (1 / 2)"
proof -
  have "f64_round (1 / 2) = Fin (1 / 2)"
    by (rule f64_round_exact [of _ 1 "- 1"]) (simp_all add: power_int_minus)
  then show ?thesis by (simp add: fraction_def)
qed

lemma cb_policy_apply [simp]: "cb_policy q (cb_apply c cb) = cb_policy q cb"
  using cb_settings_apply [of c cb] by (simp add: cb_policy_def cb_settings_def)

lemma cb_abs_allow:
  "spec_allow (cb_policy q cb) (unat (now_ms t)) (cb_abs cb)
     = (fst (allow_request t cb), cb_abs (snd (allow_request t cb)))"
proof (cases "cb_state_of cb")
  case Open
  then have "state_cell cb = 1" by (simp add: cb_state_of_cases)
  then show ?thesis using Open
    by (simp add: cb_abs_def allow_request_def cb_policy_def Let_def cb_state_of_def
        cb_state_from_def word_le_nat_alt word_less_nat_alt)
qed (simp_all add: cb_abs_def allow_request_def)

lemma cb_abs_window:
  "spec_window (cb_policy q cb) (unat (now_ms t))
       (unat (window_requests cb), unat (window_failures cb), unat (window_start_ms cb))
     = (let cb' = maybe_rotate_window t cb
        in (unat (window_requests cb'), unat (window_failures cb'), unat (window_start_ms cb')))"
  by (simp add: spec_window_def cb_policy_def maybe_rotate_window_def Let_def word_le_nat_alt)

lemma cb_abs_success:
  assumes "cb_counts n cb" "Suc n < 2 ^ 32"
  shows "cb_abs (record_success t cb) = spec_success (cb_policy q cb) (unat (now_ms t)) (cb_abs cb)"
proof (cases "cb_state_of cb")
  case Closed
  have "cb_counts n (maybe_rotate_window t cb)" using assms(1) by (rule cb_counts_rotate)
  then have "unat (window_requests (maybe_rotate_window t cb) + 1)
      = unat (window_requests (maybe_rotate_window t cb)) + 1"
    using assms(2) by (intro unat_inc) (simp add: cb_counts_def)
  with Closed show ?thesis
    by (simp add: cb_abs_def record_success_def cb_abs_window Let_def)
next
  case HalfOpen
  then show ?thesis
    by (simp add: cb_abs_def record_success_def reset_window_def cb_state_of_def cb_state_from_def)
qed (simp_all add: cb_abs_def record_success_def)

text \<open>The floating-point test of \<open>record_failure\<close> decides the exact comparison.\<close>

lemma trips_exact:
  assumes "failure_threshold cb = f64_round (fraction a b)" "0 < b" "b \<le> 2 ^ 20" "a \<le> b"
    and "0 < unat requests"
  shows "trips cb requests failures \<longleftrightarrow>
    unat (min_requests cb) \<le> unat requests \<and>
    fraction a b \<le> of_nat (unat failures) / of_nat (unat requests)"
proof -
  have "unat requests < 2 ^ 32" "unat failures < 2 ^ 32"
    using unsigned_less [of requests] unsigned_less [of failures] by simp_all
  from ratio_ge_fraction [OF assms(5) this assms(2-4)] show ?thesis
    using assms(1) by (simp add: trips_def fraction_def word_le_nat_alt)
qed

lemma trips_cong [simp]:
  "trips (cb\<lparr>window_requests := r\<rparr>) = trips cb"
  "trips (cb\<lparr>window_failures := r\<rparr>) = trips cb"
  "trips (maybe_rotate_window t cb) = trips cb"
  by (simp_all add: trips_def fun_eq_iff maybe_rotate_window_def Let_def)

lemma cb_abs_failure:
  assumes "cb_counts n cb" "Suc n < 2 ^ 32"
    and "failure_threshold cb = f64_round (fraction a b)" "0 < b" "b \<le> 2 ^ 20" "a \<le> b"
  shows "cb_abs (record_failure t t' cb)
    = spec_failure (cb_policy (fraction a b) cb) (unat (now_ms t)) (unat (now_ms t')) (cb_abs cb)"
proof (cases "cb_state_of cb")
  case Closed
  let ?w = "maybe_rotate_window t cb"
  have w: "cb_counts n ?w" using assms(1) by (rule cb_counts_rotate)
  have r: "unat (window_requests ?w + 1) = unat (window_requests ?w) + 1"
    using w assms(2) by (intro unat_inc) (simp add: cb_counts_def)
  have f: "unat (window_failures ?w + 1) = unat (window_failures ?w) + 1"
    using w assms(2) by (intro unat_inc) (simp add: cb_counts_def)
  have "trips cb (window_requests ?w + 1) (window_failures ?w + 1) \<longleftrightarrow>
      unat (min_requests cb) \<le> Suc (unat (window_requests ?w)) \<and>
      fraction a b \<le> of_nat (Suc (unat (window_failures ?w))) / of_nat (Suc (unat (window_requests ?w)))"
    using assms(3-6) by (subst trips_exact) (simp_all add: r f)
  then show ?thesis using Closed r f
    by (simp add: cb_abs_def record_failure_def cb_abs_window Let_def)
      (simp add: cb_policy_def open_circuit_def cb_state_of_def cb_state_from_def)
next
  case HalfOpen
  then show ?thesis
    by (simp add: cb_abs_def record_failure_def open_circuit_def cb_state_of_def cb_state_from_def)
qed (simp_all add: cb_abs_def record_failure_def)

lemma cb_abs_apply:
  assumes "cb_counts n cb" "Suc n < 2 ^ 32"
    and "failure_threshold cb = f64_round (fraction a b)" "0 < b" "b \<le> 2 ^ 20" "a \<le> b"
  shows "cb_abs (cb_apply c cb) = spec_apply (cb_policy (fraction a b) cb) c (cb_abs cb)"
  using assms by (cases c) (simp_all add: cb_abs_allow cb_abs_success cb_abs_failure)

lemma cb_refines_from:
  assumes "cb_counts n cb" "n + length cs < 2 ^ 32"
    and "failure_threshold cb = f64_round (fraction a b)" "0 < b" "b \<le> 2 ^ 20" "a \<le> b"
  defines "P \<equiv> cb_policy (fraction a b) cb"
  shows "cb_answers cs cb = spec_answers P cs (cb_abs cb) \<and>
    cb_abs (cb_run cs cb) = fold (spec_apply P) cs (cb_abs cb)"
  using assms(1-3) unfolding P_def
proof (induction cs arbitrary: n cb)
  case (Cons c cs)
  have n: "Suc n < 2 ^ 32" using Cons.prems(2) by simp
  have "cb_counts (Suc n) (cb_apply c cb)"
    using Cons.prems(1) n by (rule cb_counts_apply)
  moreover have "failure_threshold (cb_apply c cb) = f64_round (fraction a b)"
    using cb_settings_apply [of c cb] Cons.prems(3) by (simp add: cb_settings_def)
  moreover have "cb_abs (cb_apply c cb)
      = spec_apply (cb_policy (fraction a b) cb) c (cb_abs cb)"
    using Cons.prems(1) n Cons.prems(3) assms(4-6) by (rule cb_abs_apply)
  moreover have "(case c of Allow t \<Rightarrow> [fst (allow_request t cb)] | _ \<Rightarrow> []) =
      (case c of Allow t \<Rightarrow>
         [fst (spec_allow (cb_policy (fraction a b) cb) (unat (now_ms t)) (cb_abs cb))]
       | _ \<Rightarrow> [])"
    by (cases c) (simp_all add: cb_abs_allow)
  ultimately show ?case
    using Cons.IH [of "Suc n" "cb_apply c cb"] Cons.prems(2) by simp
qed simp

section \<open>Properties\<close>

text \<open>
  C1 Refinement: a new breaker whose threshold is the double nearest to a fraction \<open>a / b\<close> with
  \<open>0 \<le> a / b \<le> 1\<close> and \<open>b \<le> 2^20\<close> (every decimal of up to six places is one) answers every sequence of
  fewer than \<open>2^32\<close> calls exactly as the abstract three-state breaker with the threshold \<open>a / b\<close> itself
  does, and ends in the abstract breaker's state.  The \<open>u32\<close> counters do not wrap, saturating
  subtraction on \<open>u64\<close> agrees with the abstract elapsed time, and the rounded floating-point ratio
  compared with the rounded threshold decides the exact comparison of fractions.
\<close>

theorem cb_refines_spec:
  assumes "0 < b" "b \<le> 2 ^ 20" "a \<le> b" "length calls < 2 ^ 32"
  shows "cb_answers calls (cb_new (f64_round (fraction a b)) min_reqs window timeout t) =
      spec_answers
        \<lparr>p_threshold = fraction a b, p_min_requests = unat min_reqs,
         p_window = unat (as_millis_u64 window), p_timeout = unat (as_millis_u64 timeout)\<rparr>
        calls (AClosed 0 0 (unat (now_ms t))) \<and>
    cb_abs (cb_run calls (cb_new (f64_round (fraction a b)) min_reqs window timeout t)) =
      fold (spec_apply
        \<lparr>p_threshold = fraction a b, p_min_requests = unat min_reqs,
         p_window = unat (as_millis_u64 window), p_timeout = unat (as_millis_u64 timeout)\<rparr>)
        calls (AClosed 0 0 (unat (now_ms t)))"
proof -
  let ?cb = "cb_new (f64_round (fraction a b)) min_reqs window timeout t"
  have "cb_counts 0 ?cb" by (simp add: cb_counts_def cb_new_def)
  moreover have "failure_threshold ?cb = f64_round (fraction a b)" by (simp add: cb_new_def)
  moreover have "cb_policy (fraction a b) ?cb =
      \<lparr>p_threshold = fraction a b, p_min_requests = unat min_reqs,
       p_window = unat (as_millis_u64 window), p_timeout = unat (as_millis_u64 timeout)\<rparr>"
    by (simp add: cb_policy_def cb_new_def)
  moreover have "cb_abs ?cb = AClosed 0 0 (unat (now_ms t))"
    by (simp add: cb_abs_def cb_new_def cb_state_of_def cb_state_from_def)
  ultimately show ?thesis
    using cb_refines_from [of 0 ?cb calls a b] assms by simp
qed

text \<open>
  The refinement at work on a breaker with the threshold \<open>0.1\<close>, ten requests minimum, a ten second
  window and a one second timeout: one failure in ten requests opens it although the double \<open>0.1\<close> is
  greater than a tenth, it rejects, admits after the timeout, and closes on the probe's success.
\<close>

theorem cb_refines_spec_witness:
  "cb_answers
     (replicate 9 (Success 1000000) @ [Allow 1000000, Failure 2000000 2000000, Allow 3000000,
      Allow 1002000000, Success 1003000000, Allow 1004000000])
     (cb_new (f64_round (fraction 1 10)) 10 10000000000 1000000000 0) = [True, False, True, True]"
proof -
  have ms: "now_ms 0 = 0" "now_ms 1000000 = 1" "now_ms 2000000 = 2" "now_ms 3000000 = 3"
    "now_ms 1002000000 = 1002" "now_ms 1003000000 = 1003" "now_ms 1004000000 = 1004"
    "as_millis_u64 10000000000 = 10000" "as_millis_u64 1000000000 = 1000"
    by (simp_all add: now_ms_def since_epoch_def as_millis_u64_def)
  have nine: "replicate 9 x = [x, x, x, x, x, x, x, x, x]" for x :: cb_call by (simp add: numeral_eq_Suc)
  show ?thesis
    unfolding nine by (subst conjunct1 [OF cb_refines_spec]) (simp_all add: ms fraction_def spec_window_def)
qed

text \<open>
  C18 No missed trip, for every representable threshold and not only those nearest to a small fraction: when
  the exact failure ratio of the window reaches the configured threshold and the window has
  the minimum number of requests, the failure that is recorded opens the circuit and stamps it
  with the current time.
\<close>

theorem record_failure_trips:
  fixes cb t
  defines "w \<equiv> maybe_rotate_window t cb"
  assumes "cb_state_of cb = Closed"
    and "failure_threshold cb = Fin q" "0 \<le> q" "f64_round q = Fin q"
    and "min_requests cb \<le> window_requests w + 1" "window_requests w + 1 \<noteq> 0"
    and "q \<le> of_nat (unat (window_failures w + 1)) / of_nat (unat (window_requests w + 1))"
  shows "cb_state_of (record_failure t t' cb) = Open \<and>
    opened_at_ms (record_failure t t' cb) = now_ms t'"
proof -
  let ?r = "unat (window_requests w + 1)" and ?f = "unat (window_failures w + 1)"
  have r: "?r < 2 ^ 32" and f: "?f < 2 ^ 32"
    using unsigned_less [of "window_requests w + 1"] unsigned_less [of "window_failures w + 1"]
    by simp_all
  have "f64_ge (f64_div (f64_of_nat ?f) (f64_of_nat ?r)) (Fin q)"
  proof -
    have "?r \<noteq> 0" using assms(7) by (simp add: unat_eq_zero)
    then have "f64_div (f64_of_nat ?f) (f64_of_nat ?r) = f64_round (of_nat ?f / of_nat ?r)"
      using r f by (intro f64_div_nat) simp_all
    moreover have "f64_ge (f64_round (of_nat ?f / of_nat ?r)) (f64_round q)"
      using assms(4,8) by (rule f64_round_ge)
    ultimately show ?thesis using assms(5) by simp
  qed
  then have "trips cb (window_requests w + 1) (window_failures w + 1)"
    using assms(3,6) by (simp add: trips_def)
  then show ?thesis using assms(2)
    by (simp add: record_failure_def Let_def w_def) (simp add: open_circuit_def)
qed

theorem record_failure_trips_witness:
  "cb_state_of (record_failure 5 7000000
     \<lparr>state_cell = 0, window_requests = 3, window_failures = 1, window_start_ms = 0, opened_at_ms = 0,
      failure_threshold = Fin (1/2), min_requests = 4, window_duration_ms = 10, half_open_timeout_ms = 1\<rparr>)
     = Open \<and>
   opened_at_ms (record_failure 5 7000000
     \<lparr>state_cell = 0, window_requests = 3, window_failures = 1, window_start_ms = 0, opened_at_ms = 0,
      failure_threshold = Fin (1/2), min_requests = 4, window_duration_ms = 10, half_open_timeout_ms = 1\<rparr>)
     = 7"
proof -
  let ?cb = "\<lparr>state_cell = 0, window_requests = 3, window_failures = 1, window_start_ms = 0,
    opened_at_ms = 0, failure_threshold = Fin (1/2), min_requests = 4, window_duration_ms = 10,
    half_open_timeout_ms = 1\<rparr> :: circuit_breaker"
  have w: "maybe_rotate_window 5 ?cb = ?cb"
    by (simp add: maybe_rotate_window_def now_ms_def since_epoch_def as_millis_u64_def saturating_sub_def)
  have "f64_round (1/2) = Fin (1/2)"
    by (rule f64_round_exact [of _ 1 "-1"]) (simp_all add: power_int_def)
  then have "cb_state_of (record_failure 5 7000000 ?cb) = Open \<and>
      opened_at_ms (record_failure 5 7000000 ?cb) = now_ms 7000000"
    by (intro record_failure_trips [where q = "1/2"]) (simp_all add: w cb_state_of_def cb_state_from_def)
  then show ?thesis by (simp add: now_ms_def since_epoch_def as_millis_u64_def)
qed

lemma allow_request_open:
  assumes "cb_state_of cb = Open"
    and "unat (now_ms t) - unat (opened_at_ms cb) < unat (half_open_timeout_ms cb)"
  shows "allow_request t cb = (False, cb)"
  using assms by (auto simp: allow_request_def Let_def word_le_nat_alt word_less_nat_alt)

text \<open>
  C16 An open circuit sheds load: until the half-open timeout has elapsed since it opened
  (or for as long as the clock reads before that, e.g. because it went backwards), every
  request is rejected, and recorded outcomes of requests that were still in flight change
  nothing.
\<close>

theorem open_rejects_until_timeout:
  assumes "cb_state_of cb = Open"
    and "\<forall>t. Allow t \<in> set calls \<longrightarrow>
      unat (now_ms t) - unat (opened_at_ms cb) < unat (half_open_timeout_ms cb)"
  shows "cb_run calls cb = cb \<and> (\<forall>b \<in> set (cb_answers calls cb). \<not> b)"
  using assms(2)
proof (induction calls)
  case (Cons c cs)
  have "c = Allow t \<Longrightarrow> allow_request t cb = (False, cb)" for t
    using assms(1) Cons.prems by (intro allow_request_open) auto
  then have "cb_apply c cb = cb" "\<forall>b \<in> set (case c of Allow t \<Rightarrow> [fst (allow_request t cb)] | _ \<Rightarrow> []). \<not> b"
    using assms(1) by (cases c; simp add: record_success_def record_failure_def)+
  then show ?case using Cons by auto
qed simp

theorem open_rejects_until_timeout_witness:
  "fst (allow_request 6000000
     (open_circuit 5000000 (cb_new (Fin (1/2)) 1 10000000000 1000000000 0))) = False"
proof -
  let ?cb = "open_circuit 5000000 (cb_new (Fin (1/2)) 1 10000000000 1000000000 0)"
  have "cb_run [Allow 6000000] ?cb = ?cb \<and> (\<forall>b \<in> set (cb_answers [Allow 6000000] ?cb). \<not> b)"
    by (rule open_rejects_until_timeout)
      (simp_all add: open_circuit_def cb_new_def now_ms_def since_epoch_def as_millis_u64_def
        cb_state_of_def cb_state_from_def)
  then show ?thesis by simp
qed

text \<open>
  C17 Recovery: once the timeout has elapsed, the next request is admitted as a probe and the
  circuit is half-open; the probe's success closes it with an empty window that starts now, and
  the probe's failure opens it again with a fresh time stamp.  (A circuit opened while the clock
  read zero, at or before the epoch, is the exception the premise names: it stays open.)
\<close>

theorem open_recovers:
  assumes "cb_state_of cb = Open" "0 < opened_at_ms cb"
    and "unat (opened_at_ms cb) + unat (half_open_timeout_ms cb) \<le> unat (now_ms t)"
  shows "fst (allow_request t cb) \<and> cb_state_of (snd (allow_request t cb)) = HalfOpen \<and>
    cb_abs (record_success t' (snd (allow_request t cb))) = AClosed 0 0 (unat (now_ms t')) \<and>
    cb_abs (record_failure t1 t2 (snd (allow_request t cb))) = AOpen (unat (now_ms t2))"
proof -
  have "state_cell cb = 1" using assms(1) by (simp add: cb_state_of_cases)
  then have a: "allow_request t cb = (True, cb\<lparr>state_cell := cb_state_as_u8 HalfOpen\<rparr>)"
    using assms by (simp add: allow_request_def Let_def word_le_nat_alt)
  then show ?thesis
    by (simp add: record_success_def record_failure_def reset_window_def open_circuit_def
        cb_abs_def cb_state_of_def cb_state_from_def)
qed

theorem open_recovers_witness:
  "fst (allow_request 1005000000
     (open_circuit 5000000 (cb_new (Fin (1/2)) 1 10000000000 1000000000 0))) = True"
proof -
  let ?cb = "open_circuit 5000000 (cb_new (Fin (1/2)) 1 10000000000 1000000000 0)"
  have "fst (allow_request 1005000000 ?cb)"
    by (rule conjunct1 [OF open_recovers])
      (simp_all add: open_circuit_def cb_new_def now_ms_def since_epoch_def as_millis_u64_def
        cb_state_of_def cb_state_from_def)
  then show ?thesis by simp
qed

text \<open>
  The half-open state admits every request, not one probe: any number of further
  \<open>allow_request\<close> calls answer true and leave the circuit half-open until an outcome is
  recorded.  (The module documentation and the comment at the compare-exchange speak of a
  single probe.)
\<close>

theorem half_open_admits_all:
  assumes "cb_state_of cb = HalfOpen"
  shows "cb_answers (map Allow ts) cb = replicate (length ts) True \<and>
    cb_state_of (cb_run (map Allow ts) cb) = HalfOpen"
  using assms by (induction ts) (simp_all add: allow_request_def)

theorem half_open_admits_all_witness:
  "cb_answers (map Allow [1, 2, 3])
     ((cb_new (Fin (1/2)) 1 10000000000 1000000000 0)\<lparr>state_cell := 2\<rparr>) = [True, True, True]"
  by (subst conjunct1 [OF half_open_admits_all])
    (simp_all add: cb_state_of_def cb_state_from_def)

end
