(* ===== verification/Circuit_Breaker_Conc.thy ===== *)
theory Circuit_Breaker_Conc
  imports Circuit_Breaker
begin

text \<open>
  The circuit breaker shared by many threads.  Every method of
  \<open>crates/resilient-client/src/circuit_breaker.rs\<close> is split at its atomic accesses:
  a thread is at a control point, one step of it performs one atomic load, store,
  compare-exchange or fetch-add on the shared record and goes to the next point, and steps of
  different threads interleave freely.  Clock readings happen inside the step that uses them
  and read a clock that never goes back.  Run without interference, the steps of a method
  amount to the sequential definition in \<open>Circuit_Breaker\<close>.  Two properties are about
  interleavings: at most one thread wins the half-open transition per opening, and the order
  of the two stores of \<open>open_circuit\<close> lets a request through an open circuit early.
\<close>

section \<open>Methods as atomic steps\<close>

datatype outcome = OkOutcome | FailOutcome

datatype cb_method = CallAllow | CallRecord outcome

text \<open>
  Control points: after the load of \<open>state\<close>, \<open>AllowOpened\<close> is about to load
  \<open>opened_at_ms\<close>, \<open>AllowCas\<close> to run the compare-exchange; \<open>ProbeOk\<close>,
  \<open>ResetStart\<close>, \<open>ResetRequests\<close>, \<open>ResetFailures\<close> are the stores of a
  half-open success; \<open>RotateLoad\<close>, \<open>RotateCas\<close>, \<open>RotateRequests\<close>,
  \<open>RotateFailures\<close> the accesses of \<open>maybe_rotate_window\<close>; \<open>CountRequest\<close> and
  \<open>CountFailure\<close> the fetch-adds; \<open>OpenStore\<close> and \<open>OpenStamp\<close> the stores of
  \<open>open_circuit\<close>.
\<close>

datatype pc =
    Idle
  | Answered bool
  | AllowOpened
  | AllowCas
  | ProbeOk
  | ResetStart
  | ResetRequests
  | ResetFailures
  | RotateLoad outcome
  | RotateCas outcome u64 u64
  | RotateRequests outcome
  | RotateFailures outcome
  | CountRequest outcome
  | CountFailure u32
  | OpenStore
  | OpenStamp

text \<open>A call starts with the load of \<open>state\<close> that every method begins with.\<close>

fun method_entry :: "cb_method \<Rightarrow> cb_state \<Rightarrow> pc" where
  "method_entry CallAllow Open = AllowOpened"
| "method_entry CallAllow _ = Answered True"
| "method_entry (CallRecord _) Open = Idle"
| "method_entry (CallRecord out) Closed = RotateLoad out"
| "method_entry (CallRecord OkOutcome) HalfOpen = ProbeOk"
| "method_entry (CallRecord FailOutcome) HalfOpen = OpenStore"

fun atom :: "sys_time \<Rightarrow> pc \<Rightarrow> circuit_breaker \<Rightarrow> pc \<times> circuit_breaker" where
  "atom t Idle cb = (Idle, cb)"
| "atom t (Answered b) cb = (Idle, cb)"
| "atom t AllowOpened cb =
     (let opened_at = opened_at_ms cb
      in (if opened_at > 0 \<and> saturating_sub (now_ms t) opened_at \<ge> half_open_timeout_ms cb
          then AllowCas else Answered False, cb))"
| "atom t AllowCas cb =
     (if state_cell cb = cb_state_as_u8 Open
      then (Answered True, cb\<lparr>state_cell := cb_state_as_u8 HalfOpen\<rparr>)
      else (Answered False, cb))"
| "atom t ProbeOk cb = (ResetStart, cb\<lparr>state_cell := cb_state_as_u8 Closed\<rparr>)"
| "atom t ResetStart cb = (ResetRequests, cb\<lparr>window_start_ms := now_ms t\<rparr>)"
| "atom t ResetRequests cb = (ResetFailures, cb\<lparr>window_requests := 0\<rparr>)"
| "atom t ResetFailures cb = (Idle, cb\<lparr>window_failures := 0\<rparr>)"
| "atom t (RotateLoad out) cb =
     (let start = window_start_ms cb; now = now_ms t
      in (if saturating_sub now start \<ge> window_duration_ms cb
          then RotateCas out start now else CountRequest out, cb))"
| "atom t (RotateCas out start now) cb =
     (if window_start_ms cb = start
      then (RotateRequests out, cb\<lparr>window_start_ms := now\<rparr>)
      else (CountRequest out, cb))"
| "atom t (RotateRequests out) cb = (RotateFailures out, cb\<lparr>window_requests := 0\<rparr>)"
| "atom t (RotateFailures out) cb = (CountRequest out, cb\<lparr>window_failures := 0\<rparr>)"
| "atom t (CountRequest OkOutcome) cb =
     (Idle, cb\<lparr>window_requests := window_requests cb + 1\<rparr>)"
| "atom t (CountRequest FailOutcome) cb =
     (CountFailure (window_requests cb + 1), cb\<lparr>window_requests := window_requests cb + 1\<rparr>)"
| "atom t (CountFailure requests) cb =
     (let failures = window_failures cb + 1
      in (if trips cb requests failures then OpenStore else Idle,
          cb\<lparr>window_failures := failures\<rparr>))"
| "atom t OpenStore cb = (OpenStamp, cb\<lparr>state_cell := cb_state_as_u8 Open\<rparr>)"
| "atom t OpenStamp cb = (Idle, cb\<lparr>opened_at_ms := now_ms t\<rparr>)"

section \<open>Threads sharing a breaker\<close>

text \<open>
  \<open>openings\<close> counts the stores of the open state and \<open>probes\<close> the successful
  compare-exchanges; \<open>opened_clock\<close> is the time of the last opening store and
  \<open>waited\<close> how long the circuit had been open at the last successful compare-exchange.
  No step reads these four.
\<close>

record shared_breaker =
  mem :: circuit_breaker
  pcs :: "nat \<Rightarrow> pc"
  clock :: sys_time
  openings :: nat
  probes :: nat
  opened_clock :: sys_time
  waited :: "sys_time option"

definition start_call :: "nat \<Rightarrow> cb_method \<Rightarrow> shared_breaker \<Rightarrow> shared_breaker" where
  "start_call i m s = s\<lparr>pcs := (pcs s)(i := method_entry m (cb_state_of (mem s)))\<rparr>"

definition run_thread :: "nat \<Rightarrow> shared_breaker \<Rightarrow> shared_breaker" where
  "run_thread i s =
     (let (p', cb') = atom (clock s) (pcs s i) (mem s);
          opening = (pcs s i = OpenStore);
          probe = (pcs s i = AllowCas \<and> p' = Answered True)
      in s\<lparr>mem := cb', pcs := (pcs s)(i := p'),
           openings := openings s + (if opening then 1 else 0),
           probes := probes s + (if probe then 1 else 0),
           opened_clock := (if opening then clock s else opened_clock s),
           waited := (if probe then Some (clock s - opened_clock s) else waited s)\<rparr>)"

inductive conc_step :: "shared_breaker \<Rightarrow> shared_breaker \<Rightarrow> bool" where
  call: "pcs s i = Idle \<Longrightarrow> conc_step s (start_call i m s)"
| run: "pcs s i \<noteq> Idle \<Longrightarrow> conc_step s (run_thread i s)"
| tick: "clock s \<le> t \<Longrightarrow> conc_step s (s\<lparr>clock := t\<rparr>)"

inductive_cases conc_stepE: "conc_step s s'"

definition conc_init :: "circuit_breaker \<Rightarrow> sys_time \<Rightarrow> shared_breaker" where
  "conc_init cb t =
     \<lparr>mem = cb, pcs = (\<lambda>_. Idle), clock = t, openings = 0, probes = 0,
      opened_clock = 0, waited = None\<rparr>"

definition conc_start :: "shared_breaker \<Rightarrow> bool" where
  "conc_start s \<longleftrightarrow> (\<exists>th mr w to t. s = conc_init (cb_new th mr w to t) t)"

text \<open>Schedules: an executable way to name interleavings.\<close>

datatype event = Call nat cb_method | Run nat | Tick nat

fun conc_event :: "event \<Rightarrow> shared_breaker \<Rightarrow> shared_breaker" where
  "conc_event (Call i m) s = (if pcs s i = Idle then start_call i m s else s)"
| "conc_event (Run i) s = (if pcs s i = Idle then s else run_thread i s)"
| "conc_event (Tick n) s = s\<lparr>clock := clock s + int n\<rparr>"

lemma conc_event_steps: "conc_step\<^sup>*\<^sup>* s (conc_event e s)"
proof (cases e)
  case (Tick n)
  have "conc_step s (s\<lparr>clock := clock s + int n\<rparr>)" by (rule conc_step.tick) simp
  with Tick show ?thesis by (simp add: r_into_rtranclp)
qed (auto intro: r_into_rtranclp conc_step.intros)

lemma conc_schedule_reach:
  "reach conc_start conc_step s \<Longrightarrow> reach conc_start conc_step (fold conc_event es s)"
proof (induction es arbitrary: s)
  case (Cons e es)
  from conc_event_steps Cons.prems have "reach conc_start conc_step (conc_event e s)"
    by (rule reach_steps)
  then show ?case using Cons.IH by simp
qed simp

section \<open>At most one probe per opening\<close>

definition probe_inv :: "shared_breaker \<Rightarrow> bool" where
  "probe_inv s \<longleftrightarrow>
     probes s + (if state_cell (mem s) = cb_state_as_u8 Open then 1 else 0) \<le> openings s"

lemma atom_state_cell:
  "atom t p cb = (p', cb') \<Longrightarrow>
     state_cell cb' =
       (if p = OpenStore then 1 else if p = ProbeOk then 0
        else if p = AllowCas \<and> state_cell cb = 1 then 2 else state_cell cb)
     \<and> (p = AllowCas \<longrightarrow> (p' = Answered True \<longleftrightarrow> state_cell cb = 1))"
  by (induction t p cb rule: atom.induct) (auto simp: Let_def split: if_splits)

lemma run_thread_probe_inv: "probe_inv s \<Longrightarrow> probe_inv (run_thread i s)"
proof -
  assume inv: "probe_inv s"
  obtain p' cb' where a: "atom (clock s) (pcs s i) (mem s) = (p', cb')"
    by (cases "atom (clock s) (pcs s i) (mem s)")
  from atom_state_cell [OF a] inv a show ?thesis
    by (auto simp: probe_inv_def run_thread_def Let_def split: if_splits)
qed

lemma conc_step_probe_inv: "conc_step s s' \<Longrightarrow> probe_inv s \<Longrightarrow> probe_inv s'"
proof (induction rule: conc_step.induct)
  case (run s i)
  then show ?case by (simp add: run_thread_probe_inv)
qed (simp_all add: probe_inv_def start_call_def)

interpretation probe: inductive_invariant conc_start conc_step probe_inv
proof
  fix s assume "conc_start s"
  then show "probe_inv s" by (auto simp: conc_start_def conc_init_def probe_inv_def cb_new_def)
qed (rule conc_step_probe_inv)

section \<open>Steps without interference\<close>

text \<open>The atomic steps of one thread, run to the end of the call with the clock standing still.\<close>

fun solo :: "nat \<Rightarrow> sys_time \<Rightarrow> pc \<times> circuit_breaker \<Rightarrow> pc \<times> circuit_breaker" where
  "solo 0 t c = c"
| "solo (Suc n) t (p, cb) =
     (if p = Idle \<or> p = Answered True \<or> p = Answered False then (p, cb) else solo n t (atom t p cb))"

lemma solo_allow:
  "solo 3 t (method_entry CallAllow (cb_state_of cb), cb)
     = (Answered (fst (allow_request t cb)), snd (allow_request t cb))"
proof (cases "cb_state_of cb")
  case Open
  then have "state_cell cb = 1" by (simp add: cb_state_of_cases)
  with Open show ?thesis by (simp add: numeral_3_eq_3 allow_request_def Let_def)
qed (simp_all add: numeral_3_eq_3 allow_request_def)

lemma solo_success:
  "solo 6 t (method_entry (CallRecord OkOutcome) (cb_state_of cb), cb) = (Idle, record_success t cb)"
  by (cases "cb_state_of cb")
    (auto simp: eval_nat_numeral record_success_def reset_window_def maybe_rotate_window_def Let_def)

lemma solo_failure:
  "solo 9 t (method_entry (CallRecord FailOutcome) (cb_state_of cb), cb) = (Idle, record_failure t t cb)"
  by (cases "cb_state_of cb")
    (auto simp: eval_nat_numeral record_failure_def open_circuit_def maybe_rotate_window_def Let_def
      trips_def)

section \<open>Properties\<close>

text \<open>
  The atomic-step model and the sequential definitions agree: a thread that runs a method
  without interference leaves the shared record as the sequential method does and answers as it
  does, in every state and for all three methods.
\<close>

theorem solo_matches_sequential:
  "solo 3 t (method_entry CallAllow (cb_state_of cb), cb)
     = (Answered (fst (allow_request t cb)), snd (allow_request t cb)) \<and>
   solo 6 t (method_entry (CallRecord OkOutcome) (cb_state_of cb), cb)
     = (Idle, record_success t cb) \<and>
   solo 9 t (method_entry (CallRecord FailOutcome) (cb_state_of cb), cb)
     = (Idle, record_failure t t cb)"
  by (intro conjI solo_allow solo_success solo_failure)

text \<open>
  C15 Any number of threads, any interleaving: the compare-exchange from open to half-open
  succeeds at most once per store of the open state.
\<close>

theorem one_probe_per_opening:
  assumes "reach conc_start conc_step s"
  shows "probes s \<le> openings s"
  using probe.reach_inv [OF assms] by (simp add: probe_inv_def)

text \<open>
  A schedule of two threads.  Thread 0 records a failure that opens the circuit; one timeout
  later thread 1 is admitted as the probe; thread 0 records the probe's failure and has stored
  the open state but not yet the time stamp when thread 1 asks again.
\<close>

definition early_admission :: "event list" where
  "early_admission =
     [Call 0 (CallRecord FailOutcome), Run 0, Run 0, Run 0, Run 0, Run 0,
      Tick 1000000000, Call 1 CallAllow, Run 1, Run 1, Run 1,
      Call 0 (CallRecord FailOutcome), Run 0,
      Call 1 CallAllow, Run 1, Run 1]"

definition race_start :: shared_breaker where
  "race_start = conc_init (cb_new (Fin 0) 1 10000000000 1000000000 1000000) 1000000"

definition two_threads ::
  "circuit_breaker \<Rightarrow> pc \<Rightarrow> pc \<Rightarrow> sys_time \<Rightarrow> nat \<Rightarrow> nat \<Rightarrow> sys_time \<Rightarrow> sys_time option \<Rightarrow> shared_breaker" where
  "two_threads cb p q t o1 n oc w =
     \<lparr>mem = cb, pcs = (\<lambda>i. if i = 0 then p else if i = 1 then q else Idle), clock = t,
      openings = o1, probes = n, opened_clock = oc, waited = w\<rparr>"

lemma two_threads_events:
  "conc_event (Call 0 m) (two_threads cb Idle q t o1 n oc w)
     = two_threads cb (method_entry m (cb_state_of cb)) q t o1 n oc w"
  "conc_event (Call 1 m) (two_threads cb p Idle t o1 n oc w)
     = two_threads cb p (method_entry m (cb_state_of cb)) t o1 n oc w"
  "p \<noteq> Idle \<Longrightarrow> conc_event (Run 0) (two_threads cb p q t o1 n oc w) =
     (let (p', cb') = atom t p cb; win = (p = AllowCas \<and> p' = Answered True)
      in two_threads cb' p' q t (o1 + (if p = OpenStore then 1 else 0)) (n + (if win then 1 else 0))
           (if p = OpenStore then t else oc) (if win then Some (t - oc) else w))"
  "q \<noteq> Idle \<Longrightarrow> conc_event (Run 1) (two_threads cb p q t o1 n oc w) =
     (let (q', cb') = atom t q cb; win = (q = AllowCas \<and> q' = Answered True)
      in two_threads cb' p q' t (o1 + (if q = OpenStore then 1 else 0)) (n + (if win then 1 else 0))
           (if q = OpenStore then t else oc) (if win then Some (t - oc) else w))"
  "conc_event (Tick k) (two_threads cb p q t o1 n oc w) = two_threads cb p q (t + int k) o1 n oc w"
  by (auto simp: two_threads_def start_call_def run_thread_def fun_eq_iff Let_def split: prod.split)

lemma race_start_reach: "reach conc_start conc_step race_start"
proof (rule reach_start)
  show "conc_start race_start" unfolding conc_start_def race_start_def by blast
qed

lemma race_start_two:
  "race_start = two_threads
     \<lparr>state_cell = 0, window_requests = 0, window_failures = 0, window_start_ms = 1,
      opened_at_ms = 0, failure_threshold = Fin 0, min_requests = 1,
      window_duration_ms = 10000, half_open_timeout_ms = 1000\<rparr>
     Idle Idle 1000000 0 0 0 None"
  by (simp add: race_start_def conc_init_def cb_new_def two_threads_def now_ms_def since_epoch_def
      as_millis_u64_def fun_eq_iff)

lemma trips_first_failure:
  assumes "failure_threshold cb = Fin 0" "min_requests cb = 1"
  shows "trips cb 1 1"
proof -
  have "trips cb 1 1 \<longleftrightarrow> unat (min_requests cb) \<le> unat (1 :: u32) \<and>
      fraction 0 1 \<le> of_nat (unat (1 :: u32)) / of_nat (unat (1 :: u32))"
    using assms(1) by (intro trips_exact) (simp_all add: fraction_def)
  then show ?thesis using assms(2) by (simp add: fraction_def)
qed

lemma early_admission_outcome:
  "fold conc_event early_admission race_start = two_threads
     \<lparr>state_cell = 2, window_requests = 1, window_failures = 1, window_start_ms = 1,
      opened_at_ms = 1, failure_threshold = Fin 0, min_requests = 1,
      window_duration_ms = 10000, half_open_timeout_ms = 1000\<rparr>
     OpenStamp (Answered True) 1001000000 2 2 1001000000 (Some 0)"
proof -
  have ms: "now_ms 1000000 = 1" "now_ms 1001000000 = 1001"
    by (simp_all add: now_ms_def since_epoch_def as_millis_u64_def)
  show ?thesis
    unfolding early_admission_def race_start_two
    by (simp add: two_threads_events ms cb_state_of_def cb_state_from_def trips_first_failure
        saturating_sub_def del: conc_event.simps One_nat_def)
qed

text \<open>
  C38 A race in \<open>open_circuit\<close>: it stores the open state before the time stamp, so between the
  two stores a request sees the open state with the time stamp of an earlier opening.  There is
  an execution with a clock that never goes back in which a circuit with a timeout of 1000 ms is
  opened a second time and admits a request 0 ms later.
\<close>

theorem open_circuit_race:
  "\<exists>s. reach conc_start conc_step s \<and> pcs s 1 = Answered True \<and> waited s = Some 0 \<and>
     openings s = 2 \<and> half_open_timeout_ms (mem s) = 1000"
proof -
  let ?s = "fold conc_event early_admission race_start"
  have "reach conc_start conc_step ?s"
    using race_start_reach by (rule conc_schedule_reach)
  moreover have "pcs ?s 1 = Answered True" "waited ?s = Some 0" "openings ?s = 2"
    "half_open_timeout_ms (mem ?s) = 1000"
    unfolding early_admission_outcome by (simp_all add: two_threads_def)
  ultimately show ?thesis by blast
qed

text \<open>
  The bound of \<open>one_probe_per_opening\<close> is met on the same execution: two openings, two probes.
\<close>

theorem one_probe_per_opening_witness:
  "probes (fold conc_event early_admission race_start)
     \<le> openings (fold conc_event early_admission race_start) \<and>
   probes (fold conc_event early_admission race_start) = 2"
proof
  show "probes (fold conc_event early_admission race_start)
      \<le> openings (fold conc_event early_admission race_start)"
    by (rule one_probe_per_opening) (rule conc_schedule_reach [OF race_start_reach])
  show "probes (fold conc_event early_admission race_start) = 2"
    unfolding early_admission_outcome by (simp add: two_threads_def)
qed

end
