(* ===== verification/Client_Config.thy ===== *)
theory Client_Config
  imports Circuit_Breaker
begin

text \<open>
  The declarative configuration and the error types of the resilient client:
  \<open>crates/resilient-client/src/config.rs\<close> and \<open>error.rs\<close>.  Field names carry the
  prefix of their struct because Isabelle record fields share one name space.
\<close>

section \<open>Errors\<close>

datatype outbound_error = Transient string | Fatal string

datatype shutdown_error = ShutdownTimeout usize

definition is_transient :: "outbound_error \<Rightarrow> bool" where
  "is_transient e = (case e of Transient _ \<Rightarrow> True | _ \<Rightarrow> False)"

definition is_fatal :: "outbound_error \<Rightarrow> bool" where
  "is_fatal e = (case e of Fatal _ \<Rightarrow> True | _ \<Rightarrow> False)"

definition error_type :: "outbound_error \<Rightarrow> string" where
  "error_type e = (case e of Transient _ \<Rightarrow> ''transient'' | Fatal _ \<Rightarrow> ''fatal'')"

lemma is_transient_simps [simp]:
  "is_transient (Transient m)" "\<not> is_transient (Fatal m)"
  "is_fatal (Fatal m)" "\<not> is_fatal (Transient m)"
  by (simp_all add: is_transient_def is_fatal_def)

lemma is_fatal_iff: "is_fatal e \<longleftrightarrow> \<not> is_transient e"
  by (cases e) simp_all

section \<open>Configuration\<close>

record outbound_target_config =
  otc_name :: string
  otc_selector :: string
  otc_rate_limit :: u32
  otc_timeout_ms :: "u64 option"
  otc_cb_threshold :: f64
  otc_cb_min_requests :: u32
  otc_cb_window_secs :: u64
  otc_cb_half_open_timeout_secs :: u64
  otc_retry_max_attempts :: u32
  otc_retry_base_ms :: u64
  otc_retry_cap_ms :: u64

record client_config =
  cc_pool_max_idle_per_host :: usize
  cc_pool_idle_timeout_secs :: u64
  cc_tcp_keepalive_secs :: u64
  cc_default_timeout_ms :: u64
  cc_user_agent :: "string option"
  cc_outbound_targets :: "outbound_target_config list"

subsection \<open>The \<open>defaults\<close> module\<close>

definition default_pool_max_idle_per_host :: usize where "default_pool_max_idle_per_host = 100"
definition default_pool_idle_timeout_secs :: u64 where "default_pool_idle_timeout_secs = 90"
definition default_tcp_keepalive_secs :: u64 where "default_tcp_keepalive_secs = 30"
definition default_default_timeout_ms :: u64 where "default_default_timeout_ms = 5000"
definition default_rate_limit :: u32 where "default_rate_limit = 1000"
definition default_cb_threshold :: f64 where "default_cb_threshold = Fin (1/2)"
definition default_cb_min_requests :: u32 where "default_cb_min_requests = 10"
definition default_cb_window_secs :: u64 where "default_cb_window_secs = 10"
definition default_cb_half_open_timeout_secs :: u64 where
  "default_cb_half_open_timeout_secs = 30"
definition default_retry_base_ms :: u64 where "default_retry_base_ms = 100"
definition default_retry_cap_ms :: u64 where "default_retry_cap_ms = 30000"

lemmas client_defaults =
  default_pool_max_idle_per_host_def default_pool_idle_timeout_secs_def
  default_tcp_keepalive_secs_def default_default_timeout_ms_def default_rate_limit_def
  default_cb_threshold_def default_cb_min_requests_def default_cb_window_secs_def
  default_cb_half_open_timeout_secs_def default_retry_base_ms_def default_retry_cap_ms_def

definition client_config_default :: client_config where
  "client_config_default =
     \<lparr>cc_pool_max_idle_per_host = default_pool_max_idle_per_host,
      cc_pool_idle_timeout_secs = default_pool_idle_timeout_secs,
      cc_tcp_keepalive_secs = default_tcp_keepalive_secs,
      cc_default_timeout_ms = default_default_timeout_ms,
      cc_user_agent = None, cc_outbound_targets = []\<rparr>"

definition outbound_target_config_default :: outbound_target_config where
  "outbound_target_config_default =
     \<lparr>otc_name = '''', otc_selector = '''', otc_rate_limit = default_rate_limit,
      otc_timeout_ms = None, otc_cb_threshold = default_cb_threshold,
      otc_cb_min_requests = default_cb_min_requests,
      otc_cb_window_secs = default_cb_window_secs,
      otc_cb_half_open_timeout_secs = default_cb_half_open_timeout_secs,
      otc_retry_max_attempts = 0, otc_retry_base_ms = default_retry_base_ms,
      otc_retry_cap_ms = default_retry_cap_ms\<rparr>"

definition target_fallback :: "string \<Rightarrow> outbound_target_config" where
  "target_fallback name = outbound_target_config_default\<lparr>otc_name := name\<rparr>"

definition target_timeout :: "outbound_target_config \<Rightarrow> duration \<Rightarrow> duration" where
  "target_timeout cfg dflt =
     (case otc_timeout_ms cfg of None \<Rightarrow> dflt | Some ms \<Rightarrow> duration_from_millis ms)"

end
