(* ===== verification/Backoff.thy ===== *)
theory Backoff
  imports Float64 Std_Time
begin

text \<open>
  The full-jitter backoff of \<open>crates/resilient-client/src/backoff.rs\<close>.  The random
  number generator is an argument: \<open>rng c\<close> is what \<open>random_range(0..=c)\<close>
  returns, and \<open>in_range rng\<close> is its documented contract.
\<close>

definition in_range :: "(u64 \<Rightarrow> u64) \<Rightarrow> bool" where
  "in_range rng \<longleftrightarrow> (\<forall>c. rng c \<le> c)"

definition backoff_ceiling :: "u32 \<Rightarrow> u64 \<Rightarrow> u64 \<Rightarrow> u64" where
  "backoff_ceiling attempt base_ms cap_ms =
     f64_to_u64 (f64_min (f64_mul (f64_of_nat (unat base_ms)) (f64_two_powi (sint attempt)))
       (f64_of_nat (unat cap_ms)))"

definition full_jitter :: "(u64 \<Rightarrow> u64) \<Rightarrow> u32 \<Rightarrow> u64 \<Rightarrow> u64 \<Rightarrow> duration" where
  "full_jitter rng attempt base_ms cap_ms =
     (if attempt = 0 \<or> cap_ms = 0 then 0
      else duration_from_millis (rng (backoff_ceiling attempt base_ms cap_ms)))"

section \<open>Powers of two in double precision\<close>

lemma round_pow2: "f64_round (2 ^ n) = (if n \<le> 1023 then Fin (2 ^ n) else Infinite)"
proof -
  have "round_pos (2 ^ n) = 2 ^ n"
    by (rule round_pos_exact [of _ 1 "int n"]) (simp_all add: power_int_add)
  moreover have "(2 ^ n :: rat) < 2 ^ 1024 \<longleftrightarrow> n \<le> 1023"
    by (subst power_strict_increasing_iff) auto
  ultimately show ?thesis by (simp only: f64_round_def Let_def) simp
qed

lemma two_powi_nonneg: "0 \<le> n \<Longrightarrow> f64_two_powi n = (if n \<le> 1023 then Fin (2 ^ nat n) else Infinite)"
  by (auto simp: f64_two_powi_def round_pow2)

lemma two_powi_big: "1024 \<le> n \<Longrightarrow> f64_two_powi (int n) = Infinite"
  by (simp add: two_powi_nonneg)

lemma two_powi_neg:
  assumes "n < 0"
  shows "\<exists>q. 0 \<le> q \<and> q \<le> 1 \<and> f64_two_powi n = Fin q"
proof (cases "nat (- n) \<le> 1023")
  case True
  have "f64_two_powi n = f64_round (1 / 2 ^ nat (- n))"
    using assms True by (simp add: f64_two_powi_def round_pow2)
  also have "\<dots> = Fin (1 / 2 ^ nat (- n))"
  proof (rule f64_round_exact)
    have eq: "1 / 2 ^ nat (- n) = (2::rat) powi n"
      using assms by (simp add: power_int_def power_one_over)
    then show "1 / 2 ^ nat (- n) = of_int 1 * (2::rat) powi n" by simp
    show "1 / 2 ^ nat (- n) < (2::rat) powi (53 + n)"
      unfolding eq by (rule power_int_strict_increasing) simp_all
  qed (use True assms in simp_all)
  finally show ?thesis using one_le_power [of "2::rat" "nat (- n)"] by (intro exI [of _ "1 / 2 ^ nat (- n)"]) simp
next
  case False
  then have "f64_two_powi n = Fin 0" using assms by (simp add: f64_two_powi_def round_pow2)
  then show ?thesis by (intro exI [of _ 0]) simp
qed

section \<open>The ceiling\<close>

lemma f64_min_left: "x \<noteq> NaN \<Longrightarrow> f64_ge y x \<Longrightarrow> f64_min x y = x"
  by (cases x; cases y) auto

lemma f64_min_right:
  assumes "f64_ge x (Fin c)"
  shows "f64_min x (Fin c) = Fin c"
  using assms by (cases x) auto

lemma f64_to_u64_nat: "m < 2 ^ 64 \<Longrightarrow> unat (f64_to_u64 (Fin (of_nat m))) = m"
proof -
  assume m: "m < 2 ^ 64"
  then have "(of_nat m :: rat) < of_nat (2 ^ 64)" by (simp only: of_nat_less_iff)
  then have "f64_to_u64 (Fin (of_nat m)) = of_nat m" by simp
  with m show ?thesis by (simp only: unat_of_nat) simp
qed

lemma min_product:
  fixes b c n :: nat
  assumes "c \<le> 2 ^ 53"
  shows "f64_min (f64_round (of_nat (b * 2 ^ n))) (f64_of_nat c) = Fin (of_nat (min c (b * 2 ^ n)))"
proof (cases "b * 2 ^ n \<le> c")
  case True
  then have "f64_round (of_nat (b * 2 ^ n)) = Fin (of_nat (b * 2 ^ n))"
    using f64_of_nat_exact [of "b * 2 ^ n"] assms by (simp add: f64_of_nat_def)
  moreover have "(of_nat (b * 2 ^ n) :: rat) \<le> of_nat c" using True by (simp only: of_nat_le_iff)
  ultimately show ?thesis
    using True assms by (simp add: f64_of_nat_exact f64_min_left min_absorb2)
next
  case False
  then have "(of_nat c :: rat) \<le> of_nat (b * 2 ^ n)" by (simp only: of_nat_le_iff)
  then have "f64_ge (f64_round (of_nat (b * 2 ^ n))) (f64_round (of_nat c))"
    by (intro f64_round_ge) simp_all
  moreover have "f64_round (of_nat c) = Fin (of_nat c)"
    using f64_of_nat_exact [OF assms] by (simp add: f64_of_nat_def)
  ultimately show ?thesis using False
    by (simp add: f64_of_nat_def f64_min_right min_absorb1)
qed

lemma ceiling_nat:
  fixes b c n :: nat
  assumes "b \<le> 2 ^ 53" "c \<le> 2 ^ 53" "b \<noteq> 0 \<or> n \<le> 1023"
  shows "f64_min (f64_mul (f64_of_nat b) (f64_two_powi (int n))) (f64_of_nat c)
    = Fin (of_nat (min c (b * 2 ^ n)))"
proof (cases "n \<le> 1023")
  case True
  then have "f64_mul (f64_of_nat b) (f64_two_powi (int n)) = f64_round (of_nat (b * 2 ^ n))"
    using assms(1) by (simp add: f64_of_nat_exact two_powi_nonneg)
  then show ?thesis using min_product [OF assms(2)] by simp
next
  case False
  then have b: "b \<noteq> 0" using assms(3) by simp
  then have "f64_mul (f64_of_nat b) (f64_two_powi (int n)) = Infinite"
    using False assms(1) by (simp add: f64_of_nat_exact two_powi_nonneg)
  moreover have "c \<le> b * 2 ^ n"
  proof -
    have "c \<le> 2 ^ n" using assms(2) False power_increasing [of 53 n "2::nat"] by simp
    also have "\<dots> \<le> b * 2 ^ n" using b by simp
    finally show ?thesis .
  qed
  ultimately show ?thesis using f64_of_nat_exact [OF assms(2)] by (simp add: min_absorb1)
qed

lemma sint_small:
  fixes w :: u32
  assumes "unat w < 2 ^ 31"
  shows "sint w = int (unat w)"
proof -
  have "uint w < 2 ^ 31" using assms by (metis of_nat_less_iff of_nat_numeral of_nat_power uint_nat)
  moreover have "- (2 ^ 31) \<le> uint w" by (rule order_trans [OF _ uint_ge_0]) simp
  ultimately have "signed_take_bit 31 (uint w) = uint w"
    by (intro signed_take_bit_int_eq_self)
  then show ?thesis by (simp add: sint_uint)
qed

lemma ceiling_exact:
  assumes "unat attempt < 2 ^ 31" "unat base_ms \<le> 2 ^ 53" "unat cap_ms \<le> 2 ^ 53"
    and "base_ms \<noteq> 0 \<or> unat attempt \<le> 1023"
  shows "unat (backoff_ceiling attempt base_ms cap_ms)
    = min (unat cap_ms) (unat base_ms * 2 ^ unat attempt)"
proof -
  have "unat base_ms \<noteq> 0 \<or> unat attempt \<le> 1023" using assms(4) by (auto simp: unat_eq_zero)
  then have "f64_min (f64_mul (f64_of_nat (unat base_ms)) (f64_two_powi (sint attempt)))
      (f64_of_nat (unat cap_ms)) = Fin (of_nat (min (unat cap_ms) (unat base_ms * 2 ^ unat attempt)))"
    unfolding sint_small [OF assms(1)] using assms(2,3) by (intro ceiling_nat)
  then show ?thesis
    using assms(3) by (simp only: backoff_ceiling_def) (rule f64_to_u64_nat, simp)
qed

text \<open>Whatever the attempt, the ceiling stays below a cap of at most \<open>2^53\<close> ms.\<close>

lemma f64_min_le_cap:
  assumes "f64_ge x (Fin 0) \<or> x = NaN" "c \<le> 2 ^ 53"
  shows "unat (f64_to_u64 (f64_min x (f64_of_nat c))) \<le> c"
proof -
  have c: "f64_of_nat c = Fin (of_nat c)" using assms(2) by (rule f64_of_nat_exact)
  have cc: "unat (f64_to_u64 (Fin (of_nat c))) = c" using assms(2) by (intro f64_to_u64_nat) simp
  show ?thesis
  proof (cases "\<exists>q. x = Fin q \<and> q \<le> of_nat c")
    case True
    then obtain q where q: "x = Fin q" "q \<le> of_nat c" by blast
    with assms(1) have "0 \<le> q" by simp
    then obtain m where m: "\<lfloor>q\<rfloor> = int m" using zero_le_floor by (metis nonneg_int_cases)
    have "of_int \<lfloor>q\<rfloor> \<le> (of_nat c :: rat)" using q(2) of_int_floor_le [of q] by (rule order_trans [rotated])
    then have mc: "m \<le> c" unfolding m by simp
    have "q < 2 ^ 64"
    proof -
      have "(of_nat c :: rat) \<le> of_nat (2 ^ 53)" using assms(2) by (simp only: of_nat_le_iff)
      with q(2) show ?thesis by simp
    qed
    then have "f64_to_u64 (f64_min x (f64_of_nat c)) = of_nat m"
      using q \<open>0 \<le> q\<close> m by (simp add: c)
    moreover have "unat (of_nat m :: u64) = m" using mc assms(2) by (simp add: unat_of_nat)
    ultimately show ?thesis using mc by simp
  next
    case False
    then have "f64_min x (f64_of_nat c) = Fin (of_nat c)"
      using assms(1) by (cases x) (auto simp: c)
    then show ?thesis using cc by simp
  qed
qed

lemma f64_round_nonneg: "0 \<le> q \<Longrightarrow> f64_ge (f64_round q) (Fin 0)"
  using f64_round_ge [of 0 q] by simp

lemma f64_mul_nonneg:
  assumes "f64_ge x (Fin 0)" "f64_ge y (Fin 0)"
  shows "f64_ge (f64_mul x y) (Fin 0) \<or> f64_mul x y = NaN"
  using assms by (cases x; cases y) (auto intro: f64_round_nonneg)

lemma two_powi_ge0: "f64_ge (f64_two_powi n) (Fin 0)"
  using two_powi_nonneg [of n] two_powi_neg [of n] by (cases "0 \<le> n") auto

lemma full_jitter_le_cap:
  assumes "in_range rng" "unat cap_ms \<le> 2 ^ 53"
  shows "full_jitter rng attempt base_ms cap_ms \<le> duration_from_millis cap_ms"
proof -
  let ?c = "backoff_ceiling attempt base_ms cap_ms"
  have "f64_ge (f64_of_nat (unat base_ms)) (Fin 0)"
    unfolding f64_of_nat_def by (rule f64_round_nonneg) (rule of_nat_0_le_iff)
  then have "f64_ge (f64_mul (f64_of_nat (unat base_ms)) (f64_two_powi (sint attempt))) (Fin 0) \<or>
      f64_mul (f64_of_nat (unat base_ms)) (f64_two_powi (sint attempt)) = NaN"
    by (rule f64_mul_nonneg) (rule two_powi_ge0)
  then have "unat ?c \<le> unat cap_ms"
    unfolding backoff_ceiling_def using assms(2) by (rule f64_min_le_cap)
  moreover have "unat (rng ?c) \<le> unat ?c"
    using assms(1) by (simp add: in_range_def flip: word_le_nat_alt)
  ultimately show ?thesis by (simp add: full_jitter_def duration_from_millis_def)
qed

section \<open>Properties\<close>

text \<open>
  C21 The backoff ceiling is the documented formula: for every retry number below \<open>2^31\<close>, with
  base and cap of at most \<open>2^53\<close> ms and a positive base (or a retry number of at most 1023), it is
  exactly \<open>min cap (base * 2 ^ attempt)\<close> computed over unbounded integers, although the source
  goes through double precision, and the delay is at most that many milliseconds.
\<close>

theorem full_jitter_range:
  assumes "in_range rng" "attempt \<noteq> 0" "unat attempt < 2 ^ 31"
    and "unat base_ms \<le> 2 ^ 53" "unat cap_ms \<le> 2 ^ 53"
    and "base_ms \<noteq> 0 \<or> unat attempt \<le> 1023"
  shows "unat (backoff_ceiling attempt base_ms cap_ms)
      = min (unat cap_ms) (unat base_ms * 2 ^ unat attempt) \<and>
    full_jitter rng attempt base_ms cap_ms
      \<le> min (unat cap_ms) (unat base_ms * 2 ^ unat attempt) * 10 ^ 6"
proof -
  note c = ceiling_exact [OF assms(3-6)]
  have "rng (backoff_ceiling attempt base_ms cap_ms) \<le> backoff_ceiling attempt base_ms cap_ms"
    using assms(1) by (simp add: in_range_def)
  then have "unat (rng (backoff_ceiling attempt base_ms cap_ms))
      \<le> unat (backoff_ceiling attempt base_ms cap_ms)"
    by (simp add: word_le_nat_alt)
  then show ?thesis using c by (simp add: full_jitter_def duration_from_millis_def)
qed

theorem full_jitter_range_witness:
  "unat (backoff_ceiling 3 100 30000) = 800 \<and> full_jitter (\<lambda>c. c div 2) 3 100 30000 \<le> 800000000"
proof -
  have "in_range (\<lambda>c. c div 2)"
    by (simp add: in_range_def word_le_nat_alt unat_div)
  from full_jitter_range [OF this, of 3 100 30000] show ?thesis by simp
qed

text \<open>
  The delay never exceeds the cap, for any retry number (also those that are negative as
  \<open>i32\<close>), any base and any cap of at most \<open>2^53\<close> ms; the first attempt and a cap of zero do not
  wait at all.
\<close>

theorem full_jitter_within_cap:
  assumes "in_range rng" "unat cap_ms \<le> 2 ^ 53"
  shows "full_jitter rng attempt base_ms cap_ms \<le> duration_from_millis cap_ms \<and>
    full_jitter rng 0 base_ms cap_ms = 0 \<and> full_jitter rng attempt base_ms 0 = 0"
  using full_jitter_le_cap [OF assms] by (simp add: full_jitter_def)

theorem full_jitter_within_cap_witness:
  "full_jitter (\<lambda>c. c) 4294967295 100 5000 \<le> 5000000000"
proof -
  have "in_range (\<lambda>c. c)" by (simp add: in_range_def)
  from full_jitter_within_cap [OF this, of 5000 4294967295 100] show ?thesis
    by (simp add: duration_from_millis_def)
qed

text \<open>
  The formula fails at one corner: with a base of zero the documented range is the single
  delay zero, but from retry 1024 on the product is \<open>0 * infinity\<close>, a NaN that \<open>f64::min\<close> ignores,
  and the ceiling jumps to the cap.
\<close>

theorem backoff_zero_base:
  assumes "1024 \<le> unat attempt" "unat attempt < 2 ^ 31" "unat cap_ms \<le> 2 ^ 53"
  shows "backoff_ceiling attempt 0 cap_ms = cap_ms"
proof -
  have "f64_two_powi (sint attempt) = Infinite"
    unfolding sint_small [OF assms(2)] using assms(1) by (rule two_powi_big)
  then have "unat (backoff_ceiling attempt 0 cap_ms) = unat (f64_to_u64 (Fin (of_nat (unat cap_ms))))"
    using f64_of_nat_exact [OF assms(3)]
    by (simp only: backoff_ceiling_def) (simp add: f64_of_nat_def)
  also have "\<dots> = unat cap_ms" using assms(3) by (intro f64_to_u64_nat) simp
  finally show ?thesis by (rule unsigned_word_eqI)
qed

theorem backoff_zero_base_witness: "backoff_ceiling 1024 0 30000 = 30000"
  by (rule backoff_zero_base) simp_all

end
