(* ===== verification/Metric_Log.thy ===== *)
theory Metric_Log
  imports Float64
begin

text \<open>
  Metrics as the services produce them.  A Prometheus registry is not part of the sources,
  so the model keeps what they hand to it: the descriptors they register and, in order, the
  updates they make.  \<open>conforms\<close> is the precondition of the update calls
  (\<open>with_label_values\<close> panics when the number of labels differs from the descriptor's),
  and \<open>counter_value\<close> reads a counter off the updates made so far.
\<close>

datatype metric_kind = CounterKind | GaugeKind | HistogramKind

record metric_desc =
  d_name :: string
  d_kind :: metric_kind
  d_labels :: "string list"

datatype metric_update =
    Inc string "string list"
  | SetGauge string "string list" f64
  | Observe string "string list" f64

fun update_name :: "metric_update \<Rightarrow> string" where
  "update_name (Inc n ls) = n"
| "update_name (SetGauge n ls v) = n"
| "update_name (Observe n ls v) = n"

fun update_kind :: "metric_update \<Rightarrow> metric_kind" where
  "update_kind (Inc n ls) = CounterKind"
| "update_kind (SetGauge n ls v) = GaugeKind"
| "update_kind (Observe n ls v) = HistogramKind"

fun update_labels :: "metric_update \<Rightarrow> string list" where
  "update_labels (Inc n ls) = ls"
| "update_labels (SetGauge n ls v) = ls"
| "update_labels (Observe n ls v) = ls"

definition conforms :: "metric_desc list \<Rightarrow> metric_update \<Rightarrow> bool" where
  "conforms ds u \<longleftrightarrow>
     list_ex (\<lambda>d. d_name d = update_name u \<and> d_kind d = update_kind u \<and>
       length (d_labels d) = length (update_labels u)) ds"

definition conform_all :: "metric_desc list \<Rightarrow> metric_update list \<Rightarrow> bool" where
  "conform_all ds us \<longleftrightarrow> list_all (conforms ds) us"

lemma conform_all_simps [simp]:
  "conform_all ds []"
  "conform_all ds (u # us) \<longleftrightarrow> conforms ds u \<and> conform_all ds us"
  "conform_all ds (us @ vs) \<longleftrightarrow> conform_all ds us \<and> conform_all ds vs"
  by (simp_all add: conform_all_def)

definition counter_value :: "string \<Rightarrow> string list \<Rightarrow> metric_update list \<Rightarrow> nat" where
  "counter_value n ls us = count_list us (Inc n ls)"

text \<open>The sum of a counter over all its label values.\<close>

definition counter_total :: "string \<Rightarrow> metric_update list \<Rightarrow> nat" where
  "counter_total n us = length (filter (\<lambda>u. update_kind u = CounterKind \<and> update_name u = n) us)"

lemma counter_total_simps [simp]:
  "counter_total n [] = 0"
  "counter_total n (u # us) =
     (if update_kind u = CounterKind \<and> update_name u = n then 1 else 0) + counter_total n us"
  "counter_total n (us @ vs) = counter_total n us + counter_total n vs"
  by (simp_all add: counter_total_def)

lemma counter_value_simps [simp]:
  "counter_value n ls [] = 0"
  "counter_value n ls (u # us) = (if u = Inc n ls then 1 else 0) + counter_value n ls us"
  "counter_value n ls (us @ vs) = counter_value n ls us + counter_value n ls vs"
  by (simp_all add: counter_value_def)

lemma counter_value_le_total: "counter_value n ls us \<le> counter_total n us"
  by (induction us) auto

section \<open>Registration\<close>

text \<open>
  \<open>Registry::register\<close>: \<open>reg rs d\<close> is the error for registering \<open>d\<close> on a registry that holds \<open>rs\<close>,
  or \<open>None\<close>.  \<open>registry_laws\<close> is its documented behaviour: a name not taken yet is accepted.
\<close>

type_synonym 'e registry_op = "metric_desc list \<Rightarrow> metric_desc \<Rightarrow> 'e option"

fun registrations :: "'e registry_op \<Rightarrow> metric_desc list \<Rightarrow> metric_desc list \<Rightarrow> 'e + metric_desc list" where
  "registrations reg [] rs = Inr rs"
| "registrations reg (d # ds) rs =
     (case reg rs d of Some e \<Rightarrow> Inl e | None \<Rightarrow> registrations reg ds (rs @ [d]))"

definition registry_laws :: "'e registry_op \<Rightarrow> bool" where
  "registry_laws reg \<longleftrightarrow> (\<forall>rs d. d_name d \<notin> d_name ` set rs \<longrightarrow> reg rs d = None)"

lemma registry_fresh: "registry_laws reg \<Longrightarrow> d_name d \<notin> d_name ` set rs \<Longrightarrow> reg rs d = None"
  unfolding registry_laws_def by blast

lemma registrations_fresh:
  assumes "registry_laws reg" "distinct (map d_name ds)" "d_name ` set ds \<inter> d_name ` set rs = {}"
  shows "registrations reg ds rs = Inr (rs @ ds)"
  using assms(2,3)
proof (induction ds arbitrary: rs)
  case (Cons d ds)
  have "reg rs d = None" using Cons.prems(2) by (intro registry_fresh [OF assms(1)]) auto
  with Cons.IH [of "rs @ [d]"] Cons.prems show ?case by auto
qed simp

lemma registrations_extend: "registrations reg ds rs = Inr rs' \<Longrightarrow> rs' = rs @ ds"
proof (induction ds arbitrary: rs)
  case (Cons d ds)
  from Cons.prems have "registrations reg ds (rs @ [d]) = Inr rs'" by (simp split: option.splits)
  from Cons.IH [OF this] show ?case by simp
qed simp

text \<open>A registry that refuses exactly the names it has, for examples.\<close>

definition name_registry :: "string registry_op" where
  "name_registry rs d = (if d_name d \<in> d_name ` set rs then Some ''Duplicate metrics collector registration attempted'' else None)"

lemma name_registry_laws: "registry_laws name_registry"
  by (simp add: registry_laws_def name_registry_def)

end
