(* ===== verification/Http_Types.thy ===== *)
theory Http_Types
  imports Prelude
begin

text \<open>
  HTTP vocabulary shared by the client and the services: status codes with their classes
  (RFC 9110), header maps as the list of their fields in order, with names in lower case as
  the \<open>http\<close> crate stores them.
\<close>

type_synonym status_code = u16

definition is_success :: "status_code \<Rightarrow> bool" where
  "is_success s \<longleftrightarrow> 200 \<le> s \<and> s < 300"

definition is_redirection :: "status_code \<Rightarrow> bool" where
  "is_redirection s \<longleftrightarrow> 300 \<le> s \<and> s < 400"

definition is_server_error :: "status_code \<Rightarrow> bool" where
  "is_server_error s \<longleftrightarrow> 500 \<le> s \<and> s < 600"

type_synonym header_map = "(string \<times> string) list"

text \<open>\<open>HeaderMap::get\<close> returns the first value of a name.\<close>

definition header_get :: "header_map \<Rightarrow> string \<Rightarrow> string option" where
  "header_get hs n = map_of hs n"

text \<open>\<open>HeaderValue::to_str\<close> succeeds on visible ASCII, space and tab.\<close>

definition header_to_str :: "string \<Rightarrow> string option" where
  "header_to_str v =
     (if list_all (\<lambda>c. let n = of_char c :: nat in n = 9 \<or> 32 \<le> n \<and> n < 127) v
      then Some v else None)"

record http_response =
  resp_status :: status_code
  resp_headers :: header_map
  resp_body :: bytes

end
