(* ===== verification/Containers.thy ===== *)
theory Containers
  imports Prelude
begin

text \<open>
  The keyed containers of the sources.  A \<open>BTreeMap\<close> is the association list of its
  entries in key order, so that iterating over it has the order the program sees; a hash map
  is a partial function.  The locale \<open>keyed_store\<close> states what a client of such a container
  relies on (a lookup after an insert) and proves once that a sequence of inserts keeps the
  last value of every key.  It is interpreted here on the ordered map and on hash maps, and
  in the component theories on the registries built from them.
\<close>

section \<open>The interface of a keyed store\<close>

text \<open>In a sequence of inserts the last one of a key is what a lookup finds.\<close>

lemma map_of_rev_last:
  assumes "i < length kvs" "\<And>j. i < j \<Longrightarrow> j < length kvs \<Longrightarrow> fst (kvs ! j) \<noteq> fst (kvs ! i)"
  shows "map_of (rev kvs) (fst (kvs ! i)) = Some (snd (kvs ! i))"
proof -
  have "fst (kvs ! i) \<notin> fst ` set (drop (Suc i) kvs)"
  proof
    assume "fst (kvs ! i) \<in> fst ` set (drop (Suc i) kvs)"
    then obtain k where "k < length kvs - Suc i" "fst (kvs ! i) = fst (kvs ! (Suc i + k))"
      by (auto simp: in_set_conv_nth image_iff)
    then show False using assms(2) [of "Suc i + k"] by force
  qed
  then have "map_of (rev (drop (Suc i) kvs)) (fst (kvs ! i)) = None"
    by (simp add: map_of_eq_None_iff)
  then have "map_of (rev (take i kvs @ kvs ! i # drop (Suc i) kvs)) (fst (kvs ! i)) = Some (snd (kvs ! i))"
    by (simp add: map_add_def)
  then show ?thesis by (simp only: id_take_nth_drop [OF assms(1), symmetric])
qed

locale keyed_store =
  fixes get :: "'m \<Rightarrow> 'k \<Rightarrow> 'v option"
    and ins :: "'k \<Rightarrow> 'v \<Rightarrow> 'm \<Rightarrow> 'm"
    and wf :: "'m \<Rightarrow> bool"
  assumes get_ins: "wf m \<Longrightarrow> get (ins k v m) k' = (if k' = k then Some v else get m k')"
    and wf_ins: "wf m \<Longrightarrow> wf (ins k v m)"
begin

definition ins_all :: "('k \<times> 'v) list \<Rightarrow> 'm \<Rightarrow> 'm" where
  "ins_all kvs m = fold (\<lambda>(k, v). ins k v) kvs m"

lemma wf_ins_all: "wf m \<Longrightarrow> wf (ins_all kvs m)"
  unfolding ins_all_def by (induction kvs arbitrary: m) (auto simp: wf_ins)

lemma get_ins_all:
  assumes "wf m"
  shows "get (ins_all kvs m) k = (case map_of (rev kvs) k of None \<Rightarrow> get m k | Some v \<Rightarrow> Some v)"
  using assms
proof (induction kvs arbitrary: m)
  case Nil
  then show ?case by (simp add: ins_all_def)
next
  case (Cons kv kvs)
  obtain k' v' where kv: "kv = (k', v')" by (cases kv)
  have "get (ins_all (kv # kvs) m) k = get (ins_all kvs (ins k' v' m)) k"
    by (simp add: ins_all_def kv)
  also have "\<dots> = (case map_of (rev kvs) k of None \<Rightarrow> get (ins k' v' m) k | Some v \<Rightarrow> Some v)"
    by (rule Cons.IH) (rule wf_ins [OF Cons.prems])
  finally show ?case
    by (auto simp: get_ins [OF Cons.prems] kv map_add_def split: option.splits)
qed

lemma ins_overwrites: "wf m \<Longrightarrow> get (ins k v (ins k w m)) k = Some v"
  by (simp add: get_ins wf_ins)

lemma ins_commutes:
  "wf m \<Longrightarrow> k \<noteq> k' \<Longrightarrow> get (ins k v (ins k' v' m)) x = get (ins k' v' (ins k v m)) x"
  by (simp add: get_ins wf_ins)

end

section \<open>Ordered maps\<close>

type_synonym ('k, 'v) btree = "('k \<times> 'v) list"

fun btree_insert :: "'k::linorder \<Rightarrow> 'v \<Rightarrow> ('k, 'v) btree \<Rightarrow> ('k, 'v) btree" where
  "btree_insert k v [] = [(k, v)]"
| "btree_insert k v ((k', v') # m) =
     (if k < k' then (k, v) # (k', v') # m
      else if k = k' then (k, v) # m
      else (k', v') # btree_insert k v m)"

abbreviation btree_get :: "('k::linorder, 'v) btree \<Rightarrow> 'k \<Rightarrow> 'v option" where
  "btree_get m k \<equiv> map_of m k"

definition btree_wf :: "('k::linorder, 'v) btree \<Rightarrow> bool" where
  "btree_wf m \<longleftrightarrow> sorted_wrt (<) (map fst m)"

lemma btree_wf_Nil [simp]: "btree_wf []"
  by (simp add: btree_wf_def)

lemma btree_keys_insert: "fst ` set (btree_insert k v m) = insert k (fst ` set m)"
  by (induction k v m rule: btree_insert.induct) auto

lemma btree_wf_insert [simp]: "btree_wf m \<Longrightarrow> btree_wf (btree_insert k v m)"
proof (induction k v m rule: btree_insert.induct)
  case (2 k v k' v' m)
  then show ?case
    using btree_keys_insert [of k v m] by (auto simp: btree_wf_def image_iff)
qed (simp add: btree_wf_def)

lemma btree_get_insert [simp]:
  "btree_wf m \<Longrightarrow> btree_get (btree_insert k v m) = (btree_get m)(k \<mapsto> v)"
proof (induction k v m rule: btree_insert.induct)
  case (2 k v k' v' m)
  then show ?case by (auto simp: btree_wf_def fun_eq_iff)
qed auto

lemma btree_distinct: "btree_wf m \<Longrightarrow> distinct (map fst m)"
  unfolding btree_wf_def by (simp add: strict_sorted_iff)

lemma btree_wf_map [simp]: "btree_wf (map (\<lambda>(k, v). (k, f k v)) m) = btree_wf m"
proof -
  have "map fst (map (\<lambda>(k, v). (k, f k v)) m) = map fst m"
    by (induction m) auto
  then show ?thesis unfolding btree_wf_def by metis
qed

interpretation btree: keyed_store btree_get btree_insert btree_wf
  by unfold_locales auto

text \<open>Inserting a key larger than every key present appends the entry.\<close>

lemma btree_insert_last:
  "\<forall>k' \<in> fst ` set m. k' < k \<Longrightarrow> btree_insert k v m = m @ [(k, v)]"
  by (induction k v m rule: btree_insert.induct) auto

text \<open>Rebuilding a map by inserting its entries in key order gives the map itself.\<close>

lemma btree_fold_insert:
  assumes "btree_wf (acc @ m)"
  shows "fold (\<lambda>(k, v). btree_insert k v) m acc = acc @ m"
  using assms
proof (induction m arbitrary: acc)
  case (Cons kv m)
  obtain k v where kv: "kv = (k, v)" by (cases kv)
  from Cons.prems have "\<forall>k' \<in> fst ` set acc. k' < k"
    by (auto simp: btree_wf_def sorted_wrt_append kv)
  then have "btree_insert k v acc = acc @ [(k, v)]" by (rule btree_insert_last)
  with Cons.IH [of "acc @ [(k, v)]"] Cons.prems show ?case by (simp add: kv)
qed simp

section \<open>Hash maps\<close>

definition hash_insert :: "'k \<Rightarrow> 'v \<Rightarrow> ('k \<rightharpoonup> 'v) \<Rightarrow> ('k \<rightharpoonup> 'v)" where
  "hash_insert k v m = m(k \<mapsto> v)"

interpretation hash: keyed_store "\<lambda>m. m" hash_insert "\<lambda>_. True"
  by unfold_locales (auto simp: hash_insert_def)

end
