(* ===== verification/Resilient_Client.thy ===== *)
theory Resilient_Client
  imports Client_Config Backoff Metric_Log Http_Types Containers
begin

text \<open>
  The policy-per-target HTTP client of \<open>crates/resilient-client/src/client.rs\<close> with
  its metrics (\<open>metrics.rs\<close>).  The code outside the repository that it calls is an
  argument: the \<open>governor\<close> limiter as a record of its two operations over an arbitrary
  limiter state, and for one \<open>send\<close> an environment that holds every clock reading of
  that call, the transport's reply, and what other tasks do to the shared client while the call
  is suspended in its one await.
\<close>

section \<open>Requests, policies, the client\<close>

record outbound_request =
  req_target :: string
  req_method :: string
  req_url :: string
  req_headers :: header_map
  req_body :: "bytes option"

definition outbound_request_new :: "string \<Rightarrow> string \<Rightarrow> string \<Rightarrow> outbound_request" where
  "outbound_request_new tgt meth url =
     \<lparr>req_target = tgt, req_method = meth, req_url = url, req_headers = [], req_body = None\<rparr>"

definition outbound_request_get :: "string \<Rightarrow> string \<Rightarrow> outbound_request" where
  "outbound_request_get tgt url = outbound_request_new tgt ''GET'' url"

definition with_headers :: "header_map \<Rightarrow> outbound_request \<Rightarrow> outbound_request" where
  "with_headers hs r = r\<lparr>req_headers := hs\<rparr>"

definition with_body :: "bytes \<Rightarrow> outbound_request \<Rightarrow> outbound_request" where
  "with_body b r = r\<lparr>req_body := Some b\<rparr>"

text \<open>
  \<open>RateLimiter::direct(Quota::per_second(n))\<close> and \<open>check()\<close>; the natural number
  is the limiter's own clock.
\<close>

record 'l direct_limiter =
  rl_direct :: "u32 \<Rightarrow> 'l"
  rl_check :: "nat \<Rightarrow> 'l \<Rightarrow> bool \<times> 'l"

record 'l policy_set =
  ps_limiter :: 'l
  ps_breaker :: circuit_breaker
  ps_config :: outbound_target_config

definition policy_from_config ::
  "'l direct_limiter \<Rightarrow> sys_time \<Rightarrow> outbound_target_config \<Rightarrow> 'l policy_set" where
  "policy_from_config G t cfg =
     \<lparr>ps_limiter = rl_direct G (max (otc_rate_limit cfg) 1),
      ps_breaker = cb_new (otc_cb_threshold cfg) (otc_cb_min_requests cfg)
        (duration_from_secs (otc_cb_window_secs cfg))
        (duration_from_secs (otc_cb_half_open_timeout_secs cfg)) t,
      ps_config = cfg\<rparr>"

datatype exec_err = ExecTimeout | ExecConnect string | ExecOther string

record 'l http_client =
  policies :: "string \<rightharpoonup> 'l policy_set"
  default_timeout :: duration
  metrics :: "metric_update list"
  is_shutting_down :: bool
  in_flight :: usize
  wakeups :: nat

text \<open>\<open>wakeups\<close> counts the calls of \<open>notify_waiters\<close> on \<open>all_done\<close>.\<close>

section \<open>Metrics\<close>

definition client_metrics :: "metric_desc list" where
  "client_metrics =
     [\<lparr>d_name = ''outbound_requests_total'', d_kind = CounterKind,
       d_labels = [''target'', ''method'', ''status'', ''error_type'']\<rparr>,
      \<lparr>d_name = ''outbound_request_duration_seconds'', d_kind = HistogramKind,
       d_labels = [''target'', ''method'']\<rparr>,
      \<lparr>d_name = ''outbound_circuit_breaker_state'', d_kind = GaugeKind,
       d_labels = [''target'']\<rparr>,
      \<lparr>d_name = ''outbound_retry_attempts_total'', d_kind = CounterKind,
       d_labels = [''target'']\<rparr>]"

definition emit :: "metric_update \<Rightarrow> 'l http_client \<Rightarrow> 'l http_client" where
  "emit u c = c\<lparr>metrics := metrics c @ [u]\<rparr>"

definition set_cb_state :: "string \<Rightarrow> cb_state \<Rightarrow> 'l http_client \<Rightarrow> 'l http_client" where
  "set_cb_state tgt st =
     emit (SetGauge ''outbound_circuit_breaker_state'' [tgt]
       (f64_of_nat (unat (cb_state_as_u8 st))))"

definition count_request ::
  "string \<Rightarrow> string \<Rightarrow> string \<Rightarrow> string \<Rightarrow> 'l http_client \<Rightarrow> 'l http_client" where
  "count_request tgt meth status err =
     emit (Inc ''outbound_requests_total'' [tgt, meth, status, err])"

section \<open>Construction\<close>

text \<open>What the constructor configures on the \<open>reqwest\<close> builder; \<open>build\<close> is the builder's answer.\<close>

record http_builder =
  hb_pool_max_idle :: usize
  hb_pool_idle_timeout :: duration
  hb_tcp_keepalive :: "duration option"
  hb_user_agent :: "string option"

definition client_builder :: "client_config \<Rightarrow> http_builder" where
  "client_builder cfg =
     \<lparr>hb_pool_max_idle = cc_pool_max_idle_per_host cfg,
      hb_pool_idle_timeout = duration_from_secs (cc_pool_idle_timeout_secs cfg),
      hb_tcp_keepalive =
        (if cc_tcp_keepalive_secs cfg > 0
         then Some (duration_from_secs (cc_tcp_keepalive_secs cfg)) else None),
      hb_user_agent = cc_user_agent cfg\<rparr>"

text \<open>The clock is read once per target, \<open>ts i\<close> for the \<open>i\<close>-th.\<close>

definition client_policies ::
  "'l direct_limiter \<Rightarrow> (nat \<Rightarrow> sys_time) \<Rightarrow> outbound_target_config list \<Rightarrow>
   (string \<rightharpoonup> 'l policy_set)" where
  "client_policies G ts targets =
     fold (\<lambda>(k, p). hash_insert k p)
       (map (\<lambda>(i, tgt). (otc_name tgt, policy_from_config G (ts i) tgt)) (enumerate 0 targets))
       Map.empty"

definition client_new ::
  "'l direct_limiter \<Rightarrow> (http_builder \<Rightarrow> string option) \<Rightarrow> (nat \<Rightarrow> sys_time) \<Rightarrow> client_config \<Rightarrow>
   outbound_error + 'l http_client" where
  "client_new G build ts cfg =
     (case build (client_builder cfg) of
        Some e \<Rightarrow> Inl (Fatal (''build http client: '' @ e))
      | None \<Rightarrow>
          Inr \<lparr>policies = client_policies G ts (cc_outbound_targets cfg),
               default_timeout = duration_from_millis (cc_default_timeout_ms cfg),
               metrics = [], is_shutting_down = False, in_flight = 0, wakeups = 0\<rparr>)"

definition policy_for ::
  "'l direct_limiter \<Rightarrow> sys_time \<Rightarrow> string \<Rightarrow> 'l http_client \<Rightarrow> 'l policy_set \<times> 'l http_client" where
  "policy_for G t key c =
     (case policies c key of
        Some p \<Rightarrow> (p, c)
      | None \<Rightarrow>
          (let p = policy_from_config G t (target_fallback key)
           in (p, c\<lparr>policies := (policies c)(key \<mapsto> p)\<rparr>)))"

text \<open>Storing a policy's new state: the client and the caller share it through an \<open>Arc\<close>.\<close>

definition put_policy :: "string \<Rightarrow> 'l policy_set \<Rightarrow> 'l http_client \<Rightarrow> 'l http_client" where
  "put_policy key p c = c\<lparr>policies := (policies c)(key \<mapsto> p)\<rparr>"

section \<open>One request\<close>

text \<open>
  What the transport gives back for a built request within a time limit: the limit elapsed,
  \<open>reqwest\<close> failed (its two classification flags and its message), or a response.
\<close>

record wire_request =
  wire_method :: string
  wire_url :: string
  wire_headers :: header_map
  wire_body :: "bytes option"

datatype reply = Elapsed | SendError bool bool string | Reply http_response

definition execute ::
  "(wire_request \<Rightarrow> duration \<Rightarrow> reply) \<Rightarrow> outbound_request \<Rightarrow> duration \<Rightarrow> exec_err + http_response" where
  "execute transport req limit =
     (let rb = \<lparr>wire_method = req_method req, wire_url = req_url req,
                wire_headers = req_headers req, wire_body = req_body req\<rparr>
      in case transport rb limit of
           Elapsed \<Rightarrow> Inl ExecTimeout
         | SendError is_timeout is_connect msg \<Rightarrow>
             (if is_timeout then Inl ExecTimeout
              else if is_connect then Inl (ExecConnect msg) else Inl (ExecOther msg))
         | Reply resp \<Rightarrow> Inr resp)"

text \<open>
  The two clock readings are those \<open>record_success\<close> and \<open>record_failure\<close> make.
\<close>

definition classify ::
  "sys_time \<Rightarrow> sys_time \<Rightarrow> string \<Rightarrow> string \<Rightarrow> duration \<Rightarrow> exec_err + http_response \<Rightarrow>
   circuit_breaker \<Rightarrow> 'l http_client \<Rightarrow>
   (outbound_error + http_response) \<times> circuit_breaker \<times> 'l http_client" where
  "classify t t' key meth limit outcome cb c =
     (case outcome of
        Inr resp \<Rightarrow>
          (let status = resp_status resp; code = dec_string (unat status)
           in if is_success status \<or> is_redirection status
              then (Inr resp, record_success t cb, count_request key meth code ''ok'' c)
              else if status = 429
              then (Inl (Transient (''429 from '' @ key)), record_failure t t' cb,
                    count_request key meth code ''rate_limited_upstream'' c)
              else if is_server_error status
              then (Inl (Transient (code @ '' server error from '' @ key)), record_failure t t' cb,
                    count_request key meth code ''server_error'' c)
              else (Inl (Fatal (code @ '' client error from '' @ key)), record_success t cb,
                    count_request key meth code ''client_error'' c))
      | Inl ExecTimeout \<Rightarrow>
          (Inl (Transient (''request to '' @ key @ '' timed out after '' @ duration_debug limit)),
           record_failure t t' cb, count_request key meth ''0'' ''timeout'' c)
      | Inl (ExecConnect msg) \<Rightarrow>
          (Inl (Transient msg), record_failure t t' cb,
           count_request key meth ''0'' ''connect_error'' c)
      | Inl (ExecOther msg) \<Rightarrow>
          (Inl (Transient msg), record_failure t t' cb, count_request key meth ''0'' ''error'' c))"

text \<open>
  \<open>finish_in_flight\<close> is two accesses, the decrement and, for the task that took the count
  to zero, the load of the flag with the notification.
\<close>

definition release_in_flight :: "'l http_client \<Rightarrow> usize \<times> 'l http_client" where
  "release_in_flight c = (in_flight c, c\<lparr>in_flight := in_flight c - 1\<rparr>)"

definition notify_if_down :: "'l http_client \<Rightarrow> 'l http_client" where
  "notify_if_down c = (if is_shutting_down c then c\<lparr>wakeups := wakeups c + 1\<rparr> else c)"

definition finish_in_flight :: "'l http_client \<Rightarrow> 'l http_client" where
  "finish_in_flight c =
     (let (old, c) = release_in_flight c in if old = 1 then notify_if_down c else c)"

text \<open>
  The environment of one \<open>send\<close>: the clock at the creation of a fallback policy, at
  \<open>allow_request\<close> and at the recording of the outcome, the limiter's clock, the transport,
  the elapsed seconds of the histogram, and the effect of other tasks during the await.
\<close>

record 'l send_env =
  env_created :: sys_time
  env_allow :: sys_time
  env_limiter :: nat
  env_transport :: "wire_request \<Rightarrow> duration \<Rightarrow> reply"
  env_others :: "'l http_client \<Rightarrow> 'l http_client"
  env_elapsed :: f64
  env_record :: sys_time
  env_open :: sys_time

text \<open>
  \<open>send\<close> up to its await, in the order of the code: the shutdown gate, then
  \<open>send_gates\<close>: the policy, the circuit breaker, the rate limiter and the in-flight
  counter.  The two are separate definitions because another task can set the shutdown flag
  between them.
\<close>

definition send_gates ::
  "'l direct_limiter \<Rightarrow> 'l send_env \<Rightarrow> outbound_request \<Rightarrow> 'l http_client \<Rightarrow>
   (outbound_error + 'l policy_set) \<times> 'l http_client" where
  "send_gates G e req c =
     (let key = req_target req; meth = req_method req;
          (p, c) = policy_for G (env_created e) key c;
          (allowed, cb) = allow_request (env_allow e) (ps_breaker p);
          p = p\<lparr>ps_breaker := cb\<rparr>;
          c = put_policy key p c
      in if \<not> allowed
         then (Inl (Transient (''circuit breaker open for '' @ key)),
               count_request key meth ''0'' ''circuit_breaker_open''
                 (set_cb_state key (cb_state_of cb) c))
         else
           (let (ok, l) = rl_check G (env_limiter e) (ps_limiter p);
                p = p\<lparr>ps_limiter := l\<rparr>;
                c = put_policy key p c
            in if \<not> ok
               then (Inl (Transient (''rate limited (local) for '' @ key)),
                     count_request key meth ''0'' ''rate_limited'' c)
               else (Inr p, c\<lparr>in_flight := in_flight c + 1\<rparr>)))"

definition send_admit ::
  "'l direct_limiter \<Rightarrow> 'l send_env \<Rightarrow> outbound_request \<Rightarrow> 'l http_client \<Rightarrow>
   (outbound_error + 'l policy_set) \<times> 'l http_client" where
  "send_admit G e req c =
     (if is_shutting_down c then (Inl (Transient ''client is shutting down''), c)
      else send_gates G e req c)"

text \<open>
  \<open>send\<close> after its await: recording the outcome, then leaving the in-flight count.  The policy
  is the one fetched before, whose breaker other tasks may have moved meanwhile.
\<close>

definition send_record ::
  "'l send_env \<Rightarrow> outbound_request \<Rightarrow> 'l policy_set \<Rightarrow> duration \<Rightarrow> exec_err + http_response \<Rightarrow>
   'l http_client \<Rightarrow> (outbound_error + http_response) \<times> 'l http_client" where
  "send_record e req p0 limit outcome c =
     (let key = req_target req; meth = req_method req;
          p = (case policies c key of Some p \<Rightarrow> p | None \<Rightarrow> p0);
          c = emit (Observe ''outbound_request_duration_seconds'' [key, meth] (env_elapsed e)) c;
          (result, cb, c) = classify (env_record e) (env_open e) key meth limit outcome (ps_breaker p) c;
          c = put_policy key (p\<lparr>ps_breaker := cb\<rparr>) c
      in (result, set_cb_state key (cb_state_of cb) c))"

definition send_complete ::
  "'l send_env \<Rightarrow> outbound_request \<Rightarrow> 'l policy_set \<Rightarrow> duration \<Rightarrow> exec_err + http_response \<Rightarrow>
   'l http_client \<Rightarrow> (outbound_error + http_response) \<times> 'l http_client" where
  "send_complete e req p0 limit outcome c =
     (let (result, c) = send_record e req p0 limit outcome c in (result, finish_in_flight c))"

definition send ::
  "'l direct_limiter \<Rightarrow> 'l send_env \<Rightarrow> outbound_request \<Rightarrow> 'l http_client \<Rightarrow>
   (outbound_error + http_response) \<times> 'l http_client" where
  "send G e req c =
     (case send_admit G e req c of
        (Inl err, c) \<Rightarrow> (Inl err, c)
      | (Inr p, c) \<Rightarrow>
          (let limit = target_timeout (ps_config p) (default_timeout c);
               outcome = execute (env_transport e) req limit
           in send_complete e req p limit outcome (env_others e c)))"

section \<open>Retries\<close>

text \<open>
  One pass of the retry loop has the environment of its \<open>send\<close>, the random number
  generator, and what other tasks do during the sleep.
\<close>

record 'l retry_env =
  re_send :: "'l send_env"
  re_rng :: "u64 \<Rightarrow> u64"
  re_others :: "'l http_client \<Rightarrow> 'l http_client"

text \<open>A retry number below the limit does not wrap.\<close>

lemma attempt_decreases: "\<not> mx \<le> (attempt :: u32) \<Longrightarrow> unat mx - unat (attempt + 1) < unat mx - unat attempt"
proof -
  assume "\<not> mx \<le> attempt"
  then have lt: "unat attempt < unat mx" by (simp add: word_le_nat_alt)
  moreover have "unat mx < 2 ^ 32" using unsigned_less [of mx] by simp
  ultimately have "unat (attempt + 1) = unat attempt + 1" by (intro unat_inc) simp
  with lt show ?thesis by simp
qed

function retry_loop ::
  "'l direct_limiter \<Rightarrow> (nat \<Rightarrow> 'l retry_env) \<Rightarrow> outbound_request \<Rightarrow> u32 \<Rightarrow> u64 \<Rightarrow> u64 \<Rightarrow>
   u32 \<Rightarrow> 'l http_client \<Rightarrow> (outbound_error + http_response) \<times> duration list \<times> 'l http_client" where
  "retry_loop G E req mx base cap attempt c =
     (let e = E (unat attempt)
      in case send G (re_send e) req c of
           (Inr resp, c) \<Rightarrow> (Inr resp, [], c)
         | (Inl err, c) \<Rightarrow>
             (if is_fatal err \<or> attempt \<ge> mx then (Inl err, [], c)
              else
                (let attempt = attempt + 1;
                     c = emit (Inc ''outbound_retry_attempts_total'' [req_target req]) c;
                     d = full_jitter (re_rng e) attempt base cap;
                     (r, ds, c) = retry_loop G E req mx base cap attempt (re_others e c)
                 in (r, d # ds, c))))"
  by pat_completeness auto

termination
  by (relation "measure (\<lambda>(G, E, req, mx, base, cap, attempt, c). unat mx - unat attempt)")
    (auto simp: attempt_decreases)

declare retry_loop.simps [simp del]

definition send_with_retry ::
  "'l direct_limiter \<Rightarrow> sys_time \<Rightarrow> (nat \<Rightarrow> 'l retry_env) \<Rightarrow> outbound_request \<Rightarrow> 'l http_client \<Rightarrow>
   (outbound_error + http_response) \<times> duration list \<times> 'l http_client" where
  "send_with_retry G t E req c =
     (let (p, c) = policy_for G t (req_target req) c
      in retry_loop G E req (otc_retry_max_attempts (ps_config p)) (otc_retry_base_ms (ps_config p))
           (otc_retry_cap_ms (ps_config p)) 0 c)"

section \<open>Facts shared by the properties\<close>

lemma emit_simps [simp]:
  "policies (emit u c) = policies c" "default_timeout (emit u c) = default_timeout c"
  "metrics (emit u c) = metrics c @ [u]" "is_shutting_down (emit u c) = is_shutting_down c"
  "in_flight (emit u c) = in_flight c" "wakeups (emit u c) = wakeups c"
  by (simp_all add: emit_def)

lemma put_policy_simps [simp]:
  "policies (put_policy k p c) = (policies c)(k \<mapsto> p)"
  "default_timeout (put_policy k p c) = default_timeout c"
  "metrics (put_policy k p c) = metrics c" "is_shutting_down (put_policy k p c) = is_shutting_down c"
  "in_flight (put_policy k p c) = in_flight c" "wakeups (put_policy k p c) = wakeups c"
  by (simp_all add: put_policy_def)

lemma policy_for_simps [simp]:
  "default_timeout (snd (policy_for G t k c)) = default_timeout c"
  "metrics (snd (policy_for G t k c)) = metrics c"
  "is_shutting_down (snd (policy_for G t k c)) = is_shutting_down c"
  "in_flight (snd (policy_for G t k c)) = in_flight c"
  "wakeups (snd (policy_for G t k c)) = wakeups c"
  by (simp_all add: policy_for_def Let_def split: option.split)

lemma policy_for_stored: "policies (snd (policy_for G t k c)) k = Some (fst (policy_for G t k c))"
  by (simp add: policy_for_def Let_def split: option.split)

lemma policy_for_eq:
  "policy_for G t k c =
     (fst (policy_for G t k c), c\<lparr>policies := (policies c)(k \<mapsto> fst (policy_for G t k c))\<rparr>)"
  by (cases c) (auto simp: policy_for_def Let_def map_upd_triv split: option.split)

lemma finish_simps [simp]:
  "policies (finish_in_flight c) = policies c" "metrics (finish_in_flight c) = metrics c"
  "is_shutting_down (finish_in_flight c) = is_shutting_down c"
  "in_flight (finish_in_flight c) = in_flight c - 1"
  "default_timeout (finish_in_flight c) = default_timeout c"
  by (simp_all add: finish_in_flight_def release_in_flight_def notify_if_down_def)

lemmas client_metric_defs = count_request_def set_cb_state_def

text \<open>The three ways \<open>classify\<close> ends, with everything it does in each.\<close>

definition good_status :: "status_code \<Rightarrow> bool" where
  "good_status s \<longleftrightarrow> is_success s \<or> is_redirection s"

definition transient_status :: "status_code \<Rightarrow> bool" where
  "transient_status s \<longleftrightarrow> s = 429 \<or> is_server_error s"

lemma status_classes_disjoint: "good_status s \<Longrightarrow> \<not> transient_status s"
  by (auto simp: good_status_def transient_status_def is_success_def is_redirection_def
      is_server_error_def word_le_nat_alt word_less_nat_alt)

lemma classify_cases:
  obtains
    (ok) resp where "outcome = Inr resp" "good_status (resp_status resp)"
      "classify t t' key meth limit outcome cb c =
        (Inr resp, record_success t cb, count_request key meth (dec_string (unat (resp_status resp))) ''ok'' c)"
  | (transient) m status err where
      "\<And>resp. outcome = Inr resp \<Longrightarrow> transient_status (resp_status resp)"
      "classify t t' key meth limit outcome cb c =
        (Inl (Transient m), record_failure t t' cb, count_request key meth status err c)"
  | (fatal) resp m where "outcome = Inr resp"
      "\<not> good_status (resp_status resp)" "\<not> transient_status (resp_status resp)"
      "classify t t' key meth limit outcome cb c =
        (Inl (Fatal m), record_success t cb,
         count_request key meth (dec_string (unat (resp_status resp))) ''client_error'' c)"
proof (cases outcome)
  case (Inl x)
  then show ?thesis by (cases x) (rule transient, auto simp: classify_def)+
next
  case (Inr resp)
  consider "good_status (resp_status resp)" | "\<not> good_status (resp_status resp)" "transient_status (resp_status resp)"
    | "\<not> good_status (resp_status resp)" "\<not> transient_status (resp_status resp)" by blast
  then show ?thesis
  proof cases
    case 1
    then show ?thesis using Inr by (intro ok) (simp_all add: classify_def good_status_def Let_def)
  next
    case 2
    then show ?thesis using Inr
      by (cases "resp_status resp = 429")
        (rule transient, auto simp: classify_def good_status_def transient_status_def Let_def)+
  next
    case 3
    then show ?thesis using Inr
      by (intro fatal) (simp_all add: classify_def good_status_def transient_status_def Let_def)
  qed
qed

text \<open>The three ways \<open>send_gates\<close> ends.\<close>

lemma send_gates_cases:
  fixes G :: "'l direct_limiter" and e :: "'l send_env" and req :: outbound_request
    and c :: "'l http_client"
  defines "pol \<equiv> fst (policy_for G (env_created e) (req_target req) c)"
  obtains
    (circuit_open) cb where "allow_request (env_allow e) (ps_breaker pol) = (False, cb)"
      "send_gates G e req c =
        (Inl (Transient (''circuit breaker open for '' @ req_target req)),
         c\<lparr>policies := (policies c)(req_target req \<mapsto> pol\<lparr>ps_breaker := cb\<rparr>),
           metrics := metrics c @
             [SetGauge ''outbound_circuit_breaker_state'' [req_target req]
                (f64_of_nat (unat (cb_state_as_u8 (cb_state_of cb)))),
              Inc ''outbound_requests_total''
                [req_target req, req_method req, ''0'', ''circuit_breaker_open'']]\<rparr>)"
  | (limited) cb l where "allow_request (env_allow e) (ps_breaker pol) = (True, cb)"
      "rl_check G (env_limiter e) (ps_limiter pol) = (False, l)"
      "send_gates G e req c =
        (Inl (Transient (''rate limited (local) for '' @ req_target req)),
         c\<lparr>policies := (policies c)(req_target req \<mapsto> pol\<lparr>ps_breaker := cb, ps_limiter := l\<rparr>),
           metrics := metrics c @
             [Inc ''outbound_requests_total''
                [req_target req, req_method req, ''0'', ''rate_limited'']]\<rparr>)"
  | (admitted) cb l where "allow_request (env_allow e) (ps_breaker pol) = (True, cb)"
      "rl_check G (env_limiter e) (ps_limiter pol) = (True, l)"
      "send_gates G e req c =
        (Inr (pol\<lparr>ps_breaker := cb, ps_limiter := l\<rparr>),
         c\<lparr>policies := (policies c)(req_target req \<mapsto> pol\<lparr>ps_breaker := cb, ps_limiter := l\<rparr>),
           in_flight := in_flight c + 1\<rparr>)"
proof -
  obtain ok cb where allow: "allow_request (env_allow e) (ps_breaker pol) = (ok, cb)" by fastforce
  obtain chk l where check: "rl_check G (env_limiter e) (ps_limiter pol) = (chk, l)" by fastforce
  note pol = policy_for_eq [of G "env_created e" "req_target req" c, folded pol_def]
  note defs = send_gates_def Let_def pol allow check client_metric_defs emit_def put_policy_def
  consider "\<not> ok" | "ok" "\<not> chk" | "ok" "chk" by blast
  then show thesis
  proof cases
    case 1
    then show thesis using allow by (intro circuit_open) (simp_all add: defs)
  next
    case 2
    then show thesis using allow check by (intro limited) (simp_all add: defs)
  next
    case 3
    then show thesis using allow check by (intro admitted) (simp_all add: defs)
  qed
qed

lemma send_record_cases:
  fixes c :: "'l http_client"
  assumes "send_record e req p0 limit outcome c = (result, c')"
  obtains p cb d where
    "p = (case policies c (req_target req) of Some p \<Rightarrow> p | None \<Rightarrow> p0)"
    "classify (env_record e) (env_open e) (req_target req) (req_method req) limit outcome (ps_breaker p)
      (emit (Observe ''outbound_request_duration_seconds'' [req_target req, req_method req] (env_elapsed e)) c)
      = (result, cb, d)"
    "c' = set_cb_state (req_target req) (cb_state_of cb)
      (put_policy (req_target req) (p\<lparr>ps_breaker := cb\<rparr>) d)"
proof -
  let ?p = "case policies c (req_target req) of Some p \<Rightarrow> p | None \<Rightarrow> p0"
  obtain r cb d where k: "classify (env_record e) (env_open e) (req_target req) (req_method req) limit outcome (ps_breaker ?p)
      (emit (Observe ''outbound_request_duration_seconds'' [req_target req, req_method req] (env_elapsed e)) c)
      = (r, cb, d)" by (metis prod_cases3)
  with assms have "r = result" "c' = set_cb_state (req_target req) (cb_state_of cb)
      (put_policy (req_target req) (?p\<lparr>ps_breaker := cb\<rparr>) d)"
    by (simp_all add: send_record_def Let_def)
  with k that show thesis by blast
qed

lemma classify_client:
  assumes "classify t t' key meth limit outcome cb c = (result, cb', c')"
  obtains status err where "c' = count_request key meth status err c"
  by (rule classify_cases [of outcome t t' key meth limit cb c]) (use assms in auto)

lemma send_record_client:
  assumes "send_record e req p0 limit outcome c = (result, c')"
  obtains p status err v where
    "c' = c\<lparr>policies := (policies c)(req_target req \<mapsto> p),
       metrics := metrics c @
        [Observe ''outbound_request_duration_seconds'' [req_target req, req_method req] (env_elapsed e),
         Inc ''outbound_requests_total'' [req_target req, req_method req, status, err],
         SetGauge ''outbound_circuit_breaker_state'' [req_target req] v]\<rparr>"
proof (rule send_record_cases [OF assms])
  fix p cb d
  assume "classify (env_record e) (env_open e) (req_target req) (req_method req) limit outcome (ps_breaker p)
      (emit (Observe ''outbound_request_duration_seconds'' [req_target req, req_method req] (env_elapsed e)) c)
      = (result, cb, d)"
    and c': "c' = set_cb_state (req_target req) (cb_state_of cb)
      (put_policy (req_target req) (p\<lparr>ps_breaker := cb\<rparr>) d)"
  then obtain status err where "d = count_request (req_target req) (req_method req) status err
    (emit (Observe ''outbound_request_duration_seconds'' [req_target req, req_method req] (env_elapsed e)) c)"
    by (elim classify_client)
  with c' have "c' = c\<lparr>policies := (policies c)(req_target req \<mapsto> p\<lparr>ps_breaker := cb\<rparr>),
       metrics := metrics c @
        [Observe ''outbound_request_duration_seconds'' [req_target req, req_method req] (env_elapsed e),
         Inc ''outbound_requests_total'' [req_target req, req_method req, status, err],
         SetGauge ''outbound_circuit_breaker_state'' [req_target req]
           (f64_of_nat (unat (cb_state_as_u8 (cb_state_of cb))))]\<rparr>"
    by (simp add: client_metric_defs emit_def put_policy_def)
  then show thesis by (rule that)
qed

section \<open>Properties\<close>

text \<open>
  C19 The verdict on an outcome: success exactly for 2xx and 3xx responses, fatal exactly for the
  responses that are neither good, nor 429, nor 5xx, and transient for 429, 5xx and every
  failure to get a response.  The breaker records a failure exactly when the verdict is
  transient, so a client error counts as a sign of a healthy target; and the outcome is counted
  once in \<open>outbound_requests_total\<close>.
\<close>

theorem classify_verdict:
  assumes "classify t t' key meth limit outcome cb c = (result, cb', c')"
  shows "((\<exists>resp. result = Inr resp) \<longleftrightarrow> (\<exists>resp. outcome = Inr resp \<and> good_status (resp_status resp))) \<and>
    ((\<exists>m. result = Inl (Fatal m)) \<longleftrightarrow>
      (\<exists>resp. outcome = Inr resp \<and> \<not> good_status (resp_status resp) \<and> \<not> transient_status (resp_status resp))) \<and>
    cb' = (if \<exists>m. result = Inl (Transient m) then record_failure t t' cb else record_success t cb) \<and>
    (\<forall>resp. result = Inr resp \<longrightarrow> outcome = Inr resp) \<and>
    counter_total ''outbound_requests_total'' (metrics c') =
      counter_total ''outbound_requests_total'' (metrics c) + 1"
  by (rule classify_cases [of outcome t t' key meth limit cb c])
    (use assms in \<open>auto simp: count_request_def dest: status_classes_disjoint\<close>)

definition sample_breaker :: circuit_breaker where
  "sample_breaker = cb_new default_cb_threshold 2 (duration_from_secs 10) (duration_from_secs 30) 0"

definition sample_client :: "unit http_client" where
  "sample_client =
     \<lparr>policies = [''api'' \<mapsto> \<lparr>ps_limiter = (), ps_breaker = sample_breaker,
        ps_config = (target_fallback ''api'')\<lparr>otc_retry_max_attempts := 3\<rparr>\<rparr>],
      default_timeout = duration_from_millis 5000, metrics = [], is_shutting_down = False,
      in_flight = 0, wakeups = 0\<rparr>"

theorem classify_verdict_witness:
  "\<exists>m cb' c'. classify 0 0 ''api'' ''GET'' 0 (Inr \<lparr>resp_status = 404, resp_headers = [], resp_body = []\<rparr>)
      sample_breaker sample_client = (Inl (Fatal m), cb', c') \<and> cb' = record_success 0 sample_breaker"
proof -
  let ?o = "Inr \<lparr>resp_status = 404, resp_headers = [], resp_body = []\<rparr>"
  obtain r cb' c' where k: "classify 0 0 ''api'' ''GET'' 0 ?o sample_breaker sample_client = (r, cb', c')"
    by (metis prod_cases3)
  have "\<not> good_status 404 \<and> \<not> transient_status 404"
    by (simp add: good_status_def transient_status_def is_success_def is_redirection_def is_server_error_def)
  with classify_verdict [OF k] k show ?thesis by auto
qed

text \<open>
  No failure of the transport is fatal: a time-out, a refused connection and every other
  \<open>reqwest\<close> error (a TLS failure, an invalid URL) come back transient, are recorded as a failure
  of the target and are therefore retried.
\<close>

theorem transport_errors_transient:
  assumes "send_admit G e req c = (Inr p, c1)"
    and "execute (env_transport e) req (target_timeout (ps_config p) (default_timeout c1)) = Inl x"
  shows "\<exists>m. fst (send G e req c) = Inl (Transient m)"
proof -
  let ?t = "target_timeout (ps_config p) (default_timeout c1)"
  let ?r = "send_record e req p ?t (Inl x) (env_others e c1)"
  obtain r c2 where k: "?r = (r, c2)" by fastforce
  then have "\<exists>m. r = Inl (Transient m)"
  proof (rule send_record_cases)
    fix q cb d
    assume cl: "classify (env_record e) (env_open e) (req_target req) (req_method req) ?t (Inl x) (ps_breaker q)
      (emit (Observe ''outbound_request_duration_seconds'' [req_target req, req_method req] (env_elapsed e))
        (env_others e c1)) = (r, cb, d)"
    show ?thesis
      by (rule classify_cases [of "Inl x" "env_record e" "env_open e" "req_target req" "req_method req" ?t
          "ps_breaker q" "emit (Observe ''outbound_request_duration_seconds'' [req_target req, req_method req]
            (env_elapsed e)) (env_others e c1)"]) (use cl in auto)
  qed
  then show ?thesis using assms k by (simp add: send_def send_complete_def Let_def)
qed


definition sample_limiter :: "unit direct_limiter" where
  "sample_limiter = \<lparr>rl_direct = (\<lambda>n. ()), rl_check = (\<lambda>t l. (True, l))\<rparr>"

definition sample_env :: "reply \<Rightarrow> unit send_env" where
  "sample_env r =
     \<lparr>env_created = 0, env_allow = 0, env_limiter = 0, env_transport = (\<lambda>w t. r),
      env_others = (\<lambda>c. c), env_elapsed = Fin 0, env_record = 0, env_open = 0\<rparr>"

definition sample_request :: outbound_request where
  "sample_request = outbound_request_get (''api'') ''http://api.local/items''"

lemma sample_env_fields:
  "env_transport (sample_env r) = (\<lambda>w t. r)" "env_others (sample_env r) = (\<lambda>c. c)"
  by (simp_all add: sample_env_def)

lemmas sample_defs = sample_client_def sample_limiter_def sample_env_def sample_request_def
  outbound_request_get_def outbound_request_new_def

lemma sample_allows: "allow_request 0 sample_breaker = (True, sample_breaker)"
  by (simp add: sample_breaker_def cb_new_def allow_request_def cb_state_of_def cb_state_from_def Let_def)

lemma sample_admitted:
  "\<exists>c. send_admit sample_limiter (sample_env r) sample_request sample_client =
    (Inr (the (policies sample_client ''api'')), c) \<and> default_timeout c = duration_from_millis 5000"
  by (simp add: sample_defs send_admit_def send_gates_def policy_for_def Let_def put_policy_def sample_allows)

theorem transport_errors_transient_witness:
  "\<exists>m. fst (send sample_limiter (sample_env (SendError False False ''builder error''))
      sample_request sample_client) = Inl (Transient m)"
proof -
  let ?e = "sample_env (SendError False False ''builder error'')"
  have x: "execute (env_transport ?e) r t = Inl (ExecOther ''builder error'')" for r t
    by (simp add: execute_def sample_env_def)
  show ?thesis using sample_admitted transport_errors_transient [OF _ x] by blast
qed

text \<open>
  C20 Fail fast: while the breaker of the target is open and its half-open timeout has not
  elapsed, \<open>send\<close> answers a transient error whatever the transport would do, leaves the limiter,
  the breaker and every other policy as they were, does not enter the in-flight count, and
  counts the rejection.
\<close>

theorem open_target_fails_fast:
  assumes "\<not> is_shutting_down c" "policies c (req_target req) = Some p"
    and "cb_state_of (ps_breaker p) = Open"
    and "unat (now_ms (env_allow e)) - unat (opened_at_ms (ps_breaker p))
      < unat (half_open_timeout_ms (ps_breaker p))"
  shows "fst (send G e req c) = Inl (Transient (''circuit breaker open for '' @ req_target req)) \<and>
    policies (snd (send G e req c)) = policies c \<and>
    in_flight (snd (send G e req c)) = in_flight c \<and>
    send G (e\<lparr>env_transport := tr\<rparr>) req c = send G e req c \<and>
    counter_value ''outbound_requests_total'' [req_target req, req_method req, ''0'', ''circuit_breaker_open'']
      (metrics (snd (send G e req c))) =
    counter_value ''outbound_requests_total'' [req_target req, req_method req, ''0'', ''circuit_breaker_open'']
      (metrics c) + 1"
  using assms(1,2) allow_request_open [OF assms(3,4)]
  by (simp add: send_def send_admit_def send_gates_def policy_for_def Let_def client_metric_defs map_upd_triv)

definition sample_open_client :: "unit http_client" where
  "sample_open_client = sample_client\<lparr>policies :=
     [''api'' \<mapsto> (the (policies sample_client ''api''))\<lparr>ps_breaker := open_circuit 5000000 sample_breaker\<rparr>]\<rparr>"

theorem open_target_fails_fast_witness:
  "fst (send sample_limiter ((sample_env Elapsed)\<lparr>env_allow := 9000000\<rparr>) sample_request sample_open_client)
     = Inl (Transient ''circuit breaker open for api'')"
proof -
  have "fst (send sample_limiter ((sample_env Elapsed)\<lparr>env_allow := 9000000\<rparr>) sample_request sample_open_client)
     = Inl (Transient (''circuit breaker open for '' @ req_target sample_request))"
    by (rule open_target_fails_fast
        [where p = "the (policies sample_open_client ''api'')", THEN conjunct1])
      (simp_all add: sample_open_client_def sample_defs sample_breaker_def open_circuit_def cb_new_def
        cb_state_of_def cb_state_from_def now_ms_def since_epoch_def as_millis_u64_def duration_from_secs_def)
  then show ?thesis by (simp add: sample_defs)
qed

section \<open>Retries\<close>

text \<open>The client as the \<open>n\<close>-th attempt of the retry loop finds it, if the loop gets there.\<close>

primrec attempt_state ::
  "'l direct_limiter \<Rightarrow> (nat \<Rightarrow> 'l retry_env) \<Rightarrow> outbound_request \<Rightarrow> 'l http_client \<Rightarrow> nat \<Rightarrow> 'l http_client" where
  "attempt_state G E req c 0 = c"
| "attempt_state G E req c (Suc n) =
     re_others (E n) (emit (Inc ''outbound_retry_attempts_total'' [req_target req])
       (snd (send G (re_send (E n)) req (attempt_state G E req c n))))"

abbreviation attempt_result ::
  "'l direct_limiter \<Rightarrow> (nat \<Rightarrow> 'l retry_env) \<Rightarrow> outbound_request \<Rightarrow> 'l http_client \<Rightarrow> nat \<Rightarrow>
   (outbound_error + http_response) \<times> 'l http_client" where
  "attempt_result G E req c n \<equiv> send G (re_send (E n)) req (attempt_state G E req c n)"

text \<open>The loop from attempt \<open>a\<close> on, given that it got there.\<close>

definition loop_spec ::
  "'l direct_limiter \<Rightarrow> (nat \<Rightarrow> 'l retry_env) \<Rightarrow> outbound_request \<Rightarrow> 'l http_client \<Rightarrow> nat \<Rightarrow> u64 \<Rightarrow> u64 \<Rightarrow>
   nat \<Rightarrow> nat \<Rightarrow> (outbound_error + http_response) \<times> duration list \<times> 'l http_client \<Rightarrow> bool" where
  "loop_spec G E req c mx base cap a n out \<longleftrightarrow>
     a \<le> n \<and> n \<le> mx \<and>
     out = (fst (attempt_result G E req c n),
       map (\<lambda>k. full_jitter (re_rng (E k)) (of_nat (Suc k)) base cap) [a..<n],
       snd (attempt_result G E req c n)) \<and>
     (\<forall>k. a \<le> k \<and> k < n \<longrightarrow> (\<exists>m. fst (attempt_result G E req c k) = Inl (Transient m))) \<and>
     (n = mx \<or> (\<nexists>m. fst (attempt_result G E req c n) = Inl (Transient m)))"

lemma loop_spec_here:
  assumes "send G (re_send (E a)) req (attempt_state G E req c a) = (r, c')" "a \<le> mx"
    and "a = mx \<or> (\<nexists>m. r = Inl (Transient m))"
  shows "loop_spec G E req c mx base cap a a (r, [], c')"
  using assms by (auto simp: loop_spec_def)

lemma loop_spec_next:
  assumes "loop_spec G E req c mx base cap (Suc a) n (r, ds, c')"
    and "fst (attempt_result G E req c a) = Inl (Transient m)"
  shows "loop_spec G E req c mx base cap a n
    (r, full_jitter (re_rng (E a)) (of_nat (Suc a)) base cap # ds, c')"
proof -
  from assms(1) have "[a..<n] = a # [Suc a..<n]" by (simp add: loop_spec_def upt_conv_Cons)
  moreover have "\<exists>m. fst (attempt_result G E req c k) = Inl (Transient m)" if "a \<le> k" "k < n" for k
    using that assms by (cases "k = a") (auto simp: loop_spec_def)
  ultimately show ?thesis using assms(1) by (auto simp: loop_spec_def)
qed

lemma retry_loop_spec:
  assumes "attempt \<le> mx"
  shows "\<exists>n. loop_spec G E req c (unat mx) base cap (unat attempt) n
    (retry_loop G E req mx base cap attempt (attempt_state G E req c (unat attempt)))"
  using assms
proof (induction "unat mx - unat attempt" arbitrary: attempt rule: less_induct)
  case less
  let ?a = "unat attempt"
  obtain r c' where s: "attempt_result G E req c ?a = (r, c')" by fastforce
  note step = retry_loop.simps [of G E req mx base cap attempt "attempt_state G E req c ?a"]
  show ?case
  proof (cases "(\<exists>m. r = Inl (Transient m)) \<and> \<not> mx \<le> attempt")
    case True
    then obtain m where m: "r = Inl (Transient m)" by blast
    have dec: "unat mx - unat (attempt + 1) < unat mx - ?a" using True by (intro attempt_decreases) simp
    have up: "unat (attempt + 1) = Suc ?a" "attempt + 1 \<le> mx"
      using True dec unat_word_ariths(1) [of attempt 1] unsigned_less [of mx] unsigned_less [of attempt]
      by (simp_all add: unat_inc word_le_nat_alt)
    obtain r1 ds c1 where rest: "retry_loop G E req mx base cap (attempt + 1)
        (attempt_state G E req c (Suc ?a)) = (r1, ds, c1)" by (metis prod_cases3)
    have "\<exists>n. loop_spec G E req c (unat mx) base cap (Suc ?a) n (r1, ds, c1)"
      using less.hyps [OF dec up(2)] by (simp only: up(1) rest)
    moreover have "retry_loop G E req mx base cap attempt (attempt_state G E req c ?a) =
        (r1, full_jitter (re_rng (E ?a)) (of_nat (Suc ?a)) base cap # ds, c1)"
      using True s m rest by (subst step) (simp add: Let_def add.commute)
    ultimately show ?thesis using loop_spec_next s m by (metis fst_conv)
  next
    case False
    then have "retry_loop G E req mx base cap attempt (attempt_state G E req c ?a) = (r, [], c')"
      using s by (subst step) (auto simp: Let_def is_fatal_iff is_transient_def split: sum.split outbound_error.splits)
    moreover have "loop_spec G E req c (unat mx) base cap ?a ?a (r, [], c')"
      using s less.prems False by (intro loop_spec_here) (auto simp: word_le_nat_alt)
    ultimately show ?thesis by auto
  qed
qed


abbreviation retry_config ::
  "'l direct_limiter \<Rightarrow> sys_time \<Rightarrow> outbound_request \<Rightarrow> 'l http_client \<Rightarrow> outbound_target_config" where
  "retry_config G t req c \<equiv> ps_config (fst (policy_for G t (req_target req) c))"

abbreviation retry_start ::
  "'l direct_limiter \<Rightarrow> sys_time \<Rightarrow> outbound_request \<Rightarrow> 'l http_client \<Rightarrow> 'l http_client" where
  "retry_start G t req c \<equiv> snd (policy_for G t (req_target req) c)"

lemma retry_outcome:
  obtains n where "loop_spec G E req (retry_start G t req c) (unat (otc_retry_max_attempts (retry_config G t req c)))
    (otc_retry_base_ms (retry_config G t req c)) (otc_retry_cap_ms (retry_config G t req c)) 0 n
    (send_with_retry G t E req c)"
proof -
  let ?cfg = "retry_config G t req c"
  obtain p c0 where pf: "policy_for G t (req_target req) c = (p, c0)" by fastforce
  show thesis
    using that retry_loop_spec [of 0 "otc_retry_max_attempts ?cfg" G E req c0 "otc_retry_base_ms ?cfg"
        "otc_retry_cap_ms ?cfg"] by (auto simp: send_with_retry_def pf)
qed

text \<open>
  C3 What \<open>send_with_retry\<close> does: it makes attempts \<open>0..n\<close> for some \<open>n\<close> up to the target's
  \<open>retry_max_attempts\<close> (so at most one more send than that), all but the last of which failed
  transiently; it returns the last attempt's result, stops early only on a success or a fatal
  error, and sleeps a full-jitter delay with the growing retry number before each retry.  It
  always returns.
\<close>

theorem send_with_retry_spec:
  "\<exists>n. n \<le> unat (otc_retry_max_attempts (retry_config G t req c)) \<and>
    send_with_retry G t E req c =
      (fst (attempt_result G E req (retry_start G t req c) n),
       map (\<lambda>k. full_jitter (re_rng (E k)) (of_nat (Suc k)) (otc_retry_base_ms (retry_config G t req c))
         (otc_retry_cap_ms (retry_config G t req c))) [0..<n],
       snd (attempt_result G E req (retry_start G t req c) n)) \<and>
    (\<forall>k. k < n \<longrightarrow> (\<exists>m. fst (attempt_result G E req (retry_start G t req c) k) = Inl (Transient m))) \<and>
    (n = unat (otc_retry_max_attempts (retry_config G t req c)) \<or>
     (\<nexists>m. fst (attempt_result G E req (retry_start G t req c) n) = Inl (Transient m)))"
proof (rule retry_outcome [of G E req t c])
  fix n
  assume "loop_spec G E req (retry_start G t req c) (unat (otc_retry_max_attempts (retry_config G t req c)))
    (otc_retry_base_ms (retry_config G t req c)) (otc_retry_cap_ms (retry_config G t req c)) 0 n
    (send_with_retry G t E req c)"
  then show ?thesis by (intro exI [of _ n]) (simp add: loop_spec_def)
qed

lemma retry_sleep_le:
  assumes "\<forall>n. in_range (re_rng (E n))"
    and "unat (otc_retry_cap_ms (retry_config G t req c)) \<le> 2 ^ 53"
  shows "length (fst (snd (send_with_retry G t E req c)))
      \<le> unat (otc_retry_max_attempts (retry_config G t req c)) \<and>
    sum_list (fst (snd (send_with_retry G t E req c)))
      \<le> unat (otc_retry_max_attempts (retry_config G t req c)) *
        duration_from_millis (otc_retry_cap_ms (retry_config G t req c))"
proof -
  let ?p = "retry_config G t req c"
  let ?f = "\<lambda>k. full_jitter (re_rng (E k)) (of_nat (Suc k)) (otc_retry_base_ms ?p) (otc_retry_cap_ms ?p)"
  obtain n where n: "n \<le> unat (otc_retry_max_attempts ?p)"
    "fst (snd (send_with_retry G t E req c)) = map ?f [0..<n]"
    by (rule retry_outcome [of G E req t c]) (auto simp: loop_spec_def)
  have f: "?f k \<le> duration_from_millis (otc_retry_cap_ms ?p)" for k
    using assms by (intro full_jitter_le_cap) auto
  have "sum_list (map ?f [0..<n]) \<le> n * duration_from_millis (otc_retry_cap_ms ?p)"
  proof (induction n)
    case (Suc n)
    then show ?case using f [of n] by simp
  qed simp
  also have "\<dots> \<le> unat (otc_retry_max_attempts ?p) * duration_from_millis (otc_retry_cap_ms ?p)"
    using n(1) by (rule mult_right_mono) simp
  finally show ?thesis using n by simp
qed

text \<open>
  The time a retried call can spend asleep is bounded: at most \<open>retry_max_attempts\<close> sleeps, each
  of at most \<open>retry_cap_ms\<close> (up to \<open>2^53\<close> ms), given a random number generator that keeps to
  its range.
\<close>

theorem retry_sleep_bounded:
  assumes "\<forall>n. in_range (re_rng (E n))"
    and "unat (otc_retry_cap_ms (retry_config G t req c)) \<le> 2 ^ 53"
  shows "length (fst (snd (send_with_retry G t E req c)))
      \<le> unat (otc_retry_max_attempts (retry_config G t req c)) \<and>
    sum_list (fst (snd (send_with_retry G t E req c)))
      \<le> unat (otc_retry_max_attempts (retry_config G t req c)) *
        duration_from_millis (otc_retry_cap_ms (retry_config G t req c))"
  using assms by (rule retry_sleep_le)

definition sample_retries :: "reply \<Rightarrow> nat \<Rightarrow> unit retry_env" where
  "sample_retries r n = \<lparr>re_send = sample_env r, re_rng = (\<lambda>c. c div 2), re_others = (\<lambda>c. c)\<rparr>"

theorem retry_sleep_bounded_witness:
  "sum_list (fst (snd (send_with_retry sample_limiter 0 (sample_retries Elapsed) sample_request sample_client)))
     \<le> 90000000000"
proof -
  have cfg: "retry_config sample_limiter 0 sample_request sample_client =
      (target_fallback ''api'')\<lparr>otc_retry_max_attempts := 3\<rparr>"
    by (simp add: sample_defs policy_for_def)
  have "\<forall>n. in_range (re_rng (sample_retries Elapsed n))"
    by (simp add: sample_retries_def in_range_def word_le_nat_alt unat_div)
  from retry_sleep_bounded [OF this, of sample_limiter 0 sample_request sample_client] show ?thesis
    by (simp add: cfg target_fallback_def outbound_target_config_default_def client_defaults duration_from_millis_def)
qed

definition sample_404 :: reply where
  "sample_404 = Reply \<lparr>resp_status = 404, resp_headers = [], resp_body = []\<rparr>"

lemma sample_fatal:
  "\<exists>m. fst (send sample_limiter (sample_env sample_404) sample_request sample_client) = Inl (Fatal m)"
proof -
  obtain c where "send_admit sample_limiter (sample_env sample_404) sample_request sample_client =
      (Inr (the (policies sample_client ''api'')), c)" using sample_admitted by blast
  then show ?thesis
    by (simp add: send_def execute_def send_complete_def send_record_def classify_def Let_def sample_404_def
        sample_env_fields is_success_def is_redirection_def is_server_error_def)
qed

theorem send_with_retry_spec_witness:
  "fst (snd (send_with_retry sample_limiter 0 (sample_retries sample_404) sample_request sample_client)) = []"
proof -
  have start: "retry_start sample_limiter 0 sample_request sample_client = sample_client"
    by (simp add: sample_defs policy_for_def)
  let ?r = "send_with_retry sample_limiter 0 (sample_retries sample_404) sample_request sample_client"
  have "\<exists>n. length (fst (snd ?r)) = n \<and> (0 < n \<longrightarrow>
      (\<exists>m. fst (attempt_result sample_limiter (sample_retries sample_404) sample_request
        (retry_start sample_limiter 0 sample_request sample_client) 0) = Inl (Transient m)))"
    using send_with_retry_spec [of sample_limiter 0 sample_request sample_client "sample_retries sample_404"]
    by (elim ex_forward conjE) (intro conjI, simp, blast)
  then show ?thesis using sample_fatal by (auto simp: start sample_retries_def)
qed

section \<open>Policies of a new client\<close>

lemma client_policies_get:
  "client_policies G ts targets name =
     map_of (rev (map (\<lambda>(i, tgt). (otc_name tgt, policy_from_config G (ts i) tgt)) (enumerate 0 targets))) name"
  using hash.get_ins_all [of "map (\<lambda>(i, tgt). (otc_name tgt, policy_from_config G (ts i) tgt)) (enumerate 0 targets)" Map.empty name]
  by (simp add: client_policies_def hash.ins_all_def split: option.splits)

lemma client_new_policies:
  "client_new G build ts cfg = Inr c \<Longrightarrow> policies c = client_policies G ts (cc_outbound_targets cfg)"
  by (auto simp: client_new_def split: option.splits)

text \<open>
  A new client enforces the configured policy of every target: a configured name has the policy
  of the last target with that name, any other name has none until it is used; then
  \<open>policy_for\<close> creates the default policy once, and every later call, whatever the
  clock reads, shares that one and changes nothing.
\<close>

theorem client_policy_lookup:
  assumes "client_new G build ts cfg = Inr c"
  shows "(\<forall>i < length (cc_outbound_targets cfg).
      (\<forall>j. i < j \<and> j < length (cc_outbound_targets cfg) \<longrightarrow>
        otc_name (cc_outbound_targets cfg ! j) \<noteq> otc_name (cc_outbound_targets cfg ! i)) \<longrightarrow>
      policies c (otc_name (cc_outbound_targets cfg ! i)) =
        Some (policy_from_config G (ts i) (cc_outbound_targets cfg ! i))) \<and>
    (name \<notin> otc_name ` set (cc_outbound_targets cfg) \<longrightarrow>
      fst (policy_for G t name c) = policy_from_config G t (target_fallback name)) \<and>
    policy_for G t' name (snd (policy_for G t name c)) = policy_for G t name c"
proof -
  let ?ts = "cc_outbound_targets cfg"
  define kvs where "kvs = map (\<lambda>(i, tgt). (otc_name tgt, policy_from_config G (ts i) tgt)) (enumerate 0 ?ts)"
  have pol: "policies c k = map_of (rev kvs) k" for k
    using client_new_policies [OF assms] by (simp add: client_policies_get kvs_def)
  have len: "length kvs = length ?ts" by (simp add: kvs_def)
  have nth: "kvs ! i = (otc_name (?ts ! i), policy_from_config G (ts i) (?ts ! i))" if "i < length ?ts" for i
    using that by (simp add: kvs_def nth_enumerate_eq)
  have "policies c (otc_name (?ts ! i)) = Some (policy_from_config G (ts i) (?ts ! i))"
    if "i < length ?ts" "\<forall>j. i < j \<and> j < length ?ts \<longrightarrow> otc_name (?ts ! j) \<noteq> otc_name (?ts ! i)" for i
    using map_of_rev_last [of i kvs] that by (simp add: pol nth len)
  moreover have "fst (policy_for G t name c) = policy_from_config G t (target_fallback name)"
    if "name \<notin> otc_name ` set ?ts"
  proof -
    have "fst ` set kvs = otc_name ` set ?ts"
      using nth len by (force simp: in_set_conv_nth image_iff)
    with that have "policies c name = None" unfolding pol by (simp add: map_of_eq_None_iff)
    then show ?thesis by (simp add: policy_for_def Let_def)
  qed
  moreover have "policy_for G t' name (snd (policy_for G t name c)) = policy_for G t name c"
    using policy_for_stored [of G t name c] by (subst policy_for_def) (simp add: prod_eq_iff)
  ultimately show ?thesis by blast
qed

theorem client_policy_lookup_witness:
  "\<exists>c. client_new \<lparr>rl_direct = (\<lambda>n. n), rl_check = (\<lambda>t l. (True, l))\<rparr> (\<lambda>b. None) (\<lambda>i. int i)
      (client_config_default\<lparr>cc_outbound_targets :=
        [(target_fallback ''a'')\<lparr>otc_rate_limit := 5\<rparr>, (target_fallback ''a'')\<lparr>otc_rate_limit := 0\<rparr>]\<rparr>) = Inr c \<and>
    map_option ps_limiter (policies c ''a'') = Some 1"
proof -
  let ?G = "\<lparr>rl_direct = (\<lambda>n. n), rl_check = (\<lambda>t l. (True, l))\<rparr> :: u32 direct_limiter"
  let ?cfg = "client_config_default\<lparr>cc_outbound_targets :=
    [(target_fallback ''a'')\<lparr>otc_rate_limit := 5\<rparr>, (target_fallback ''a'')\<lparr>otc_rate_limit := 0\<rparr>]\<rparr>"
  obtain c where c: "client_new ?G (\<lambda>b. None) (\<lambda>i. int i) ?cfg = Inr c"
    by (simp add: client_new_def)
  have "policies c (otc_name (cc_outbound_targets ?cfg ! 1)) =
      Some (policy_from_config ?G (int 1) (cc_outbound_targets ?cfg ! 1))"
    by (rule client_policy_lookup [OF c, THEN conjunct1, rule_format]) auto
  with c show ?thesis by (simp add: policy_from_config_def target_fallback_def)
qed

end
