(* ===== verification/Client_Lifecycle.thy ===== *)
theory Client_Lifecycle
  imports Resilient_Client Transition_Systems
begin

text \<open>
  Any number of concurrent \<open>send\<close> calls and \<open>shutdown\<close> calls on one client
  (\<open>crates/resilient-client/src/client.rs\<close>).  Each call is a task that moves through the
  points between its accesses to the shared fields; a step relation interleaves them in every
  order, and a caller may drop the future of a \<open>send\<close> that waits for its response.  The
  accesses of one passage through the policies (\<open>send_gates\<close>) and of one recording of an
  outcome (\<open>send_record\<close>) are a step each.
\<close>

section \<open>Tasks\<close>

type_synonym send_result = "outbound_error + http_response"

datatype 'l send_task =
    New "'l send_env" outbound_request
  | Passed "'l send_env" outbound_request
  | Awaiting "'l send_env" outbound_request "'l policy_set"
  | Recorded send_result
  | LastOut send_result
  | Returned send_result
  | Dropped

fun send_step ::
  "'l direct_limiter \<Rightarrow> 'l send_task \<Rightarrow> 'l http_client \<Rightarrow> ('l send_task \<times> 'l http_client) option" where
  "send_step G (New e req) c =
     Some (if is_shutting_down c then Returned (Inl (Transient ''client is shutting down''))
           else Passed e req, c)"
| "send_step G (Passed e req) c =
     (case send_gates G e req c of
        (Inl err, c) \<Rightarrow> Some (Returned (Inl err), c)
      | (Inr p, c) \<Rightarrow> Some (Awaiting e req p, c))"
| "send_step G (Awaiting e req p) c =
     (let limit = target_timeout (ps_config p) (default_timeout c);
          (r, c) = send_record e req p limit (execute (env_transport e) req limit) c
      in Some (Recorded r, c))"
| "send_step G (Recorded r) c =
     (let (old, c) = release_in_flight c in Some (if old = 1 then LastOut r else Returned r, c))"
| "send_step G (LastOut r) c = Some (Returned r, notify_if_down c)"
| "send_step G (Returned r) c = None"
| "send_step G Dropped c = None"

text \<open>
  \<open>shutdown\<close>: \<open>Registered n\<close> holds a waiter created when \<open>n\<close> notifications had been
  sent; it is woken by the next one.
\<close>

datatype shutdown_task =
    Called
  | Flagged
  | Busy
  | Registered nat
  | Waiting nat
  | Expired
  | Finished "shutdown_error + unit"

text \<open>The second argument says whether the time limit has elapsed, which only a waiting call observes.\<close>

fun shutdown_step ::
  "shutdown_task \<Rightarrow> bool \<Rightarrow> 'l http_client \<Rightarrow> (shutdown_task \<times> 'l http_client) option" where
  "shutdown_step Called elapsed c = Some (Flagged, c\<lparr>is_shutting_down := True\<rparr>)"
| "shutdown_step Flagged elapsed c = Some (if in_flight c = 0 then Finished (Inr ()) else Busy, c)"
| "shutdown_step Busy elapsed c = Some (Registered (wakeups c), c)"
| "shutdown_step (Registered n) elapsed c =
     Some (if in_flight c = 0 then Finished (Inr ()) else Waiting n, c)"
| "shutdown_step (Waiting n) elapsed c =
     (if n < wakeups c then Some (Finished (Inr ()), c)
      else if elapsed then Some (Expired, c) else None)"
| "shutdown_step Expired elapsed c = Some (Finished (Inl (ShutdownTimeout (in_flight c))), c)"
| "shutdown_step (Finished r) elapsed c = None"

record 'l life =
  client :: "'l http_client"
  sends :: "'l send_task list"
  shutdowns :: "shutdown_task list"

inductive life_step :: "'l direct_limiter \<Rightarrow> 'l life \<Rightarrow> 'l life \<Rightarrow> bool" for G where
  send: "i < length (sends s) \<Longrightarrow> send_step G (sends s ! i) (client s) = Some (t, c) \<Longrightarrow>
    life_step G s (s\<lparr>client := c, sends := (sends s)[i := t]\<rparr>)"
| drop: "i < length (sends s) \<Longrightarrow> sends s ! i = Awaiting e req p \<Longrightarrow>
    life_step G s (s\<lparr>sends := (sends s)[i := Dropped]\<rparr>)"
| shutdown: "i < length (shutdowns s) \<Longrightarrow>
    shutdown_step (shutdowns s ! i) elapsed (client s) = Some (t, c) \<Longrightarrow>
    life_step G s (s\<lparr>client := c, shutdowns := (shutdowns s)[i := t]\<rparr>)"

fun is_new :: "'l send_task \<Rightarrow> bool" where
  "is_new (New e req) = True"
| "is_new _ = False"

definition life_start :: "'l life \<Rightarrow> bool" where
  "life_start s \<longleftrightarrow>
     in_flight (client s) = 0 \<and> \<not> is_shutting_down (client s) \<and>
     list_all is_new (sends s) \<and>
     list_all (\<lambda>t. t = Called) (shutdowns s) \<and> length (sends s) < 2 ^ 64"

section \<open>What a task holds\<close>

text \<open>The tasks that have entered the in-flight count and not left it.\<close>

fun holds :: "'l send_task \<Rightarrow> bool" where
  "holds (Awaiting e req p) = True"
| "holds (Recorded r) = True"
| "holds Dropped = True"
| "holds _ = False"

fun last_out :: "'l send_task \<Rightarrow> bool" where
  "last_out (LastOut r) = True"
| "last_out _ = False"

definition holding :: "'l life \<Rightarrow> nat" where
  "holding s = length (filter holds (sends s))"

lemma holding_le: "holding s \<le> length (sends s)"
  by (simp add: holding_def)

text \<open>What one step of a \<open>send\<close> does to the fields that \<open>shutdown\<close> reads.\<close>

inductive send_effect :: "'l send_task \<Rightarrow> 'l http_client \<Rightarrow> 'l send_task \<Rightarrow> 'l http_client \<Rightarrow> bool" where
  enter: "\<not> holds t \<Longrightarrow> holds t' \<Longrightarrow> \<not> last_out t \<Longrightarrow> in_flight c' = in_flight c + 1 \<Longrightarrow>
    is_shutting_down c' = is_shutting_down c \<Longrightarrow> wakeups c' = wakeups c \<Longrightarrow> send_effect t c t' c'"
| leave: "holds t \<Longrightarrow> \<not> holds t' \<Longrightarrow> (last_out t' \<longleftrightarrow> in_flight c = 1) \<Longrightarrow>
    in_flight c' = in_flight c - 1 \<Longrightarrow>
    is_shutting_down c' = is_shutting_down c \<Longrightarrow> wakeups c' = wakeups c \<Longrightarrow> send_effect t c t' c'"
| notify: "last_out t \<Longrightarrow> \<not> holds t' \<Longrightarrow> \<not> last_out t' \<Longrightarrow> in_flight c' = in_flight c \<Longrightarrow>
    is_shutting_down c' = is_shutting_down c \<Longrightarrow>
    wakeups c' = wakeups c + (if is_shutting_down c then 1 else 0) \<Longrightarrow> send_effect t c t' c'"
| silent: "holds t' = holds t \<Longrightarrow> \<not> last_out t \<Longrightarrow> \<not> last_out t' \<Longrightarrow> in_flight c' = in_flight c \<Longrightarrow>
    is_shutting_down c' = is_shutting_down c \<Longrightarrow> wakeups c' = wakeups c \<Longrightarrow> send_effect t c t' c'"

lemma holds_not_last_out: "holds t \<Longrightarrow> \<not> last_out t"
  by (cases t) auto

lemma new_not_holds: "is_new t \<Longrightarrow> \<not> holds t \<and> \<not> last_out t"
  by (cases t) auto

lemma send_step_effect: "send_step G t c = Some (t', c') \<Longrightarrow> send_effect t c t' c'"
proof (cases t)
  case (New e req)
  assume "send_step G t c = Some (t', c')"
  with New show ?thesis by (intro silent) (auto split: if_splits)
next
  case (Passed e req)
  assume "send_step G t c = Some (t', c')"
  with Passed show ?thesis
    by (cases rule: send_gates_cases [where G = G and e = e and req = req and c = c]) (auto intro: enter silent)
next
  case (Awaiting e req p)
  let ?limit = "target_timeout (ps_config p) (default_timeout c)"
  assume step: "send_step G t c = Some (t', c')"
  obtain r d where rec: "send_record e req p ?limit (execute (env_transport e) req ?limit) c = (r, d)"
    by fastforce
  with step Awaiting have "t' = Recorded r" "c' = d" by (auto simp: Let_def)
  with rec Awaiting show ?thesis by (elim send_record_client) (auto intro: silent)
next
  case (Recorded r)
  assume "send_step G t c = Some (t', c')"
  with Recorded show ?thesis by (intro leave) (auto simp: release_in_flight_def split: if_splits)
next
  case (LastOut r)
  assume "send_step G t c = Some (t', c')"
  with LastOut show ?thesis by (intro notify) (auto simp: notify_if_down_def split: if_splits)
qed auto

section \<open>The invariant\<close>

definition last_out_pending :: "'l life \<Rightarrow> bool" where
  "last_out_pending s \<longleftrightarrow> list_ex last_out (sends s)"

fun shutdown_inv :: "bool \<Rightarrow> 'l http_client \<Rightarrow> shutdown_task \<Rightarrow> bool" where
  "shutdown_inv lo c Called = True"
| "shutdown_inv lo c (Registered n) = (is_shutting_down c \<and> n \<le> wakeups c)"
| "shutdown_inv lo c (Waiting n) =
     (is_shutting_down c \<and> n \<le> wakeups c \<and> (n < wakeups c \<or> in_flight c \<noteq> 0 \<or> lo))"
| "shutdown_inv lo c _ = is_shutting_down c"

definition life_inv :: "'l life \<Rightarrow> bool" where
  "life_inv s \<longleftrightarrow>
     length (sends s) < 2 ^ 64 \<and> unat (in_flight (client s)) = holding s \<and>
     list_all (shutdown_inv (last_out_pending s) (client s)) (shutdowns s)"

lemma holding_update:
  assumes "i < length (sends s)"
  shows "holding (s\<lparr>client := c, sends := (sends s)[i := t]\<rparr>) + (if holds (sends s ! i) then 1 else 0) =
    holding s + (if holds t then 1 else 0)"
  using length_filter_update [OF assms, of holds t] by (simp add: holding_def)

lemma last_out_update:
  assumes "i < length (sends s)" "last_out_pending s" "\<not> last_out (sends s ! i)"
  shows "last_out_pending (s\<lparr>client := c, sends := (sends s)[i := t]\<rparr>)"
proof -
  obtain j where "j < length (sends s)" "last_out (sends s ! j)"
    using assms(2) by (auto simp: last_out_pending_def list_ex_length)
  moreover from this assms have "j \<noteq> i" by auto
  ultimately show ?thesis by (auto simp: last_out_pending_def list_ex_length intro!: exI [of _ j])
qed

lemma last_out_new:
  "i < length (sends s) \<Longrightarrow> last_out t \<Longrightarrow> last_out_pending (s\<lparr>client := c, sends := (sends s)[i := t]\<rparr>)"
  by (auto simp: last_out_pending_def list_ex_length intro!: exI [of _ i])

text \<open>A waiting \<open>shutdown\<close> survives any change after which there is still a reason to be woken.\<close>

lemma shutdown_inv_mono:
  assumes "shutdown_inv lo c t" "is_shutting_down c' = is_shutting_down c" "wakeups c \<le> wakeups c'"
    and "is_shutting_down c \<Longrightarrow> wakeups c = wakeups c' \<Longrightarrow> in_flight c \<noteq> 0 \<or> lo \<Longrightarrow> in_flight c' \<noteq> 0 \<or> lo'"
  shows "shutdown_inv lo' c' t"
  using assms by (cases "wakeups c = wakeups c'"; cases t) auto

lemma life_inv_send:
  assumes inv: "life_inv s" and i: "i < length (sends s)"
    and step: "send_step G (sends s ! i) (client s) = Some (t, c)"
  shows "life_inv (s\<lparr>client := c, sends := (sends s)[i := t]\<rparr>)"
proof -
  let ?s = "s\<lparr>client := c, sends := (sends s)[i := t]\<rparr>"
  have len: "length (sends s) < 2 ^ 64" and cnt: "unat (in_flight (client s)) = holding s"
    and sd: "list_all (shutdown_inv (last_out_pending s) (client s)) (shutdowns s)"
    using inv by (simp_all add: life_inv_def)
  note upd = holding_update [OF i, where c = c and t = t] and le = holding_le [of ?s]
  have "unat (in_flight c) = holding ?s \<and>
    is_shutting_down c = is_shutting_down (client s) \<and> wakeups (client s) \<le> wakeups c \<and>
    (is_shutting_down (client s) \<and> wakeups (client s) = wakeups c \<and>
      (in_flight (client s) \<noteq> 0 \<or> last_out_pending s) \<longrightarrow> in_flight c \<noteq> 0 \<or> last_out_pending ?s)"
    using send_step_effect [OF step]
  proof cases
    case enter
    then have "unat (in_flight c) = holding ?s" using upd le len cnt by (simp add: unat_inc)
    with enter upd show ?thesis by (auto simp: unat_eq_zero)
  next
    case leave
    then have nz: "in_flight (client s) \<noteq> 0" using upd cnt by (auto simp: unat_eq_zero)
    then have "unat (in_flight c) = holding ?s" using leave upd cnt by (simp add: unat_dec)
    moreover have "in_flight c \<noteq> 0 \<or> last_out_pending ?s"
      using leave last_out_new [OF i, where t = t and c = c] by auto
    ultimately show ?thesis using leave by auto
  next
    case notify
    then have "\<not> holds (sends s ! i)" using holds_not_last_out by blast
    with notify upd cnt show ?thesis by auto
  next
    case silent
    with upd cnt show ?thesis using last_out_update [OF i, where c = c and t = t] by auto
  qed
  moreover from this have "list_all (shutdown_inv (last_out_pending ?s) c) (shutdowns s)"
    using sd by (auto simp: list_all_iff intro: shutdown_inv_mono)
  ultimately show ?thesis using len by (simp add: life_inv_def)
qed

lemma life_inv_drop:
  assumes "life_inv s" "i < length (sends s)" "sends s ! i = Awaiting e req p"
  shows "life_inv (s\<lparr>sends := (sends s)[i := Dropped]\<rparr>)"
proof -
  have eq: "s\<lparr>sends := (sends s)[i := Dropped]\<rparr> = s\<lparr>client := client s, sends := (sends s)[i := Dropped]\<rparr>"
    by simp
  have "holding (s\<lparr>sends := (sends s)[i := Dropped]\<rparr>) = holding s"
    unfolding eq using holding_update [OF assms(2), where c = "client s" and t = Dropped] assms(3) by simp
  moreover have "last_out_pending s \<Longrightarrow> last_out_pending (s\<lparr>sends := (sends s)[i := Dropped]\<rparr>)"
    unfolding eq using assms(2,3) by (intro last_out_update) auto
  ultimately show ?thesis
    using assms(1) by (auto simp: life_inv_def list_all_iff intro: shutdown_inv_mono)
qed

lemma shutdown_step_inv:
  assumes "shutdown_step t elapsed c = Some (t', c')" "shutdown_inv lo c t"
  shows "shutdown_inv lo c' t' \<and> in_flight c' = in_flight c \<and> wakeups c' = wakeups c \<and>
    (is_shutting_down c \<longrightarrow> is_shutting_down c')"
  using assms by (cases t) (auto split: if_splits)

lemma shutdown_inv_flag:
  assumes "shutdown_inv lo c t" "in_flight c' = in_flight c" "wakeups c' = wakeups c"
    and "is_shutting_down c \<longrightarrow> is_shutting_down c'"
  shows "shutdown_inv lo c' t"
  using assms by (cases t) auto

lemma life_inv_shutdown:
  assumes inv: "life_inv s" and i: "i < length (shutdowns s)"
    and step: "shutdown_step (shutdowns s ! i) elapsed (client s) = Some (t, c)"
  shows "life_inv (s\<lparr>client := c, shutdowns := (shutdowns s)[i := t]\<rparr>)"
proof -
  have sd: "\<forall>t \<in> set (shutdowns s). shutdown_inv (last_out_pending s) (client s) t"
    using inv by (simp add: life_inv_def list_all_iff)
  then have eff: "shutdown_inv (last_out_pending s) c t" "in_flight c = in_flight (client s)"
    "wakeups c = wakeups (client s)" "is_shutting_down (client s) \<longrightarrow> is_shutting_down c"
    using shutdown_step_inv [OF step, of "last_out_pending s"] i by auto
  have "\<forall>u \<in> set ((shutdowns s)[i := t]). shutdown_inv (last_out_pending s) c u"
    using sd eff set_update_subset_insert [of "shutdowns s" i t] by (auto intro: shutdown_inv_flag)
  then show ?thesis
    using inv eff by (simp add: life_inv_def list_all_iff holding_def last_out_pending_def)
qed

interpretation life: inductive_invariant life_start "life_step G" life_inv for G
proof unfold_locales
  fix s :: "'a life"
  assume start: "life_start s"
  then have "filter holds (sends s) = []"
    by (auto simp: life_start_def list_all_iff filter_empty_conv dest: new_not_holds)
  with start show "life_inv s"
    by (auto simp: life_inv_def life_start_def holding_def list_all_iff)
next
  fix s t :: "'a life"
  show "life_step G s t \<Longrightarrow> life_inv s \<Longrightarrow> life_inv t"
    by (induction rule: life_step.induct) (auto intro: life_inv_send life_inv_drop life_inv_shutdown)
qed

section \<open>The drain gate\<close>

text \<open>
  What \<open>shutdown\<close> relies on, stated without machine words or tasks: a gate that admits calls while
  it is up, counts with natural numbers those admitted and those inside, and is told to go down.  An
  event the gate cannot take is \<open>None\<close>.  The client's 64-bit counter and its flag implement it; the
  invariant of the tasks is what rules out wrap-around.
\<close>

record drain_gate =
  admitted :: nat
  inside :: nat
  down :: bool

datatype gate_event = Admit | Refuse | Enter | Leave | Close | Stay

fun gate_do :: "gate_event \<Rightarrow> drain_gate \<Rightarrow> drain_gate option" where
  "gate_do Admit g = (if down g then None else Some (g\<lparr>admitted := Suc (admitted g)\<rparr>))"
| "gate_do Refuse g = (case admitted g of 0 \<Rightarrow> None | Suc n \<Rightarrow> Some (g\<lparr>admitted := n\<rparr>))"
| "gate_do Enter g = (case admitted g of 0 \<Rightarrow> None | Suc n \<Rightarrow> Some (g\<lparr>admitted := n, inside := Suc (inside g)\<rparr>))"
| "gate_do Leave g = (case inside g of 0 \<Rightarrow> None | Suc n \<Rightarrow> Some (g\<lparr>inside := n\<rparr>))"
| "gate_do Close g = Some (g\<lparr>down := True\<rparr>)"
| "gate_do Stay g = Some g"

definition gate_move :: "drain_gate \<Rightarrow> drain_gate \<Rightarrow> bool" where
  "gate_move g h \<longleftrightarrow> (\<exists>ev. gate_do ev g = Some h)"

definition gate_start :: "drain_gate \<Rightarrow> bool" where
  "gate_start g \<longleftrightarrow> admitted g = 0 \<and> inside g = 0 \<and> \<not> down g"

text \<open>A closed gate stays closed, and what is left to drain does not grow.\<close>

lemma gate_drains:
  assumes "gate_move\<^sup>*\<^sup>* g h" "down g"
  shows "down h \<and> admitted h + inside h \<le> admitted g + inside g"
  using assms
proof (induction rule: rtranclp_induct)
  case (step h k)
  then obtain ev where "gate_do ev h = Some k" by (auto simp: gate_move_def)
  with step show ?case by (cases ev) (auto split: nat.splits if_splits)
qed simp

text \<open>The gate a state of the client implements, and the event a step of a call is.\<close>

fun passed :: "'l send_task \<Rightarrow> bool" where
  "passed (Passed e req) = True"
| "passed _ = False"

definition gate_of :: "'l life \<Rightarrow> drain_gate" where
  "gate_of s =
     \<lparr>admitted = length (filter passed (sends s)), inside = unat (in_flight (client s)),
      down = is_shutting_down (client s)\<rparr>"

fun send_event :: "'l send_task \<Rightarrow> 'l send_task \<Rightarrow> gate_event" where
  "send_event (New e req) (Passed e' req') = Admit"
| "send_event (Passed e req) (Awaiting e' req' p) = Enter"
| "send_event (Passed e req) _ = Refuse"
| "send_event (Recorded r) _ = Leave"
| "send_event _ _ = Stay"

fun shutdown_event :: "shutdown_task \<Rightarrow> gate_event" where
  "shutdown_event Called = Close"
| "shutdown_event _ = Stay"

lemma new_not_passed: "is_new t \<Longrightarrow> \<not> passed t"
  by (cases t) auto

text \<open>What a step of a \<open>send\<close> is for the gate, read off the tasks alone.\<close>

lemma send_step_event:
  assumes "send_step G t c = Some (t', c')"
  shows "is_shutting_down c' = is_shutting_down c \<and>
    (case send_event t t' of
       Admit \<Rightarrow> \<not> is_shutting_down c \<and> \<not> passed t \<and> passed t' \<and> holds t' = holds t
     | Refuse \<Rightarrow> passed t \<and> \<not> passed t' \<and> holds t' = holds t
     | Enter \<Rightarrow> passed t \<and> \<not> passed t' \<and> \<not> holds t \<and> holds t'
     | Leave \<Rightarrow> \<not> passed t \<and> \<not> passed t' \<and> holds t \<and> \<not> holds t'
     | Close \<Rightarrow> False
     | Stay \<Rightarrow> \<not> passed t \<and> \<not> passed t' \<and> holds t' = holds t)"
proof -
  have down: "is_shutting_down c' = is_shutting_down c"
    using send_step_effect [OF assms] by (auto elim: send_effect.cases)
  show ?thesis
  proof (cases t)
    case (Passed e req)
    then show ?thesis using assms down by (auto split: prod.splits sum.splits)
  next
    case (Recorded r)
    then show ?thesis using assms down by (cases "release_in_flight c") (auto split: if_splits)
  qed (use assms down in \<open>auto simp: Let_def split: prod.splits if_splits\<close>)
qed

lemma gate_of_send:
  assumes inv: "life_inv s" and i: "i < length (sends s)"
    and step: "send_step G (sends s ! i) (client s) = Some (t, c)"
  shows "gate_do (send_event (sends s ! i) t) (gate_of s) = Some (gate_of (s\<lparr>client := c, sends := (sends s)[i := t]\<rparr>))"
proof -
  let ?s = "s\<lparr>client := c, sends := (sends s)[i := t]\<rparr>" and ?n = "\<lambda>s. length (filter passed (sends s))"
  have "unat (in_flight (client s)) = holding s" "unat (in_flight c) = holding ?s"
    using inv life_inv_send [OF inv i step] by (simp_all add: life_inv_def)
  then have gates: "gate_of s = \<lparr>admitted = ?n s, inside = holding s, down = is_shutting_down (client s)\<rparr>"
    "gate_of ?s = \<lparr>admitted = ?n ?s, inside = holding ?s, down = is_shutting_down c\<rparr>" by (simp_all add: gate_of_def)
  have "?n ?s + (if passed (sends s ! i) then 1 else 0) = ?n s + (if passed t then 1 else 0)"
    using length_filter_update [OF i, of passed t] by simp
  then show ?thesis
    unfolding gates using send_step_event [OF step] holding_update [OF i, where c = c and t = t]
    by (cases "send_event (sends s ! i) t") (auto split: nat.splits if_splits)
qed

lemma gate_of_shutdown:
  assumes "shutdown_step t elapsed (client s) = Some (t', c)"
  shows "gate_do (shutdown_event t) (gate_of s) = Some (gate_of (s\<lparr>client := c, shutdowns := ts\<rparr>))"
  using assms by (cases t) (auto simp: gate_of_def split: if_splits)

lemma gate_of_drop:
  assumes "i < length (sends s)" "sends s ! i = Awaiting e req p"
  shows "gate_of (s\<lparr>sends := (sends s)[i := Dropped]\<rparr>) = gate_of s"
  using length_filter_update [OF assms(1), of passed Dropped] assms(2) by (simp add: gate_of_def)

interpretation drain: simulation life_start "life_step G" gate_start gate_move gate_of life_inv for G
proof unfold_locales
  fix s t :: "'a life"
  show "gate_start (gate_of s)" if start: "life_start s"
  proof -
    have "filter passed (sends s) = []"
      using start by (auto simp: life_start_def list_all_iff filter_empty_conv dest: new_not_passed)
    then show ?thesis using start by (simp add: gate_start_def gate_of_def life_start_def)
  qed
  assume "life_step G s t" "life_inv s"
  then show "gate_move (gate_of s) (gate_of t) \<or> gate_of t = gate_of s"
  proof (induction rule: life_step.induct)
    case (send i s t c)
    then show ?case using gate_of_send unfolding gate_move_def by blast
  next
    case (drop i s e req p)
    then show ?case by (simp add: gate_of_drop)
  next
    case (shutdown i s elapsed t c)
    then show ?case using gate_of_shutdown unfolding gate_move_def by blast
  qed
qed (auto intro: life.start_inv life.step_inv)

section \<open>Schedules\<close>

text \<open>A schedule names the call that moves next; it is how concrete interleavings are written down.\<close>

datatype act = Send nat | Cancel nat | Shutdown nat bool

fun life_act :: "'l direct_limiter \<Rightarrow> act \<Rightarrow> 'l life \<Rightarrow> 'l life option" where
  "life_act G (Send i) s =
     (if i < length (sends s)
      then (case send_step G (sends s ! i) (client s) of
              Some (t, c) \<Rightarrow> Some (s\<lparr>client := c, sends := (sends s)[i := t]\<rparr>)
            | None \<Rightarrow> None)
      else None)"
| "life_act G (Cancel i) s =
     (if i < length (sends s)
      then (case sends s ! i of
              Awaiting e req p \<Rightarrow> Some (s\<lparr>sends := (sends s)[i := Dropped]\<rparr>)
            | _ \<Rightarrow> None)
      else None)"
| "life_act G (Shutdown i elapsed) s =
     (if i < length (shutdowns s)
      then (case shutdown_step (shutdowns s ! i) elapsed (client s) of
              Some (t, c) \<Rightarrow> Some (s\<lparr>client := c, shutdowns := (shutdowns s)[i := t]\<rparr>)
            | None \<Rightarrow> None)
      else None)"

fun life_run :: "'l direct_limiter \<Rightarrow> act list \<Rightarrow> 'l life \<Rightarrow> 'l life option" where
  "life_run G [] s = Some s"
| "life_run G (a # as) s = (case life_act G a s of Some s' \<Rightarrow> life_run G as s' | None \<Rightarrow> None)"

lemma life_act_step: "life_act G a s = Some s' \<Longrightarrow> life_step G s s'"
  by (cases a) (auto split: if_splits option.splits send_task.splits
      intro: life_step.send life_step.drop life_step.shutdown)

lemma life_run_append:
  assumes "life_run G as s = Some s'"
  shows "life_run G (as @ bs) s = life_run G bs s'"
  using assms by (induction as arbitrary: s) (auto split: option.splits)

lemma life_run_steps: "life_run G as s = Some s' \<Longrightarrow> (life_step G)\<^sup>*\<^sup>* s s'"
  by (induction as arbitrary: s)
    (auto split: option.splits dest: life_act_step intro: converse_rtranclp_into_rtranclp)

section \<open>Properties\<close>

text \<open>
  C5 The in-flight counter is exact: in every interleaving of any number of \<open>send\<close> and \<open>shutdown\<close>
  calls it equals the number of sends that have passed the policies and have not left through
  \<open>finish_in_flight\<close> (it never wraps), where a send whose future was dropped never leaves.
\<close>

theorem in_flight_exact:
  assumes "reach life_start (life_step G) s"
  shows "unat (in_flight (client s)) = length (filter holds (sends s))"
  using life.reach_inv [OF assms] by (simp add: life_inv_def holding_def)

text \<open>
  C4 The atomics of \<open>send\<close>, \<open>finish_in_flight\<close> and \<open>shutdown\<close> implement the drain gate, step by step:
  in every reachable state, whatever step a call takes next, the counter, the flag and the admitted
  calls change exactly as the gate over natural numbers does on the event of that step, and the gate
  can take that event.  So a call is admitted only while the flag is not set, it enters the count once
  after its policies let it pass, the count is never decremented below zero and never wraps, and the
  flag is only ever set.  Once it is set, no execution clears it or adds to the calls left to drain.
\<close>

theorem life_refines_gate:
  assumes "reach life_start (life_step G) s"
  shows "(\<forall>i t c. i < length (sends s) \<and> send_step G (sends s ! i) (client s) = Some (t, c) \<longrightarrow>
      gate_do (send_event (sends s ! i) t) (gate_of s) = Some (gate_of (s\<lparr>client := c, sends := (sends s)[i := t]\<rparr>))) \<and>
    (\<forall>i elapsed t c. i < length (shutdowns s) \<and> shutdown_step (shutdowns s ! i) elapsed (client s) = Some (t, c) \<longrightarrow>
      gate_do (shutdown_event (shutdowns s ! i)) (gate_of s) =
        Some (gate_of (s\<lparr>client := c, shutdowns := (shutdowns s)[i := t]\<rparr>))) \<and>
    (\<forall>i e req p. i < length (sends s) \<and> sends s ! i = Awaiting e req p \<longrightarrow>
      gate_of (s\<lparr>sends := (sends s)[i := Dropped]\<rparr>) = gate_of s) \<and>
    (\<forall>t. is_shutting_down (client s) \<and> (life_step G)\<^sup>*\<^sup>* s t \<longrightarrow> is_shutting_down (client t) \<and>
      admitted (gate_of t) + inside (gate_of t) \<le> admitted (gate_of s) + inside (gate_of s))"
proof -
  note inv = life.reach_inv [OF assms]
  have "is_shutting_down (client t) \<and> admitted (gate_of t) + inside (gate_of t) \<le> admitted (gate_of s) + inside (gate_of s)"
    if "is_shutting_down (client s)" "(life_step G)\<^sup>*\<^sup>* s t" for t
    using gate_drains [OF drain.sim_steps [OF that(2) inv]] that(1) by (simp add: gate_of_def)
  then show ?thesis using gate_of_send [OF inv] gate_of_shutdown gate_of_drop by blast
qed

text \<open>
  Concrete schedules use requests to targets that have no policy yet, so that a fresh closed
  breaker admits them, and a limiter that always lets through.
\<close>

definition idle_client :: "unit http_client" where
  "idle_client =
     \<lparr>policies = Map.empty, default_timeout = duration_from_millis 5000, metrics = [],
      is_shutting_down = False, in_flight = 0, wakeups = 0\<rparr>"

definition new_send :: "string \<Rightarrow> unit send_task" where
  "new_send tgt = New (sample_env Elapsed) (outbound_request_get tgt ''http://x.local/'')"

definition idle_life :: "string list \<Rightarrow> unit life" where
  "idle_life tgts = \<lparr>client = idle_client, sends = map new_send tgts, shutdowns = [Called]\<rparr>"

lemma idle_life_start: "length tgts < 2 ^ 64 \<Longrightarrow> life_start (idle_life tgts)"
  by (simp add: life_start_def idle_life_def idle_client_def new_send_def list_all_iff)

lemma idle_life_reach:
  assumes "life_run sample_limiter as (idle_life tgts) = Some s" "length tgts < 2 ^ 64"
  shows "reach life_start (life_step sample_limiter) s"
  using life_run_steps [OF assms(1)] idle_life_start [OF assms(2)]
  by (rule reach_steps [OF _ reach.reach_start])

lemma gates_fresh:
  assumes "policies c (req_target req) = None"
  obtains p c' where "send_gates sample_limiter e req c = (Inr p, c')"
    "in_flight c' = in_flight c + 1" "is_shutting_down c' = is_shutting_down c" "wakeups c' = wakeups c"
    "policies c' = (policies c)(req_target req \<mapsto> p)"
proof -
  have "fst (allow_request (env_allow e) (ps_breaker (fst (policy_for sample_limiter (env_created e) (req_target req) c))))"
    using assms by (simp add: policy_for_def Let_def policy_from_config_def cb_new_def allow_request_def
        cb_state_of_def cb_state_from_def)
  moreover have "fst (rl_check sample_limiter n l)" for n l by (simp add: sample_limiter_def)
  ultimately show thesis using that
    by (cases rule: send_gates_cases [where G = sample_limiter and e = e and req = req and c = c])
      (auto, metis fst_conv)
qed

lemma first_send:
  obtains p c where "life_run sample_limiter [Send 0, Send 0] (idle_life (tgt # tgts)) =
      Some \<lparr>client = c, sends = Awaiting (sample_env Elapsed) (outbound_request_get tgt ''http://x.local/'') p
        # map new_send tgts, shutdowns = [Called]\<rparr>"
    "in_flight c = 1" "\<not> is_shutting_down c" "wakeups c = 0" "policies c = [tgt \<mapsto> p]"
proof -
  obtain p c where "send_gates sample_limiter (sample_env Elapsed) (outbound_request_get tgt ''http://x.local/'') idle_client
      = (Inr p, c)" "in_flight c = in_flight idle_client + 1" "is_shutting_down c = is_shutting_down idle_client"
      "wakeups c = wakeups idle_client"
      "policies c = (policies idle_client)(req_target (outbound_request_get tgt ''http://x.local/'') \<mapsto> p)"
    by (rule gates_fresh [of idle_client "outbound_request_get tgt ''http://x.local/''"]) (simp_all add: idle_client_def)
  then show thesis
    by (intro that) (simp_all add: idle_life_def new_send_def idle_client_def outbound_request_get_def outbound_request_new_def)
qed

theorem in_flight_exact_witness:
  "\<exists>s. life_run sample_limiter [Send 0, Send 0] (idle_life [''a'', ''b'']) = Some s \<and>
     unat (in_flight (client s)) = 1"
proof (rule first_send [of "''a''" "[''b'']"])
  fix p c
  let ?s = "\<lparr>client = c, sends = Awaiting (sample_env Elapsed) (outbound_request_get ''a'' ''http://x.local/'') p
        # map new_send [''b''], shutdowns = [Called]\<rparr>"
  assume run: "life_run sample_limiter [Send 0, Send 0] (idle_life [''a'', ''b'']) = Some ?s"
  have "reach life_start (life_step sample_limiter) ?s"
    by (rule idle_life_reach [OF run]) simp
  then have "unat (in_flight (client ?s)) = length (filter holds (sends ?s))" by (rule in_flight_exact)
  with run show ?thesis by (simp add: new_send_def)
qed

text \<open>The next step of a waiting send records its outcome, which the gate does not see; \<open>shutdown\<close> closes it.\<close>

theorem life_refines_gate_witness:
  "\<exists>s c. life_run sample_limiter [Send 0, Send 0] (idle_life [''a'', ''b'']) = Some s \<and>
     gate_of s = \<lparr>admitted = 0, inside = 1, down = False\<rparr> \<and> shutdown_step (shutdowns s ! 0) False (client s) = Some (Flagged, c) \<and>
     gate_of (s\<lparr>client := c, shutdowns := (shutdowns s)[0 := Flagged]\<rparr>) = \<lparr>admitted = 0, inside = 1, down = True\<rparr>"
proof (rule first_send [of "''a''" "[''b'']"])
  fix p and c :: "unit http_client"
  let ?s = "\<lparr>client = c, sends = Awaiting (sample_env Elapsed) (outbound_request_get ''a'' ''http://x.local/'') p
        # map new_send [''b''], shutdowns = [Called]\<rparr>"
  let ?c = "c\<lparr>is_shutting_down := True\<rparr>"
  assume run: "life_run sample_limiter [Send 0, Send 0] (idle_life [''a'', ''b'']) = Some ?s"
    and c: "in_flight c = 1" "\<not> is_shutting_down c"
  have gate: "gate_of ?s = \<lparr>admitted = 0, inside = 1, down = False\<rparr>" using c by (simp add: gate_of_def new_send_def)
  have step: "0 < length (shutdowns ?s) \<and> shutdown_step (shutdowns ?s ! 0) False (client ?s) = Some (Flagged, ?c)" by simp
  have "reach life_start (life_step sample_limiter) ?s" by (rule idle_life_reach [OF run]) simp
  from life_refines_gate [OF this, THEN conjunct2, THEN conjunct1, rule_format, OF step] gate
  have "gate_of (?s\<lparr>client := ?c, shutdowns := (shutdowns ?s)[0 := Flagged]\<rparr>) = \<lparr>admitted = 0, inside = 1, down = True\<rparr>"
    by (simp del: length_Cons)
  with run gate step show ?thesis by (intro exI [of _ ?s] exI [of _ ?c]) simp
qed

text \<open>
  C6 No lost wake-up: whenever a \<open>shutdown\<close> call waits and no send is in flight (and none is
  between its decrement and its notification), the waiter has been notified, so the call's next
  step returns \<open>Ok\<close>, even if its time limit has elapsed as well.
\<close>

theorem shutdown_not_lost:
  assumes "reach life_start (life_step G) s" "Waiting n \<in> set (shutdowns s)"
    and "filter holds (sends s) = []" "filter last_out (sends s) = []"
  shows "shutdown_step (Waiting n) elapsed (client s) = Some (Finished (Inr ()), client s)"
proof -
  have "life_inv s" using life.reach_inv [OF assms(1)] .
  moreover have "\<not> last_out_pending s"
    using assms(4) by (auto simp: last_out_pending_def list_ex_iff filter_empty_conv)
  ultimately show ?thesis
    using assms(2,3) by (auto simp: life_inv_def holding_def list_all_iff unat_eq_zero)
qed

text \<open>A cancelled send holds the count, and the \<open>i\<close>-th \<open>shutdown\<close> call has seen no notification.\<close>

definition blocked :: "nat \<Rightarrow> nat \<Rightarrow> 'l life \<Rightarrow> bool" where
  "blocked w i s \<longleftrightarrow>
     life_inv s \<and> Dropped \<in> set (sends s) \<and> \<not> last_out_pending s \<and> wakeups (client s) = w \<and> i < length (shutdowns s) \<and>
     shutdowns s ! i \<noteq> Finished (Inr ()) \<and> (\<forall>n. shutdowns s ! i = Registered n \<or> shutdowns s ! i = Waiting n \<longrightarrow> n = w)"

lemma dropped_holding: "Dropped \<in> set (sends s) \<Longrightarrow> holding s \<noteq> 0"
  by (force simp: holding_def filter_empty_conv)

lemma dropped_and_other:
  assumes "Dropped \<in> set (sends s)" "i < length (sends s)" "holds (sends s ! i)" "sends s ! i \<noteq> Dropped"
  shows "2 \<le> holding s"
proof -
  obtain j where j: "j < length (sends s)" "sends s ! j = Dropped" using assms(1) by (auto simp: in_set_conv_nth)
  have "card {i, j} \<le> card {k. k < length (sends s) \<and> holds (sends s ! k)}"
    using assms(2,3) j by (intro card_mono) auto
  moreover have "i \<noteq> j" using assms(4) j by auto
  ultimately show ?thesis by (simp add: holding_def length_filter_conv_card)
qed

lemma blocked_send:
  assumes b: "blocked w k s" and i: "i < length (sends s)"
    and step: "send_step G (sends s ! i) (client s) = Some (t, c)"
  shows "blocked w k (s\<lparr>client := c, sends := (sends s)[i := t]\<rparr>)"
proof -
  let ?s = "s\<lparr>client := c, sends := (sends s)[i := t]\<rparr>"
  have inv: "life_inv s" and d: "Dropped \<in> set (sends s)" and lo: "\<not> last_out_pending s"
    using b by (simp_all add: blocked_def)
  have nd: "sends s ! i \<noteq> Dropped" using step by auto
  obtain j where j: "j < length (sends s)" "sends s ! j = Dropped" using d by (auto simp: in_set_conv_nth)
  with nd have "i \<noteq> j" by auto
  with j have "(sends s)[i := t] ! j = Dropped" "j < length ((sends s)[i := t])" by simp_all
  then have d': "Dropped \<in> set ((sends s)[i := t])" by (metis nth_mem)
  have nl: "\<not> last_out (sends s ! i)" using lo i by (auto simp: last_out_pending_def list_ex_length)
  have "\<not> last_out t \<and> wakeups c = wakeups (client s)"
    using send_step_effect [OF step]
  proof cases
    case leave
    then have "2 \<le> unat (in_flight (client s))"
      using dropped_and_other [OF d i _ nd] inv by (simp add: life_inv_def)
    then have "in_flight (client s) \<noteq> 1" by auto
    with leave show ?thesis by simp
  next
    case enter
    then show ?thesis using holds_not_last_out by auto
  qed (use nl in auto)
  moreover from this have "\<not> last_out_pending ?s"
    using lo set_update_subset_insert [of "sends s" i t] by (auto simp: last_out_pending_def list_ex_iff)
  ultimately show ?thesis
    using b life_inv_send [OF inv i step] d' by (simp add: blocked_def)
qed

lemma blocked_shutdown:
  assumes b: "blocked w k s" and i: "i < length (shutdowns s)"
    and step: "shutdown_step (shutdowns s ! i) elapsed (client s) = Some (t, c)"
  shows "blocked w k (s\<lparr>client := c, shutdowns := (shutdowns s)[i := t]\<rparr>)"
proof -
  have inv: "life_inv s" and d: "Dropped \<in> set (sends s)" using b by (simp_all add: blocked_def)
  have "in_flight (client s) \<noteq> 0"
    using inv dropped_holding [OF d] by (auto simp: life_inv_def)
  then have "t \<noteq> Finished (Inr ()) \<and> (\<forall>n. t = Registered n \<or> t = Waiting n \<longrightarrow> n = w)" if "i = k"
    using b step that by (cases "shutdowns s ! i") (auto simp: blocked_def split: if_splits)
  moreover have "wakeups c = w"
    using b step by (cases "shutdowns s ! i") (auto simp: blocked_def split: if_splits)
  ultimately show ?thesis
    using b life_inv_shutdown [OF inv i step] by (cases "i = k") (simp_all add: blocked_def last_out_pending_def)
qed

lemma blocked_drop:
  assumes b: "blocked w k s" and i: "i < length (sends s)" and a: "sends s ! i = Awaiting e req p"
  shows "blocked w k (s\<lparr>sends := (sends s)[i := Dropped]\<rparr>)"
  using b life_inv_drop [OF _ i a] set_update_subset_insert [of "sends s" i Dropped] set_update_memI [OF i]
  by (auto simp: blocked_def last_out_pending_def list_ex_iff)

interpretation blocked: inductive_invariant "blocked w k" "life_step G" "blocked w k" for G w k
proof unfold_locales
  fix s t :: "'a life"
  show "life_step G s t \<Longrightarrow> blocked w k s \<Longrightarrow> blocked w k t"
    by (induction rule: life_step.induct) (auto intro: blocked_send blocked_drop blocked_shutdown)
qed

text \<open>
  C36 A cancelled send is never released: \<open>send\<close> has no drop guard.  From a state on in which the future
  of a send that waited for its response has been dropped and no other send is between its decrement
  and its notification, no \<open>shutdown\<close> call that has not begun yet ever returns \<open>Ok\<close>, in any
  continuation, even when every other send has finished and whatever earlier calls of \<open>shutdown\<close> did.
  (A notification that is still to come may wake it: the early return shown below.)
\<close>

theorem cancelled_send_blocks_shutdown:
  assumes "reach life_start (life_step G) s" "Dropped \<in> set (sends s)"
    and "filter last_out (sends s) = []" "i < length (shutdowns s)" "shutdowns s ! i = Called"
    and "(life_step G)\<^sup>*\<^sup>* s s'"
  shows "in_flight (client s') \<noteq> 0 \<and> shutdowns s' ! i \<noteq> Finished (Inr ())"
proof -
  have "blocked (wakeups (client s)) i s"
    using life.reach_inv [OF assms(1)] assms(2-5)
    by (auto simp: blocked_def last_out_pending_def list_ex_iff filter_empty_conv)
  then have "blocked (wakeups (client s)) i s'" using blocked.steps_inv [OF assms(6)] by blast
  then show ?thesis
    using dropped_holding [of s'] by (auto simp: blocked_def life_inv_def)
qed

theorem cancelled_send_blocks_shutdown_witness:
  "\<exists>s. life_run sample_limiter
      [Send 0, Send 0, Cancel 0, Shutdown 0 False, Shutdown 0 False, Shutdown 0 False, Shutdown 0 False,
       Shutdown 0 True, Shutdown 0 True] (idle_life [''a'']) = Some s \<and>
     shutdowns s = [Finished (Inl (ShutdownTimeout 1))] \<and> shutdowns s ! 0 \<noteq> Finished (Inr ())"
proof (rule first_send [of "''a''" "[]"])
  fix p and c :: "unit http_client"
  let ?s = "\<lparr>client = c, sends = [Dropped], shutdowns = [Called]\<rparr>"
  let ?as = "[Shutdown 0 False, Shutdown 0 False, Shutdown 0 False, Shutdown 0 False,
    Shutdown 0 True, Shutdown 0 True]"
  assume run: "life_run sample_limiter [Send 0, Send 0] (idle_life [''a'']) =
      Some \<lparr>client = c, sends = Awaiting (sample_env Elapsed) (outbound_request_get ''a'' ''http://x.local/'') p
        # map new_send [], shutdowns = [Called]\<rparr>"
    and c: "in_flight c = 1" "\<not> is_shutting_down c" "wakeups c = 0"
  have drop: "life_run sample_limiter [Send 0, Send 0, Cancel 0] (idle_life [''a'']) = Some ?s"
    using life_run_append [OF run, of "[Cancel 0]"] by simp
  have "reach life_start (life_step sample_limiter) ?s" by (rule idle_life_reach [OF drop]) simp
  moreover have rest: "life_run sample_limiter ?as ?s =
      Some \<lparr>client = c\<lparr>is_shutting_down := True\<rparr>, sends = [Dropped],
        shutdowns = [Finished (Inl (ShutdownTimeout 1))]\<rparr>"
    using c by simp
  ultimately have "shutdowns \<lparr>client = c\<lparr>is_shutting_down := True\<rparr>, sends = [Dropped],
        shutdowns = [Finished (Inl (ShutdownTimeout 1))]\<rparr> ! 0 \<noteq> Finished (Inr ())"
    using life_run_steps [OF rest] by (intro cancelled_send_blocks_shutdown [THEN conjunct2]) simp_all
  then show ?thesis using life_run_append [OF drop, of ?as] rest by simp
qed

text \<open>The release of the only send, step by step, with its outcome recorded.\<close>

lemma record_run:
  obtains r c' where "life_run G [Send 0] \<lparr>client = c, sends = Awaiting e req p # ts, shutdowns = ds\<rparr> =
      Some \<lparr>client = c', sends = Recorded r # ts, shutdowns = ds\<rparr>"
    "in_flight c' = in_flight c" "is_shutting_down c' = is_shutting_down c" "wakeups c' = wakeups c"
    "\<forall>k. k \<noteq> req_target req \<longrightarrow> policies c' k = policies c k"
proof -
  let ?limit = "target_timeout (ps_config p) (default_timeout c)"
  obtain r c' where rec: "send_record e req p ?limit (execute (env_transport e) req ?limit) c = (r, c')"
    by fastforce
  show thesis by (rule send_record_client [OF rec], rule that [of c' r]) (simp_all add: rec Let_def)
qed

theorem shutdown_not_lost_witness:
  "\<exists>s. life_run sample_limiter
      [Send 0, Send 0, Shutdown 0 False, Shutdown 0 False, Shutdown 0 False, Shutdown 0 False,
       Send 0, Send 0, Send 0] (idle_life [''a'']) = Some s \<and>
     shutdowns s = [Waiting 0] \<and>
     shutdown_step (Waiting 0) True (client s) = Some (Finished (Inr ()), client s)"
proof (rule first_send [of "''a''" "[]"])
  fix p and c :: "unit http_client"
  let ?t = "Awaiting (sample_env Elapsed) (outbound_request_get ''a'' ''http://x.local/'') p"
  let ?c = "c\<lparr>is_shutting_down := True\<rparr>"
  let ?as = "[Shutdown 0 False, Shutdown 0 False, Shutdown 0 False, Shutdown 0 False]"
  assume run: "life_run sample_limiter [Send 0, Send 0] (idle_life [''a'']) =
      Some \<lparr>client = c, sends = ?t # map new_send [], shutdowns = [Called]\<rparr>"
    and c: "in_flight c = 1" "\<not> is_shutting_down c" "wakeups c = 0"
  have wait: "life_run sample_limiter ?as \<lparr>client = c, sends = [?t], shutdowns = [Called]\<rparr> =
      Some \<lparr>client = ?c, sends = [?t], shutdowns = [Waiting 0]\<rparr>"
    using c by simp
  obtain r c' where rec: "life_run sample_limiter [Send 0] \<lparr>client = ?c, sends = [?t], shutdowns = [Waiting 0]\<rparr> =
      Some \<lparr>client = c', sends = [Recorded r], shutdowns = [Waiting 0]\<rparr>"
    and c': "in_flight c' = in_flight ?c" "is_shutting_down c' = is_shutting_down ?c" "wakeups c' = wakeups ?c"
    by (rule record_run)
  let ?s = "\<lparr>client = c'\<lparr>in_flight := 0, wakeups := 1\<rparr>, sends = [Returned r], shutdowns = [Waiting 0]\<rparr>"
  have "life_run sample_limiter [Send 0, Send 0]
      \<lparr>client = c', sends = [Recorded r], shutdowns = [Waiting 0]\<rparr> = Some ?s"
    using c c' by (simp add: release_in_flight_def notify_if_down_def)
  then have all: "life_run sample_limiter ([Send 0, Send 0] @ ?as @ [Send 0] @ [Send 0, Send 0]) (idle_life [''a'']) = Some ?s"
    using life_run_append [OF run] life_run_append [OF wait] life_run_append [OF rec] by simp
  then have "reach life_start (life_step sample_limiter) ?s" by (rule idle_life_reach) simp
  then have "shutdown_step (Waiting 0) True (client ?s) = Some (Finished (Inr ()), client ?s)"
    by (rule shutdown_not_lost) simp_all
  with all show ?thesis by (intro exI [of _ ?s]) simp
qed

text \<open>
  C37 \<open>shutdown\<close> may return \<open>Ok\<close> too early: the notification is sent by a send that took the count
  to zero at some earlier time, not by one that knows it is zero now.  There is an execution in
  which a send was in flight before \<open>shutdown\<close> was called and still is when it returns \<open>Ok\<close>.
\<close>

theorem shutdown_returns_early:
  "\<exists>s s' e req p. reach life_start (life_step sample_limiter) s \<and> shutdowns s = [Called] \<and>
     (life_step sample_limiter)\<^sup>*\<^sup>* s s' \<and> shutdowns s' = [Finished (Inr ())] \<and>
     sends s ! 1 = Awaiting e req p \<and> sends s' ! 1 = Awaiting e req p \<and> in_flight (client s') = 1"
proof (rule first_send [of "''a''" "[''b'']"])
  fix p and c :: "unit http_client"
  let ?e = "sample_env Elapsed" and ?req = "\<lambda>t. outbound_request_get t ''http://x.local/''"
  assume run: "life_run sample_limiter [Send 0, Send 0] (idle_life [''a'', ''b'']) =
      Some \<lparr>client = c, sends = Awaiting ?e (?req ''a'') p # map new_send [''b''], shutdowns = [Called]\<rparr>"
    and c: "in_flight c = 1" "\<not> is_shutting_down c" "wakeups c = 0" "policies c = [''a'' \<mapsto> p]"
  obtain r c1 where rec: "life_run sample_limiter [Send 0]
      \<lparr>client = c, sends = Awaiting ?e (?req ''a'') p # map new_send [''b''], shutdowns = [Called]\<rparr> =
      Some \<lparr>client = c1, sends = Recorded r # map new_send [''b''], shutdowns = [Called]\<rparr>"
    and c1: "in_flight c1 = in_flight c" "is_shutting_down c1 = is_shutting_down c" "wakeups c1 = wakeups c"
      "\<forall>k. k \<noteq> req_target (?req ''a'') \<longrightarrow> policies c1 k = policies c k"
    by (rule record_run)
  have tgt: "req_target (?req t) = t" for t by (simp add: outbound_request_get_def outbound_request_new_def)
  obtain q c2 where gates: "send_gates sample_limiter ?e (?req ''b'') (c1\<lparr>in_flight := 0\<rparr>) = (Inr q, c2)"
    and c2: "in_flight c2 = in_flight (c1\<lparr>in_flight := 0\<rparr>) + 1"
      "is_shutting_down c2 = is_shutting_down (c1\<lparr>in_flight := 0\<rparr>)" "wakeups c2 = wakeups (c1\<lparr>in_flight := 0\<rparr>)"
    by (rule gates_fresh [of "c1\<lparr>in_flight := 0\<rparr>" "?req ''b''" ?e]) (simp_all add: c c1 tgt)
  let ?s = "\<lparr>client = c2, sends = [LastOut r, Awaiting ?e (?req ''b'') q], shutdowns = [Called]\<rparr>"
  let ?s' = "\<lparr>client = c2\<lparr>is_shutting_down := True, wakeups := 1\<rparr>,
    sends = [Returned r, Awaiting ?e (?req ''b'') q], shutdowns = [Finished (Inr ())]\<rparr>"
  have "life_run sample_limiter [Send 0, Send 1, Send 1]
      \<lparr>client = c1, sends = Recorded r # map new_send [''b''], shutdowns = [Called]\<rparr> = Some ?s"
    using c c1 gates by (simp add: release_in_flight_def new_send_def)
  then have "life_run sample_limiter ([Send 0, Send 0] @ [Send 0] @ [Send 0, Send 1, Send 1])
      (idle_life [''a'', ''b'']) = Some ?s"
    using life_run_append [OF run] life_run_append [OF rec] by simp
  then have "reach life_start (life_step sample_limiter) ?s" by (rule idle_life_reach) simp
  moreover have "life_run sample_limiter
      [Shutdown 0 False, Shutdown 0 False, Shutdown 0 False, Shutdown 0 False, Send 0, Shutdown 0 False] ?s = Some ?s'"
    using c c1 c2 by (simp add: notify_if_down_def)
  then have "(life_step sample_limiter)\<^sup>*\<^sup>* ?s ?s'" by (rule life_run_steps)
  moreover have "in_flight c2 = 1" using c2 by simp
  ultimately show ?thesis
    by (intro exI [of _ ?s] exI [of _ ?s'] exI [of _ ?e] exI [of _ "?req ''b''"] exI [of _ q]) simp
qed

section \<open>One call on its own\<close>

text \<open>
  The tasks are the sequential code: a \<open>send\<close> task that runs with nothing in between returns
  what \<open>send\<close> returns and leaves the client as \<open>send\<close> does.
\<close>

theorem solo_send_matches:
  "\<exists>n. life_run G (replicate n (Send 0)) \<lparr>client = c, sends = [New (e\<lparr>env_others := (\<lambda>c. c)\<rparr>) req], shutdowns = ds\<rparr> =
     Some \<lparr>client = snd (send G (e\<lparr>env_others := (\<lambda>c. c)\<rparr>) req c),
       sends = [Returned (fst (send G (e\<lparr>env_others := (\<lambda>c. c)\<rparr>) req c))], shutdowns = ds\<rparr>"
proof -
  let ?e = "e\<lparr>env_others := (\<lambda>c. c)\<rparr>"
  let ?s = "\<lparr>client = c, sends = [New ?e req], shutdowns = ds\<rparr>"
  obtain a c1 where gates: "send_gates G ?e req c = (a, c1)" by fastforce
  show ?thesis
  proof (cases "is_shutting_down c")
    case True
    then show ?thesis by (intro exI [of _ 1]) (simp add: send_def send_admit_def)
  next
    case False
    show ?thesis
    proof (cases a)
      case (Inl err)
      with False gates show ?thesis
        by (intro exI [of _ 2]) (simp add: send_def send_admit_def numeral_2_eq_2)
    next
      case (Inr p)
      let ?limit = "target_timeout (ps_config p) (default_timeout c1)"
      obtain r c2 where rec: "send_record ?e req p ?limit (execute (env_transport e) req ?limit) c1 = (r, c2)"
        by fastforce
      have n: "replicate 4 (Send 0) = [Send 0, Send 0, Send 0, Send 0]"
        "replicate 5 (Send 0) = [Send 0, Send 0, Send 0, Send 0, Send 0]" by (simp_all add: numeral_eq_Suc)
      show ?thesis
        using False gates Inr rec
        by (intro exI [of _ "if in_flight c2 = 1 then 5 else 4"])
          (simp add: n send_def send_admit_def send_complete_def finish_in_flight_def release_in_flight_def Let_def)
    qed
  qed
qed

section \<open>Metrics\<close>

definition metrics_ok :: "'l life \<Rightarrow> bool" where
  "metrics_ok s \<longleftrightarrow> conform_all client_metrics (metrics (client s))"

lemma client_updates_conform:
  "conforms client_metrics (Inc ''outbound_requests_total'' [a, b, x, y])"
  "conforms client_metrics (Observe ''outbound_request_duration_seconds'' [a, b] v)"
  "conforms client_metrics (SetGauge ''outbound_circuit_breaker_state'' [a] v)"
  "conforms client_metrics (Inc ''outbound_retry_attempts_total'' [a])"
  by (simp_all add: conforms_def client_metrics_def)

lemma send_step_metrics:
  assumes "send_step G t c = Some (t', c')" "conform_all client_metrics (metrics c)"
  shows "conform_all client_metrics (metrics c')"
proof (cases t)
  case (Passed e req)
  then show ?thesis using assms
    by (cases rule: send_gates_cases [where G = G and e = e and req = req and c = c])
      (auto simp: client_updates_conform)
next
  case (Awaiting e req p)
  let ?limit = "target_timeout (ps_config p) (default_timeout c)"
  obtain r d where rec: "send_record e req p ?limit (execute (env_transport e) req ?limit) c = (r, d)"
    by fastforce
  with assms(1) Awaiting have "c' = d" by (auto simp: Let_def)
  with rec assms(2) show ?thesis by (elim send_record_client) (simp add: client_updates_conform)
qed (use assms in \<open>auto simp: release_in_flight_def notify_if_down_def split: if_splits\<close>)

lemma shutdown_step_metrics: "shutdown_step t elapsed c = Some (t', c') \<Longrightarrow> metrics c' = metrics c"
  by (cases t) (auto split: if_splits)

interpretation metrics_ok: inductive_invariant metrics_ok "life_step G" metrics_ok for G
proof unfold_locales
  fix s t :: "'a life"
  show "life_step G s t \<Longrightarrow> metrics_ok s \<Longrightarrow> metrics_ok t"
    by (induction rule: life_step.induct) (auto simp: metrics_ok_def shutdown_step_metrics intro: send_step_metrics)
qed

end
