(* ===== verification/Client_Calls.thy ===== *)
theory Client_Calls
  imports Client_Lifecycle
begin

text \<open>
  All calls of one client together: the \<open>send\<close> and \<open>shutdown\<close> calls of \<open>Client_Lifecycle\<close> and any number of
  \<open>send_with_retry\<close> calls (\<open>crates/resilient-client/src/client.rs\<close>), each of which runs one \<open>send\<close> after
  another, counts its retries and sleeps in between, interleaved at every access of the client.
\<close>

section \<open>A call of \<open>send_with_retry\<close>\<close>

text \<open>
  Where the call stands: before it has read its target's policy, in an attempt (with the retry limit, the
  backoff base and cap it read, the attempt's number and how far its \<open>send\<close> is), asleep before the
  attempt of that number, or returned.
\<close>

datatype 'l retry_task =
    Begun
  | Attempting u32 u64 u64 u32 "'l send_task"
  | Sleeping u32 u64 u64 u32 duration
  | Ended send_result

record 'l retry_call =
  rc_created :: sys_time
  rc_env :: "nat \<Rightarrow> 'l retry_env"
  rc_request :: outbound_request

fun retry_step ::
  "'l direct_limiter \<Rightarrow> 'l retry_call \<Rightarrow> 'l retry_task \<Rightarrow> 'l http_client \<Rightarrow> ('l retry_task \<times> 'l http_client) option" where
  "retry_step G k Begun c =
     (let (p, c) = policy_for G (rc_created k) (req_target (rc_request k)) c
      in Some (Attempting (otc_retry_max_attempts (ps_config p)) (otc_retry_base_ms (ps_config p))
           (otc_retry_cap_ms (ps_config p)) 0 (New (re_send (rc_env k 0)) (rc_request k)), c))"
| "retry_step G k (Attempting mx base cap attempt t) c =
     (case t of
        Returned (Inr resp) \<Rightarrow> Some (Ended (Inr resp), c)
      | Returned (Inl err) \<Rightarrow>
          (if is_fatal err \<or> attempt \<ge> mx then Some (Ended (Inl err), c)
           else
             (let d = full_jitter (re_rng (rc_env k (unat attempt))) (attempt + 1) base cap
              in Some (Sleeping mx base cap (attempt + 1) d,
                   emit (Inc ''outbound_retry_attempts_total'' [req_target (rc_request k)]) c)))
      | _ \<Rightarrow> map_option (\<lambda>(t, c). (Attempting mx base cap attempt t, c)) (send_step G t c))"
| "retry_step G k (Sleeping mx base cap attempt d) c =
     Some (Attempting mx base cap attempt (New (re_send (rc_env k (unat attempt))) (rc_request k)), c)"
| "retry_step G k (Ended r) c = None"

section \<open>All calls\<close>

record 'l calls =
  life_of :: "'l life"
  retries :: "('l retry_call \<times> 'l retry_task) list"

inductive calls_step :: "'l direct_limiter \<Rightarrow> 'l calls \<Rightarrow> 'l calls \<Rightarrow> bool" for G where
  plain: "life_step G (life_of y) s \<Longrightarrow> calls_step G y (y\<lparr>life_of := s\<rparr>)"
| retry: "j < length (retries y) \<Longrightarrow> retries y ! j = (k, t) \<Longrightarrow>
    retry_step G k t (client (life_of y)) = Some (t', c) \<Longrightarrow>
    calls_step G y (y\<lparr>life_of := (life_of y)\<lparr>client := c\<rparr>, retries := (retries y)[j := (k, t')]\<rparr>)"

lemma retry_step_metrics:
  assumes "retry_step G k t c = Some (t', c')" "conform_all client_metrics (metrics c)"
  shows "conform_all client_metrics (metrics c')"
  using assms
proof (induction G k t c rule: retry_step.induct)
  case (1 G k c)
  obtain p d where "policy_for G (rc_created k) (req_target (rc_request k)) c = (p, d)" by fastforce
  with 1 policy_for_simps(2) [of G "rc_created k" "req_target (rc_request k)" c] show ?case by simp
next
  case (2 G k mx base cap attempt t c)
  show ?case
  proof (cases "\<exists>r. t = Returned r")
    case True
    with 2 show ?thesis by (auto simp: Let_def client_updates_conform split: sum.splits if_splits)
  next
    case False
    with 2(1) have "\<exists>u. send_step G t c = Some (u, c')" by (cases t) (auto simp: map_option_eq_Some)
    then show ?thesis using send_step_metrics 2(2) by blast
  qed
qed auto

interpretation calls_metrics: inductive_invariant
  "\<lambda>y. metrics_ok (life_of y)" "calls_step G" "\<lambda>y. metrics_ok (life_of y)" for G
proof unfold_locales
  fix y z :: "'a calls"
  assume "calls_step G y z" "metrics_ok (life_of y)"
  then show "metrics_ok (life_of z)"
  proof (induction rule: calls_step.induct)
    case (plain y s)
    then show ?case using metrics_ok.step_inv by simp
  next
    case (retry j y k t t' c)
    then show ?case using retry_step_metrics [OF retry(3)] by (simp add: metrics_ok_def)
  qed
qed

section \<open>Properties\<close>

text \<open>
  C34 No metric update panics: in every interleaving of \<open>send\<close>, \<open>send_with_retry\<close> and \<open>shutdown\<close> calls each
  update (the requests, their duration, the breaker's state, the retries) names a metric that
  \<open>Metrics::new\<close> registers, with its kind and its number of labels (\<open>with_label_values\<close> panics on any
  other number).
\<close>

theorem client_metrics_conform:
  assumes "metrics (client (life_of y)) = []" "(calls_step G)\<^sup>*\<^sup>* y z"
  shows "conform_all client_metrics (metrics (client (life_of z)))"
  using calls_metrics.steps_inv [OF assms(2)] assms(1) by (simp add: metrics_ok_def)

text \<open>A call whose first attempt has failed with a transient error counts its retry.\<close>

definition failed_attempt :: "unit calls" where
  "failed_attempt =
     \<lparr>life_of = idle_life [],
      retries = [(\<lparr>rc_created = 0, rc_env = (\<lambda>n. \<lparr>re_send = sample_env Elapsed, re_rng = (\<lambda>x. 0), re_others = (\<lambda>c. c)\<rparr>),
        rc_request = sample_request\<rparr>, Attempting 3 0 0 0 (Returned (Inl (Transient ''x''))))]\<rparr>"

theorem client_metrics_conform_witness:
  "\<exists>z. calls_step sample_limiter failed_attempt z \<and>
     metrics (client (life_of z)) = [Inc ''outbound_retry_attempts_total'' [''api'']] \<and>
     conform_all client_metrics (metrics (client (life_of z)))"
proof -
  let ?k = "fst (retries failed_attempt ! 0)" and ?t = "snd (retries failed_attempt ! 0)"
  let ?c = "emit (Inc ''outbound_retry_attempts_total'' [''api'']) idle_client"
  have "\<not> (3 :: u32) \<le> 0" by (simp add: word_le_nat_alt)
  then have "\<exists>t'. retry_step sample_limiter ?k ?t idle_client = Some (t', ?c)"
    by (simp add: failed_attempt_def is_fatal_def is_transient_def sample_defs)
  then obtain t' where step: "retry_step sample_limiter ?k ?t (client (life_of failed_attempt)) = Some (t', ?c)"
    by (auto simp: failed_attempt_def idle_life_def)
  let ?z = "failed_attempt\<lparr>life_of := (life_of failed_attempt)\<lparr>client := ?c\<rparr>, retries := (retries failed_attempt)[0 := (?k, t')]\<rparr>"
  have "calls_step sample_limiter failed_attempt ?z"
    by (rule calls_step.retry [OF _ _ step]) (simp_all add: failed_attempt_def)
  moreover from this have "conform_all client_metrics (metrics (client (life_of ?z)))"
    by (intro client_metrics_conform [OF _ r_into_rtranclp]) (auto simp: failed_attempt_def idle_life_def idle_client_def)
  ultimately show ?thesis by (intro exI [of _ ?z]) (simp add: idle_client_def)
qed

end
