(* ===== verification/Httpx_Config.thy ===== *)
theory Httpx_Config
  imports Containers Float64 Std_Time "HOL-Library.Monad_Syntax"
begin

text \<open>
  Configuration loading: \<open>crates/httpx/src/config.rs\<close>.  \<open>load_yaml\<close> overlays a YAML document with
  the environment.  The YAML parser, the file system and the generic target type's
  deserialiser are arguments.  The second part models what \<open>#[derive(Deserialize)]\<close> with
  \<open>#[serde(default = ..)]\<close> attributes makes of a struct: every field is looked up by name and
  defaulted when absent.
\<close>

section \<open>YAML values\<close>

text \<open>
  A mapping keeps its entries in insertion order; inserting an existing key replaces the value in
  place.
\<close>

datatype yaml =
    YNull
  | YBool bool
  | YInt int
  | YFloat f64
  | YString string
  | YSequence "yaml list"
  | YMapping "(yaml \<times> yaml) list"
  | YTagged string yaml

definition mapping_insert :: "yaml \<Rightarrow> yaml \<Rightarrow> (yaml \<times> yaml) list \<Rightarrow> (yaml \<times> yaml) list" where
  "mapping_insert k v m =
     (if k \<in> fst ` set m then map (\<lambda>(k', v'). if k' = k then (k', v) else (k', v')) m
      else m @ [(k, v)])"

lemma map_of_replace:
  "map_of (map (\<lambda>(k', v'). if k' = k then (k', v) else (k', v')) m) x =
     (if x = k then map_option (\<lambda>_. v) (map_of m x) else map_of m x)"
  by (induction m) auto

lemma mapping_insert_get:
  "map_of (mapping_insert k v m) x = (if x = k then Some v else map_of m x)"
proof (cases "k \<in> fst ` set m")
  case True
  then obtain w where "map_of m k = Some w" by (metis map_of_eq_None_iff not_None_eq)
  with True show ?thesis by (simp add: mapping_insert_def map_of_replace)
next
  case False
  then have "map_of m k = None" by (simp add: map_of_eq_None_iff)
  with False show ?thesis by (auto simp: mapping_insert_def map_add_def split: option.splits)
qed

interpretation yaml_mapping: keyed_store map_of mapping_insert "\<lambda>_. True"
  by unfold_locales (simp_all add: mapping_insert_get)

section \<open>\<open>load_yaml\<close>\<close>

datatype 'e load_error =
    ReadError 'e
  | ParseError 'e
  | RootNotMapping
  | DeserializeError 'e

text \<open>
  \<open>str::to_lowercase\<close> on ASCII text; what it does to other text is the argument
  \<open>uni\<close>.
\<close>

definition to_lowercase :: "(string \<Rightarrow> string) \<Rightarrow> string \<Rightarrow> string" where
  "to_lowercase uni s =
     (if list_all (\<lambda>c. (of_char c :: nat) < 128) s then map ascii_lower s else uni s)"

text \<open>The overlay of one environment variable.\<close>

definition overlay_var ::
  "(string \<Rightarrow> 'e + yaml) \<Rightarrow> (string \<Rightarrow> string) \<Rightarrow> string \<Rightarrow> string \<times> string \<Rightarrow>
   (yaml \<times> yaml) list \<Rightarrow> (yaml \<times> yaml) list" where
  "overlay_var parse uni prefix kv m =
     (let (key, val) = kv
      in case strip_prefix prefix key of
           None \<Rightarrow> m
         | Some rest \<Rightarrow>
             (let parsed = (case parse val of Inr y \<Rightarrow> y | Inl e \<Rightarrow> YString val)
              in mapping_insert (YString (to_lowercase uni rest)) parsed m))"

text \<open>\<open>as_mapping_mut\<close> looks through tags; the changed mapping is put back under them.\<close>

fun overlay_root ::
  "((yaml \<times> yaml) list \<Rightarrow> (yaml \<times> yaml) list) \<Rightarrow> yaml \<Rightarrow> yaml option" where
  "overlay_root f (YMapping m) = Some (YMapping (f m))"
| "overlay_root f (YTagged t y) = map_option (YTagged t) (overlay_root f y)"
| "overlay_root f _ = None"

definition load_root ::
  "(string \<Rightarrow> 'e + yaml) \<Rightarrow> (string \<Rightarrow> bool) \<Rightarrow> (string \<Rightarrow> 'e + string) \<Rightarrow> string option \<Rightarrow>
   'e load_error + yaml" where
  "load_root parse exists read path =
     (case path of
        Some p \<Rightarrow>
          (if exists p
           then (case read p of
                   Inl e \<Rightarrow> Inl (ReadError e)
                 | Inr text \<Rightarrow> (case parse text of Inl e \<Rightarrow> Inl (ParseError e) | Inr y \<Rightarrow> Inr y))
           else Inr (YMapping []))
      | None \<Rightarrow> Inr (YMapping []))"

definition load_yaml ::
  "(string \<Rightarrow> 'e + yaml) \<Rightarrow> (string \<Rightarrow> bool) \<Rightarrow> (string \<Rightarrow> 'e + string) \<Rightarrow> (string \<Rightarrow> string) \<Rightarrow>
   (yaml \<Rightarrow> 'e + 't) \<Rightarrow> (string \<times> string) list \<Rightarrow> string option \<Rightarrow> string \<Rightarrow> 'e load_error + 't" where
  "load_yaml parse exists read uni from_value vars path env_prefix =
     (case load_root parse exists read path of
        Inl e \<Rightarrow> Inl e
      | Inr doc \<Rightarrow>
          (case overlay_root (fold (overlay_var parse uni env_prefix) vars) doc of
             None \<Rightarrow> Inl RootNotMapping
           | Some doc \<Rightarrow> (case from_value doc of Inl e \<Rightarrow> Inl (DeserializeError e) | Inr t \<Rightarrow> Inr t)))"

section \<open>Struct fields\<close>

text \<open>
  A source gives the raw value of a key; the scalar deserialisers of the format are a record of
  arguments.  \<open>None\<close> is a deserialisation error (which of several errors is reported is not
  modelled).
\<close>

type_synonym 'v source = "string \<Rightarrow> 'v option"

record 'v scalars =
  de_string :: "'v \<Rightarrow> string option"
  de_u64 :: "'v \<Rightarrow> u64 option"
  de_bool :: "'v \<Rightarrow> bool option"
  de_opt_string :: "'v \<Rightarrow> string option option"

definition field :: "'v source \<Rightarrow> string \<Rightarrow> ('v \<Rightarrow> 'a option) \<Rightarrow> 'a \<Rightarrow> 'a option" where
  "field src name de dflt = (case src name of None \<Rightarrow> Some dflt | Some v \<Rightarrow> de v)"

lemma field_absent [simp]: "src name = None \<Longrightarrow> field src name de dflt = Some dflt"
  by (simp add: field_def)

lemma field_present [simp]: "src name = Some v \<Longrightarrow> field src name de dflt = de v"
  by (simp add: field_def)

section \<open>The HTTP configuration\<close>

record httpx_config =
  hc_addr :: string
  hc_shutdown_timeout_secs :: u64
  hc_log_level :: string
  hc_log_format :: string

definition httpx_default_addr :: string where "httpx_default_addr = ''0.0.0.0:8080''"
definition default_shutdown_secs :: u64 where "default_shutdown_secs = 10"
definition default_log_level :: string where "default_log_level = ''info''"
definition default_log_format :: string where "default_log_format = ''json''"

definition httpx_config_de :: "'v scalars \<Rightarrow> 'v source \<Rightarrow> httpx_config option" where
  "httpx_config_de S src =
     do {
       addr \<leftarrow> field src ''addr'' (de_string S) httpx_default_addr;
       secs \<leftarrow> field src ''shutdown_timeout_secs'' (de_u64 S) default_shutdown_secs;
       lvl \<leftarrow> field src ''log_level'' (de_string S) default_log_level;
       fmt \<leftarrow> field src ''log_format'' (de_string S) default_log_format;
       Some \<lparr>hc_addr = addr, hc_shutdown_timeout_secs = secs, hc_log_level = lvl, hc_log_format = fmt\<rparr>
     }"

definition shutdown_timeout :: "httpx_config \<Rightarrow> duration" where
  "shutdown_timeout cfg = duration_from_secs (hc_shutdown_timeout_secs cfg)"

section \<open>Facts about the overlay\<close>

text \<open>The entries the environment contributes, in the order of the variables.\<close>

definition env_entries ::
  "(string \<Rightarrow> 'e + yaml) \<Rightarrow> (string \<Rightarrow> string) \<Rightarrow> string \<Rightarrow> (string \<times> string) list \<Rightarrow> (yaml \<times> yaml) list" where
  "env_entries parse uni prefix vars =
     concat (map (\<lambda>(key, val). case strip_prefix prefix key of
         None \<Rightarrow> []
       | Some rest \<Rightarrow> [(YString (to_lowercase uni rest), case parse val of Inr y \<Rightarrow> y | Inl e \<Rightarrow> YString val)])
       vars)"

lemma overlay_fold:
  "fold (overlay_var parse uni prefix) vars m = yaml_mapping.ins_all (env_entries parse uni prefix vars) m"
  unfolding yaml_mapping.ins_all_def
proof (induction vars arbitrary: m)
  case (Cons kv vars)
  then show ?case
    by (cases kv) (simp add: env_entries_def overlay_var_def Let_def split: option.split)
qed (simp add: env_entries_def)

lemma overlay_get:
  "map_of (fold (overlay_var parse uni prefix) vars m) k =
     (case map_of (rev (env_entries parse uni prefix vars)) k of Some v \<Rightarrow> Some v | None \<Rightarrow> map_of m k)"
  by (simp add: overlay_fold yaml_mapping.get_ins_all split: option.split)

text \<open>The variables that set a key.\<close>

fun names_key :: "(string \<Rightarrow> string) \<Rightarrow> string \<Rightarrow> yaml \<Rightarrow> string \<times> string \<Rightarrow> bool" where
  "names_key uni prefix k (key, val) \<longleftrightarrow>
     (case strip_prefix prefix key of None \<Rightarrow> False | Some rest \<Rightarrow> k = YString (to_lowercase uni rest))"

lemma env_entries_get:
  "map_of (rev (env_entries parse uni prefix vars)) k =
     map_option (\<lambda>(key, val). case parse val of Inr y \<Rightarrow> y | Inl e \<Rightarrow> YString val)
       (find (names_key uni prefix k) (rev vars))"
proof (induction vars rule: rev_induct)
  case (snoc kv vars)
  then show ?case by (cases kv) (auto simp: env_entries_def split: option.splits)
qed (simp add: env_entries_def)

section \<open>Properties\<close>

text \<open>
  C33 Precedence of the configuration sources: when the file parses to a mapping (or there is no file),
  the document handed to the deserialiser is a mapping in which every key has the value of the last
  environment variable that carries the prefix and has that key in lower case as its remainder (the
  value parsed as YAML, or the plain string when it does not parse), and otherwise the file's value.
\<close>

theorem load_yaml_precedence:
  assumes "load_root parse exists read path = Inr (YMapping m)"
  shows "\<exists>m'. load_yaml parse exists read uni from_value vars path prefix =
      (case from_value (YMapping m') of Inl e \<Rightarrow> Inl (DeserializeError e) | Inr t \<Rightarrow> Inr t) \<and>
    (\<forall>k. map_of m' k =
      (case find (names_key uni prefix k) (rev vars) of
         Some (key, val) \<Rightarrow> Some (case parse val of Inr y \<Rightarrow> y | Inl e \<Rightarrow> YString val)
       | None \<Rightarrow> map_of m k))"
  using assms
  by (intro exI [of _ "fold (overlay_var parse uni prefix) vars m"])
    (auto simp: load_yaml_def overlay_get env_entries_get split: option.splits)

theorem load_yaml_precedence_witness:
  "load_yaml (\<lambda>s. if s = ''file'' then Inr (YMapping [(YString ''addr'', YString ''f''), (YString ''log_level'', YString ''g'')])
       else (Inl () :: unit + yaml))
     (\<lambda>p. True) (\<lambda>p. Inr ''file'') (\<lambda>s. s)
     (\<lambda>y. case y of YMapping m \<Rightarrow> Inr (map_of m (YString ''addr''), map_of m (YString ''log_level'')) | _ \<Rightarrow> Inl ())
     [(''HOME'', ''h''), (''PING_ADDR'', ''e'')] (Some ''c.yaml'') ''PING_''
   = Inr (Some (YString ''e''), Some (YString ''g''))"
proof -
  let ?parse = "\<lambda>s. if s = ''file'' then Inr (YMapping [(YString ''addr'', YString ''f''), (YString ''log_level'', YString ''g'')])
       else (Inl () :: unit + yaml)"
  let ?vars = "[(''HOME'', ''h''), (''PING_ADDR'', ''e'')]"
  have root: "load_root ?parse (\<lambda>p. True) (\<lambda>p. Inr ''file'') (Some ''c.yaml'') =
      Inr (YMapping [(YString ''addr'', YString ''f''), (YString ''log_level'', YString ''g'')])"
    by (simp add: load_root_def)
  have "\<not> names_key (\<lambda>s. s) ''PING_'' k (''HOME'', ''h'')" for k by simp
  moreover have "names_key (\<lambda>s. s) ''PING_'' k (''PING_ADDR'', ''e'') \<longleftrightarrow> k = YString ''addr''" for k
  proof -
    have "to_lowercase (\<lambda>s. s) ''ADDR'' = ''addr''" by code_simp
    then show ?thesis by simp
  qed
  ultimately show ?thesis
    using load_yaml_precedence [OF root, of "\<lambda>s. s"
        "\<lambda>y. case y of YMapping m \<Rightarrow> Inr (map_of m (YString ''addr''), map_of m (YString ''log_level'')) | _ \<Rightarrow> Inl ()"
        ?vars "''PING_''"]
    by auto
qed

end
