(* ===== verification/Client_Serde.thy ===== *)
theory Client_Serde
  imports Client_Config Httpx_Config
begin

text \<open>
  Reading and writing the client's configuration: what \<open>#[derive(Serialize, Deserialize)]\<close> with
  \<open>deny_unknown_fields\<close> and the \<open>default\<close> attributes make of the structs in
  \<open>crates/resilient-client/src/config.rs\<close>.  The format (YAML) is an argument: how it reads and writes
  scalars, optional scalars, sequences and the entries of a mapping.
\<close>

section \<open>The format\<close>





section \<open>Targets\<close>




section \<open>The client\<close>





section \<open>Facts about the structs\<close>









section \<open>Properties\<close>






end
