(* ===== verification/Secret_Cache.thy ===== *)
theory Secret_Cache
  imports Containers "HOL-Library.AList"
begin

text \<open>
  The hot-swappable cache of named secrets, \<open>crates/secrets/src/cache.rs\<close>.  The snapshot that
  the \<open>ArcSwap\<close> publishes is a hash map, here the list of its entries (every name at most once);
  the order of the list is not observed.  \<open>insert\<close> is two accesses, the load of the current
  snapshot and the store of the changed copy, so that concurrent calls can be interleaved.
\<close>

section \<open>Operations\<close>

type_synonym secret = string
type_synonym snapshot = "(string \<times> secret) list"

record secret_cache =
  snapshot_of :: snapshot

definition cache_wf :: "secret_cache \<Rightarrow> bool" where
  "cache_wf c \<longleftrightarrow> distinct (map fst (snapshot_of c))"

definition cache_new :: secret_cache where
  "cache_new = \<lparr>snapshot_of = []\<rparr>"

definition cache_get :: "secret_cache \<Rightarrow> string \<Rightarrow> secret option" where
  "cache_get c name = map_of (snapshot_of c) name"

definition cache_len :: "secret_cache \<Rightarrow> usize" where
  "cache_len c = of_nat (length (snapshot_of c))"

definition cache_is_empty :: "secret_cache \<Rightarrow> bool" where
  "cache_is_empty c = List.null (snapshot_of c)"

definition cache_replace :: "snapshot \<Rightarrow> secret_cache \<Rightarrow> secret_cache" where
  "cache_replace secrets c = c\<lparr>snapshot_of := secrets\<rparr>"

definition insert_load :: "secret_cache \<Rightarrow> snapshot" where
  "insert_load c = snapshot_of c"

definition insert_store :: "string \<Rightarrow> secret \<Rightarrow> snapshot \<Rightarrow> secret_cache \<Rightarrow> secret_cache" where
  "insert_store name s loaded c = (let next = AList.update name s loaded in c\<lparr>snapshot_of := next\<rparr>)"

definition cache_insert :: "string \<Rightarrow> secret \<Rightarrow> secret_cache \<Rightarrow> secret_cache" where
  "cache_insert name s c = insert_store name s (insert_load c) c"

lemma cache_get_insert:
  "cache_get (cache_insert k v c) k' = (if k' = k then Some v else cache_get c k')"
  by (simp add: cache_get_def cache_insert_def insert_store_def insert_load_def update_conv')

lemma cache_wf_insert: "cache_wf c \<Longrightarrow> cache_wf (cache_insert k v c)"
  by (simp add: cache_wf_def cache_insert_def insert_store_def insert_load_def distinct_update)

interpretation cache: keyed_store cache_get cache_insert cache_wf
  by unfold_locales (simp_all add: cache_get_insert cache_wf_insert)

lemma cache_len_dom:
  assumes "cache_wf c"
  shows "length (snapshot_of c) = card {name. cache_get c name \<noteq> None}"
proof -
  have "{name. cache_get c name \<noteq> None} = set (map fst (snapshot_of c))"
    by (auto simp: cache_get_def map_of_eq_None_iff image_iff)
  then have "card {name. cache_get c name \<noteq> None} = length (map fst (snapshot_of c))"
    using distinct_card [of "map fst (snapshot_of c)"] assms by (simp add: cache_wf_def)
  then show ?thesis by simp
qed

section \<open>Properties\<close>

text \<open>
  One writer at a time, the cache is a dictionary: after any sequence of inserts into a new
  cache a lookup gives the value of the last insert of that name and nothing for a name never
  inserted, and the length is the number of distinct names.
\<close>

theorem cache_inserts:
  "cache_get (fold (\<lambda>(k, v). cache_insert k v) kvs cache_new) name = map_of (rev kvs) name \<and>
   length (snapshot_of (fold (\<lambda>(k, v). cache_insert k v) kvs cache_new)) = card (fst ` set kvs)"
proof -
  let ?c = "cache.ins_all kvs cache_new"
  have wf: "cache_wf cache_new" by (simp add: cache_wf_def cache_new_def)
  have get: "cache_get ?c k = map_of (rev kvs) k" for k
    using cache.get_ins_all [OF wf, of kvs k] by (simp add: cache_new_def cache_get_def split: option.splits)
  have "{name. cache_get ?c name \<noteq> None} = fst ` set kvs"
    unfolding get by (auto simp: map_of_eq_None_iff image_iff)
  then have "length (snapshot_of ?c) = card (fst ` set kvs)"
    using cache_len_dom [OF cache.wf_ins_all [OF wf]] by simp
  with get show ?thesis by (simp add: cache.ins_all_def)
qed

text \<open>
  C40 Two writers lose an update: \<open>insert\<close> stores a copy of the snapshot it loaded without checking
  that it is still current, so when a second insert loads before the first one stores, the first
  secret is gone, for every cache and every two different names.
\<close>

theorem concurrent_insert_lost:
  assumes "a \<noteq> b" "cache_get c a = None"
  shows "let loaded_a = insert_load c; loaded_b = insert_load c;
             c1 = insert_store a x loaded_a c; c2 = insert_store b y loaded_b c1
         in cache_get c1 a = Some x \<and> cache_get c2 b = Some y \<and> cache_get c2 a = None"
  using assms by (simp add: cache_get_def insert_store_def insert_load_def update_conv')

theorem concurrent_insert_lost_witness:
  "let c2 = insert_store ''b'' ''y'' (insert_load cache_new)
     (insert_store ''a'' ''x'' (insert_load cache_new) cache_new)
   in cache_get c2 ''b'' = Some ''y'' \<and> cache_get c2 ''a'' = None"
  using concurrent_insert_lost [of "''a''" "''b''" cache_new "''x''" "''y''"]
  by (simp add: cache_get_def cache_new_def Let_def)

end
