(* ===== verification/Secret_Cache_Conc.thy ===== *)
theory Secret_Cache_Conc
  imports Secret_Cache Transition_Systems
begin

text \<open>
  The secret cache shared by any number of threads: \<open>crates/secrets/src/cache.rs\<close> with every call cut at
  its accesses to the \<open>ArcSwap\<close>.  A read is one load, \<open>replace\<close> one store, \<open>insert\<close> a load and a store.
  The step relation has a flag: with it set a write starts only when no other is between its load and
  its store, as when all writers share one lock or are one task.
\<close>

section \<open>Calls and their accesses\<close>

datatype cache_call =
    Reading string
  | ReadDone string "secret option"
  | Inserting string secret
  | Copied string secret snapshot
  | Inserted string secret
  | Replacing snapshot
  | Replaced snapshot

datatype cache_write = WInsert string secret | WReplace snapshot

text \<open>One access: the call afterwards, the cache, and the write it has published, if any.\<close>

fun call_step :: "cache_call \<Rightarrow> secret_cache \<Rightarrow> (cache_call \<times> secret_cache \<times> cache_write list) option" where
  "call_step (Reading name) c = Some (ReadDone name (cache_get c name), c, [])"
| "call_step (Inserting name s) c = Some (Copied name s (insert_load c), c, [])"
| "call_step (Copied name s loaded) c = Some (Inserted name s, insert_store name s loaded c, [WInsert name s])"
| "call_step (Replacing secrets) c = Some (Replaced secrets, cache_replace secrets c, [WReplace secrets])"
| "call_step (ReadDone name v) c = None"
| "call_step (Inserted name s) c = None"
| "call_step (Replaced secrets) c = None"

text \<open>The log lists the writes in the order in which they were published, each with the call that made it.\<close>

record cache_system =
  cs_cache :: secret_cache
  cs_calls :: "cache_call list"
  cs_log :: "(nat \<times> cache_write) list"

fun copying :: "cache_call \<Rightarrow> bool" where
  "copying (Copied name s loaded) = True"
| "copying _ = False"

fun starts_write :: "cache_call \<Rightarrow> bool" where
  "starts_write (Inserting name s) = True"
| "starts_write (Replacing secrets) = True"
| "starts_write _ = False"

inductive cache_system_step :: "bool \<Rightarrow> cache_system \<Rightarrow> cache_system \<Rightarrow> bool" for exclusive where
  call: "j < length (cs_calls y) \<Longrightarrow> call_step (cs_calls y ! j) (cs_cache y) = Some (p, c, ws) \<Longrightarrow>
    (exclusive \<and> starts_write (cs_calls y ! j) \<longrightarrow> \<not> list_ex copying (cs_calls y)) \<Longrightarrow>
    cache_system_step exclusive y \<lparr>cs_cache = c, cs_calls = (cs_calls y)[j := p], cs_log = cs_log y @ map (Pair j) ws\<rparr>"

section \<open>The dictionary the log describes\<close>

fun apply_write :: "cache_write \<Rightarrow> (string \<rightharpoonup> secret) \<Rightarrow> (string \<rightharpoonup> secret)" where
  "apply_write (WInsert name s) m = m(name \<mapsto> s)"
| "apply_write (WReplace secrets) m = map_of secrets"

definition written :: "(string \<rightharpoonup> secret) \<Rightarrow> (nat \<times> cache_write) list \<Rightarrow> (string \<rightharpoonup> secret)" where
  "written m ws = fold (\<lambda>(j, w). apply_write w) ws m"

lemma written_simps [simp]:
  "written m [] = m" "written m (ws @ [(j, w)]) = apply_write w (written m ws)"
  by (simp_all add: written_def)

section \<open>The order of the accesses\<close>

text \<open>What a call has published when it has returned.\<close>

fun returned_write :: "cache_call \<Rightarrow> cache_write option" where
  "returned_write (Inserted name s) = Some (WInsert name s)"
| "returned_write (Replaced secrets) = Some (WReplace secrets)"
| "returned_write _ = None"

lemma call_step_returns:
  "call_step p c = Some (p', c', ws) \<Longrightarrow>
    returned_write p = None \<and> ws = (case returned_write p' of None \<Rightarrow> [] | Some w \<Rightarrow> [w])"
  by (induction p c rule: call_step.induct) auto

fun fresh_call :: "cache_call \<Rightarrow> bool" where
  "fresh_call (Reading name) = True"
| "fresh_call (Inserting name s) = True"
| "fresh_call (Replacing secrets) = True"
| "fresh_call _ = False"

definition cache_begins :: "secret_cache \<Rightarrow> cache_system \<Rightarrow> bool" where
  "cache_begins c y \<longleftrightarrow> cs_cache y = c \<and> list_all fresh_call (cs_calls y) \<and> cs_log y = []"

text \<open>The log holds the write of every call that has returned from one, once, and nothing else.\<close>

definition log_ok :: "cache_system \<Rightarrow> bool" where
  "log_ok y \<longleftrightarrow> distinct (map fst (cs_log y)) \<and>
     (\<forall>j w. (j, w) \<in> set (cs_log y) \<longleftrightarrow> j < length (cs_calls y) \<and> returned_write (cs_calls y ! j) = Some w)"

lemma log_ok_step:
  assumes "cache_system_step ex y z" "log_ok y"
  shows "log_ok z"
  using assms
proof (induction rule: cache_system_step.induct)
  case (call j y p c ws)
  note ret = call_step_returns [OF call(2)]
  then have new: "(j, w) \<notin> set (cs_log y)" for w using call(4) by (auto simp: log_ok_def)
  then have "j \<notin> fst ` set (cs_log y)" by force
  then show ?case
    using call(1,4) ret new by (auto simp: log_ok_def nth_list_update split: option.splits)
qed

interpretation logged: inductive_invariant "cache_begins c" "cache_system_step ex" log_ok for c ex
proof unfold_locales
  fix y assume y: "cache_begins c y"
  have "returned_write (cs_calls y ! j) = None" if "j < length (cs_calls y)" for j
  proof -
    have "fresh_call (cs_calls y ! j)" using y that by (simp add: cache_begins_def list_all_length)
    then show ?thesis by (cases "cs_calls y ! j") auto
  qed
  then show "log_ok y" using y by (auto simp: log_ok_def cache_begins_def)
qed (rule log_ok_step)

lemma log_grows: "(cache_system_step ex)\<^sup>*\<^sup>* y z \<Longrightarrow> \<exists>ws. cs_log z = cs_log y @ ws"
proof (induction rule: rtranclp_induct)
  case (step z t)
  then show ?case by (auto elim!: cache_system_step.cases)
qed simp

lemma done_stays:
  assumes "(cache_system_step ex)\<^sup>*\<^sup>* y z" "cs_calls y ! j = p" "\<And>c. call_step p c = None"
  shows "cs_calls z ! j = p"
  using assms(1)
proof (induction rule: rtranclp_induct)
  case (step z t)
  from step(2) show ?case
  proof cases
    case (call i p' c ws)
    then have "i \<noteq> j" using step(3) assms(3) by auto
    then show ?thesis using call step(3) by simp
  qed
qed (use assms(2) in simp)

text \<open>A read answers from the cache as it is at one moment between the call and its return.\<close>

lemma read_between:
  assumes "(cache_system_step ex)\<^sup>*\<^sup>* u z" "j < length (cs_calls u)" "cs_calls u ! j = Reading name"
    and "cs_calls z ! j = ReadDone name v"
  shows "\<exists>w. (cache_system_step ex)\<^sup>*\<^sup>* u w \<and> (cache_system_step ex)\<^sup>*\<^sup>* w z \<and> v = cache_get (cs_cache w) name"
  using assms
proof (induction rule: converse_rtranclp_induct)
  case (step u t)
  from step(1) show ?case
  proof cases
    case (call i p c ws)
    show ?thesis
    proof (cases "i = j")
      case True
      then have "cs_calls t ! j = ReadDone name (cache_get (cs_cache u) name)" using call step(4,5) by auto
      from done_stays [OF step(2) this] have "v = cache_get (cs_cache u) name" using step(6) by simp
      then show ?thesis using converse_rtranclp_into_rtranclp [of "cache_system_step ex", OF step(1,2)] by (intro exI [of _ u]) simp
    next
      case False
      then have "j < length (cs_calls t)" "cs_calls t ! j = Reading name" using call step(4,5) by auto
      from step(3) [OF this step(6)] obtain w where "(cache_system_step ex)\<^sup>*\<^sup>* t w" "(cache_system_step ex)\<^sup>*\<^sup>* w z"
        "v = cache_get (cs_cache w) name" by blast
      then show ?thesis using converse_rtranclp_into_rtranclp [of "cache_system_step ex", OF step(1)] by (intro exI [of _ w]) simp
    qed
  qed
qed simp

section \<open>One writer at a time\<close>

fun current :: "(string \<rightharpoonup> secret) \<Rightarrow> cache_call \<Rightarrow> bool" where
  "current now (Copied name s loaded) \<longleftrightarrow> map_of loaded = now"
| "current now _ \<longleftrightarrow> True"

definition cache_inv :: "secret_cache \<Rightarrow> cache_system \<Rightarrow> bool" where
  "cache_inv c y \<longleftrightarrow>
     cache_get (cs_cache y) = written (cache_get c) (cs_log y) \<and>
     list_all (current (cache_get (cs_cache y))) (cs_calls y) \<and>
     length (filter copying (cs_calls y)) \<le> 1"

lemma cache_invD:
  assumes "cache_inv c y"
  shows "cache_get (cs_cache y) = written (cache_get c) (cs_log y)"
    and "p \<in> set (cs_calls y) \<Longrightarrow> current (cache_get (cs_cache y)) p"
    and "length (filter copying (cs_calls y)) \<le> 1"
  using assms unfolding cache_inv_def list_all_iff by blast+

lemma current_idle: "\<not> copying p \<Longrightarrow> current now p"
  by (cases p) auto

text \<open>What an access does to the cache and the log, and to the call itself.\<close>

lemma call_step_effect:
  assumes "call_step p c = Some (p', c', ws)" "cache_get c = written m log" "current (cache_get c) p"
  shows "cache_get c' = written m (log @ map (Pair j) ws) \<and> current (cache_get c') p' \<and>
    (copying p' \<longrightarrow> starts_write p) \<and> (ws = [] \<and> c' = c \<or> copying p \<or> starts_write p)"
  using assms
proof (induction p c rule: call_step.induct)
  case (3 name s loaded c)
  then show ?case by (auto simp: cache_get_def insert_store_def update_conv' fun_eq_iff)
qed (auto simp: cache_get_def insert_load_def cache_replace_def fun_eq_iff)

lemma only_copying:
  assumes "length (filter P xs) \<le> 1" "j < length xs" "P (xs ! j)" "k < length xs" "k \<noteq> j"
  shows "\<not> P (xs ! k)"
proof
  assume "P (xs ! k)"
  then have "{j, k} \<subseteq> {i. i < length xs \<and> P (xs ! i)}" using assms by auto
  then have "card {j, k} \<le> card {i. i < length xs \<and> P (xs ! i)}" by (intro card_mono) auto
  then show False using assms(1,5) by (simp add: length_filter_conv_card)
qed

text \<open>An access keeps what is known of the other calls: it writes nothing, or no other call holds a copy.\<close>

lemma others_current:
  assumes inv: "cache_inv c y" and step: "call_step (cs_calls y ! j) (cs_cache y) = Some (p, c', ws)"
    and alone: "starts_write (cs_calls y ! j) \<Longrightarrow> \<not> list_ex copying (cs_calls y)"
    and "j < length (cs_calls y)" "k < length (cs_calls y)" "k \<noteq> j"
  shows "current (cache_get c') (cs_calls y ! k)"
proof -
  note ok = cache_invD(2) [OF inv nth_mem]
  note effect = call_step_effect [OF step cache_invD(1) [OF inv] ok [OF assms(4)]]
  show ?thesis
  proof (cases "ws = [] \<and> c' = cs_cache y")
    case True
    then show ?thesis using ok [OF assms(5)] by simp
  next
    case False
    then have "copying (cs_calls y ! j) \<or> starts_write (cs_calls y ! j)" using effect by blast
    then have "\<not> copying (cs_calls y ! k)"
      using only_copying [OF cache_invD(3) [OF inv] assms(4) _ assms(5,6)] alone assms(5) by (auto simp: list_ex_length)
    then show ?thesis by (rule current_idle)
  qed
qed

lemma cache_inv_step:
  assumes "cache_system_step True y z" "cache_inv c y"
  shows "cache_inv c z"
  using assms
proof (induction rule: cache_system_step.induct)
  case (call j y p c' ws)
  let ?p = "cs_calls y ! j"
  have alone: "\<not> list_ex copying (cs_calls y)" if "starts_write ?p" using call(3) that by simp
  note effect = call_step_effect [OF call(2) cache_invD(1) [OF call(4)] cache_invD(2) [OF call(4) nth_mem [OF call(1)]], of j]
  have "list_all (current (cache_get c')) ((cs_calls y)[j := p])"
    using effect others_current [OF call(4,2) alone call(1)] call(1) by (auto simp: list_all_length nth_list_update)
  moreover have "length (filter copying ((cs_calls y)[j := p])) \<le> 1"
  proof (cases "starts_write ?p")
    case True
    then have "filter copying (cs_calls y) = []" using alone by (simp add: filter_empty_conv list_ex_iff)
    then show ?thesis using length_filter_update [OF call(1), of copying p] by (auto split: if_splits)
  next
    case False
    then have "\<not> copying p" using effect by blast
    then show ?thesis using length_filter_update [OF call(1), of copying p] cache_invD(3) [OF call(4)] by (auto split: if_splits)
  qed
  ultimately show ?case using effect by (simp add: cache_inv_def)
qed

lemma cache_inv_start:
  assumes "cache_begins c y"
  shows "cache_inv c y"
proof -
  have idle: "\<not> copying p" if "p \<in> set (cs_calls y)" for p
  proof -
    have "fresh_call p" using assms that by (simp add: cache_begins_def list_all_iff)
    then show ?thesis by (cases p) auto
  qed
  then have "filter copying (cs_calls y) = []" by (simp add: filter_empty_conv)
  then show ?thesis using assms idle current_idle by (auto simp: cache_inv_def cache_begins_def list_all_iff)
qed

interpretation shared_cache: inductive_invariant "cache_begins c" "cache_system_step True" "cache_inv c" for c
  by unfold_locales (rule cache_inv_start, assumption, rule cache_inv_step)

text \<open>A read answers from the dictionary after some prefix of the log that is current during the call.\<close>

lemma read_linearizes:
  assumes "cache_inv c u" "(cache_system_step True)\<^sup>*\<^sup>* u z" "j < length (cs_calls u)"
    and "cs_calls u ! j = Reading name" "cs_calls z ! j = ReadDone name v"
  shows "\<exists>n. length (cs_log u) \<le> n \<and> n \<le> length (cs_log z) \<and> v = written (cache_get c) (take n (cs_log z)) name"
proof -
  from read_between [OF assms(2-5)] obtain w where w: "(cache_system_step True)\<^sup>*\<^sup>* u w"
    "(cache_system_step True)\<^sup>*\<^sup>* w z" "v = cache_get (cs_cache w) name" by blast
  have "v = written (cache_get c) (cs_log w) name"
    using cache_invD(1) [OF shared_cache.steps_inv [OF w(1) assms(1)]] w(3) by simp
  moreover obtain us ws where "cs_log w = cs_log u @ us" "cs_log z = cs_log w @ ws"
    using log_grows [OF w(1)] log_grows [OF w(2)] by blast
  ultimately show ?thesis by (intro exI [of _ "length (cs_log w)"]) simp
qed

section \<open>Concurrent writers\<close>

text \<open>Which secrets can come from where: \<open>src\<close> holds of a name and a secret that some call or the cache had.\<close>

fun sourced :: "(string \<Rightarrow> secret \<Rightarrow> bool) \<Rightarrow> cache_call \<Rightarrow> bool" where
  "sourced src (Reading name) \<longleftrightarrow> True"
| "sourced src (ReadDone name v) \<longleftrightarrow> (\<forall>s. v = Some s \<longrightarrow> src name s)"
| "sourced src (Inserting name s) \<longleftrightarrow> src name s"
| "sourced src (Copied name s loaded) \<longleftrightarrow> src name s \<and> (\<forall>k v. map_of loaded k = Some v \<longrightarrow> src k v)"
| "sourced src (Inserted name s) \<longleftrightarrow> True"
| "sourced src (Replacing secrets) \<longleftrightarrow> (\<forall>k v. map_of secrets k = Some v \<longrightarrow> src k v)"
| "sourced src (Replaced secrets) \<longleftrightarrow> True"

lemma sourced_read: "sourced src (ReadDone name (Some s)) \<Longrightarrow> src name s"
  by simp

definition all_sourced :: "(string \<Rightarrow> secret \<Rightarrow> bool) \<Rightarrow> cache_system \<Rightarrow> bool" where
  "all_sourced src y \<longleftrightarrow>
     (\<forall>k v. cache_get (cs_cache y) k = Some v \<longrightarrow> src k v) \<and> list_all (sourced src) (cs_calls y)"

lemma call_step_sourced:
  assumes "call_step p c = Some (p', c', ws)" "sourced src p" "\<forall>k v. cache_get c k = Some v \<longrightarrow> src k v"
  shows "sourced src p' \<and> (\<forall>k v. cache_get c' k = Some v \<longrightarrow> src k v)"
  using assms
  by (induction p c rule: call_step.induct)
    (auto simp: cache_get_def insert_load_def insert_store_def cache_replace_def update_conv' split: if_splits)

interpretation sourced_cache: inductive_invariant "all_sourced src" "cache_system_step ex" "all_sourced src" for src ex
proof unfold_locales
  fix y z assume "cache_system_step ex y z" "all_sourced src y"
  then show "all_sourced src z"
  proof (induction rule: cache_system_step.induct)
    case (call j y p c ws)
    from call(4) have "sourced src (cs_calls y ! j)" "\<forall>k v. cache_get (cs_cache y) k = Some v \<longrightarrow> src k v"
      using call(1) by (simp_all add: all_sourced_def list_all_length)
    from call_step_sourced [OF call(2) this] call(1,4) show ?case
      by (auto simp: all_sourced_def list_all_length nth_list_update)
  qed
qed

lemma read_sourced:
  assumes "list_all fresh_call (cs_calls y)" "(cache_system_step ex)\<^sup>*\<^sup>* y z" "ReadDone name (Some s) \<in> set (cs_calls z)"
  shows "cache_get (cs_cache y) name = Some s \<or> Inserting name s \<in> set (cs_calls y) \<or>
    (\<exists>secrets. Replacing secrets \<in> set (cs_calls y) \<and> map_of secrets name = Some s)"
proof -
  let ?src = "\<lambda>name s. cache_get (cs_cache y) name = Some s \<or> Inserting name s \<in> set (cs_calls y) \<or>
    (\<exists>secrets. Replacing secrets \<in> set (cs_calls y) \<and> map_of secrets name = Some s)"
  have "sourced ?src p" if "p \<in> set (cs_calls y)" for p
  proof -
    have "fresh_call p" using assms(1) that by (simp add: list_all_iff)
    then show ?thesis using that by (cases p) auto
  qed
  then have "all_sourced ?src y" by (simp add: all_sourced_def list_all_iff)
  from sourced_cache.steps_inv [OF assms(2) this]
  have "sourced ?src (ReadDone name (Some s))" using assms(3) by (simp only: all_sourced_def list_all_iff)
  then show ?thesis by (rule sourced_read)
qed

section \<open>Properties\<close>

text \<open>
  C28 Threads sharing the cache, between any two states \<open>u\<close> and \<open>z\<close> of an execution.  However the calls
  interleave, a read that starts after \<open>u\<close> and has returned at \<open>z\<close> answered from the cache as it was at one
  moment in between, finds only secrets that the cache held or that some call inserts or loads under that
  name, and the log of published writes only grows: it holds the write of every insert and replace that
  has returned, once, and no other.  While one writer is active at a time the cache is linearizable: its
  content is the dictionary of the logged writes in their order, and a read that starts after \<open>u\<close> and has
  returned at \<open>z\<close> answered from the dictionary after a prefix of the log that contains every write
  returned before \<open>u\<close> and none published after \<open>z\<close>.
\<close>

theorem cache_shared:
  assumes "list_all fresh_call (cs_calls y)" "cs_log y = []"
    and "(cache_system_step ex)\<^sup>*\<^sup>* y u" "(cache_system_step ex)\<^sup>*\<^sup>* u z"
  shows "(\<forall>j name v. j < length (cs_calls u) \<and> cs_calls u ! j = Reading name \<and> cs_calls z ! j = ReadDone name v \<longrightarrow>
      (\<exists>w. (cache_system_step ex)\<^sup>*\<^sup>* u w \<and> (cache_system_step ex)\<^sup>*\<^sup>* w z \<and> v = cache_get (cs_cache w) name)) \<and>
    (\<forall>name s. ReadDone name (Some s) \<in> set (cs_calls z) \<longrightarrow>
      cache_get (cs_cache y) name = Some s \<or> Inserting name s \<in> set (cs_calls y) \<or>
      (\<exists>secrets. Replacing secrets \<in> set (cs_calls y) \<and> map_of secrets name = Some s)) \<and>
    (\<exists>ws. cs_log z = cs_log u @ ws) \<and> distinct (map fst (cs_log z)) \<and>
    (\<forall>j w. (j, w) \<in> set (cs_log z) \<longleftrightarrow> j < length (cs_calls z) \<and> returned_write (cs_calls z ! j) = Some w) \<and>
    (ex \<longrightarrow>
      cache_get (cs_cache z) = written (cache_get (cs_cache y)) (cs_log z) \<and>
      (\<forall>j name v. j < length (cs_calls u) \<and> cs_calls u ! j = Reading name \<and> cs_calls z ! j = ReadDone name v \<longrightarrow>
        (\<exists>n. length (cs_log u) \<le> n \<and> n \<le> length (cs_log z) \<and>
          v = written (cache_get (cs_cache y)) (take n (cs_log z)) name)))"
proof (intro conjI)
  have begins: "cache_begins (cs_cache y) y" using assms(1,2) by (simp add: cache_begins_def)
  have yz: "(cache_system_step ex)\<^sup>*\<^sup>* y z" using assms(3,4) by simp
  show "\<forall>j name v. j < length (cs_calls u) \<and> cs_calls u ! j = Reading name \<and> cs_calls z ! j = ReadDone name v \<longrightarrow>
      (\<exists>w. (cache_system_step ex)\<^sup>*\<^sup>* u w \<and> (cache_system_step ex)\<^sup>*\<^sup>* w z \<and> v = cache_get (cs_cache w) name)"
    using read_between [OF assms(4)] by blast
  show "\<forall>name s. ReadDone name (Some s) \<in> set (cs_calls z) \<longrightarrow>
      cache_get (cs_cache y) name = Some s \<or> Inserting name s \<in> set (cs_calls y) \<or>
      (\<exists>secrets. Replacing secrets \<in> set (cs_calls y) \<and> map_of secrets name = Some s)"
    by (intro allI impI) (rule read_sourced [OF assms(1) yz])
  show "\<exists>ws. cs_log z = cs_log u @ ws" by (rule log_grows [OF assms(4)])
  have log: "log_ok z" by (rule logged.steps_inv [OF yz logged.start_inv [OF begins]])
  then show "distinct (map fst (cs_log z))"
    "\<forall>j w. (j, w) \<in> set (cs_log z) \<longleftrightarrow> j < length (cs_calls z) \<and> returned_write (cs_calls z ! j) = Some w"
    unfolding log_ok_def by blast+
  have inv: "cache_inv (cs_cache y) u" "cache_inv (cs_cache y) z" if ex
    using shared_cache.steps_inv [OF _ shared_cache.start_inv [OF begins]] assms(3) yz that by simp_all
  have "(cache_system_step True)\<^sup>*\<^sup>* u z" if ex using assms(4) that by simp
  then show "ex \<longrightarrow> cache_get (cs_cache z) = written (cache_get (cs_cache y)) (cs_log z) \<and>
      (\<forall>j name v. j < length (cs_calls u) \<and> cs_calls u ! j = Reading name \<and> cs_calls z ! j = ReadDone name v \<longrightarrow>
        (\<exists>n. length (cs_log u) \<le> n \<and> n \<le> length (cs_log z) \<and>
          v = written (cache_get (cs_cache y)) (take n (cs_log z)) name))"
    using cache_invD(1) [OF inv(2)] read_linearizes [OF inv(1)] by blast
qed

text \<open>A read that starts after an insert has returned finds its secret; one that overlaps may not.\<close>

definition cache_race :: cache_system where
  "cache_race =
     \<lparr>cs_cache = cache_new, cs_calls = [Inserting ''k'' ''v'', Reading ''k'', Reading ''k''], cs_log = []\<rparr>"

lemma cache_race_steps:
  defines "u \<equiv> \<lparr>cs_cache = \<lparr>snapshot_of = [(''k'', ''v'')]\<rparr>,
    cs_calls = [Inserted ''k'' ''v'', ReadDone ''k'' None, Reading ''k''], cs_log = [(0, WInsert ''k'' ''v'')]\<rparr>"
  shows "(cache_system_step True)\<^sup>*\<^sup>* cache_race u"
    "cache_system_step True u (u\<lparr>cs_calls := [Inserted ''k'' ''v'', ReadDone ''k'' None, ReadDone ''k'' (Some ''v'')]\<rparr>)"
proof -
  let ?y1 = "cache_race\<lparr>cs_calls := [Copied ''k'' ''v'' [], Reading ''k'', Reading ''k'']\<rparr>"
  let ?y2 = "cache_race\<lparr>cs_calls := [Copied ''k'' ''v'' [], ReadDone ''k'' None, Reading ''k'']\<rparr>"
  have s1: "cache_system_step True cache_race ?y1"
    using cache_system_step.call [of 0 cache_race "Copied ''k'' ''v'' []" cache_new "[]" True]
    by (simp add: cache_race_def insert_load_def cache_new_def)
  have s2: "cache_system_step True ?y1 ?y2"
    using cache_system_step.call [of 1 ?y1 "ReadDone ''k'' None" cache_new "[]" True]
    by (simp add: cache_race_def cache_get_def cache_new_def)
  have s3: "cache_system_step True ?y2 u"
    using cache_system_step.call [of 0 ?y2 "Inserted ''k'' ''v''" "\<lparr>snapshot_of = [(''k'', ''v'')]\<rparr>" "[WInsert ''k'' ''v'']" True]
    by (simp add: u_def cache_race_def insert_store_def cache_new_def)
  show "(cache_system_step True)\<^sup>*\<^sup>* cache_race u"
    by (rule converse_rtranclp_into_rtranclp [OF s1 converse_rtranclp_into_rtranclp [OF s2
          r_into_rtranclp [where r = "cache_system_step True", OF s3]]])
  show "cache_system_step True u (u\<lparr>cs_calls := [Inserted ''k'' ''v'', ReadDone ''k'' None, ReadDone ''k'' (Some ''v'')]\<rparr>)"
    using cache_system_step.call [of 2 u "ReadDone ''k'' (Some ''v'')" "\<lparr>snapshot_of = [(''k'', ''v'')]\<rparr>" "[]" True]
    by (simp add: u_def cache_get_def)
qed

theorem cache_shared_witness:
  "\<exists>u z. (cache_system_step True)\<^sup>*\<^sup>* cache_race u \<and> (cache_system_step True)\<^sup>*\<^sup>* u z \<and> length (cs_log u) = 1 \<and>
     cs_calls u ! 2 = Reading ''k'' \<and> cs_calls z ! 1 = ReadDone ''k'' None \<and> cs_calls z ! 2 = ReadDone ''k'' (Some ''v'') \<and>
     (\<exists>n. 1 \<le> n \<and> n \<le> 1 \<and> Some ''v'' = written Map.empty (take n (cs_log z)) ''k'')"
proof -
  let ?u = "\<lparr>cs_cache = \<lparr>snapshot_of = [(''k'', ''v'')]\<rparr>,
    cs_calls = [Inserted ''k'' ''v'', ReadDone ''k'' None, Reading ''k''], cs_log = [(0, WInsert ''k'' ''v'')]\<rparr>"
  let ?z = "?u\<lparr>cs_calls := [Inserted ''k'' ''v'', ReadDone ''k'' None, ReadDone ''k'' (Some ''v'')]\<rparr>"
  have uz: "(cache_system_step True)\<^sup>*\<^sup>* ?u ?z" using cache_race_steps(2) by (rule r_into_rtranclp)
  have fresh: "list_all fresh_call (cs_calls cache_race)" "cs_log cache_race = []" by (simp_all add: cache_race_def)
  have get: "cache_get (cs_cache cache_race) = Map.empty"
    by (simp add: cache_race_def cache_get_def cache_new_def fun_eq_iff)
  have call: "2 < length (cs_calls ?u) \<and> cs_calls ?u ! 2 = Reading ''k'' \<and> cs_calls ?z ! 2 = ReadDone ''k'' (Some ''v'')"
    by simp
  note linear = cache_shared [OF fresh cache_race_steps(1) uz, THEN conjunct2, THEN conjunct2, THEN conjunct2,
      THEN conjunct2, THEN conjunct2, rule_format, OF TrueI, THEN conjunct2, rule_format, OF call]
  then have "\<exists>n. 1 \<le> n \<and> n \<le> 1 \<and> Some ''v'' = written Map.empty (take n (cs_log ?z)) ''k''"
    unfolding get by simp
  then show ?thesis using cache_race_steps(1) uz by (intro exI [of _ ?u] exI [of _ ?z] conjI) simp_all
qed

end
