(* ===== verification/Service_Configs.thy ===== *)
theory Service_Configs
  imports Httpx_Config Float64
begin

text \<open>
  The configuration structs of the data libraries and of the services, with their defaults and the
  projections of a service's configuration into those of the libraries it wires:
  \<open>crates/{valkey,kafka,otelx,tasks,consumer,heartbeat}/src/config.rs\<close>.  Reading a struct from a
  source of raw values is the field-by-field lookup of \<open>Httpx_Config\<close>; the sampling ratio, a
  double, has its own scalar deserialiser.
\<close>

section \<open>Library configurations\<close>

record valkey_config =
  vc_url :: string
  vc_probe_secs :: u64

definition default_valkey_url :: string where "default_valkey_url = ''redis://127.0.0.1:6379''"
definition default_probe_secs :: u64 where "default_probe_secs = 5"

definition valkey_config_de :: "'v scalars \<Rightarrow> 'v source \<Rightarrow> valkey_config option" where
  "valkey_config_de S src =
     do {
       url \<leftarrow> field src ''valkey_url'' (de_string S) default_valkey_url;
       secs \<leftarrow> field src ''valkey_probe_secs'' (de_u64 S) default_probe_secs;
       Some \<lparr>vc_url = url, vc_probe_secs = secs\<rparr>
     }"

definition valkey_config_default :: valkey_config where
  "valkey_config_default = \<lparr>vc_url = default_valkey_url, vc_probe_secs = default_probe_secs\<rparr>"

record kafka_config =
  kc_brokers :: string
  kc_topic :: string
  kc_group :: string
  kc_client_id :: string
  kc_probe_secs :: u64

definition default_brokers :: string where "default_brokers = ''localhost:9092''"
definition default_topic :: string where "default_topic = ''tasks.events''"
definition default_group :: string where "default_group = ''tasks-consumer''"
definition kafka_default_client_id :: string where "kafka_default_client_id = ''rust-basics''"
definition kafka_default_probe_secs :: u64 where "kafka_default_probe_secs = 5"

definition kafka_config_de :: "'v scalars \<Rightarrow> 'v source \<Rightarrow> kafka_config option" where
  "kafka_config_de S src =
     do {
       brokers \<leftarrow> field src ''kafka_brokers'' (de_string S) default_brokers;
       topic \<leftarrow> field src ''kafka_topic'' (de_string S) default_topic;
       grp \<leftarrow> field src ''kafka_group'' (de_string S) default_group;
       cid \<leftarrow> field src ''kafka_client_id'' (de_string S) kafka_default_client_id;
       secs \<leftarrow> field src ''kafka_probe_secs'' (de_u64 S) kafka_default_probe_secs;
       Some \<lparr>kc_brokers = brokers, kc_topic = topic, kc_group = grp, kc_client_id = cid, kc_probe_secs = secs\<rparr>
     }"

definition kafka_config_default :: kafka_config where
  "kafka_config_default =
     \<lparr>kc_brokers = default_brokers, kc_topic = default_topic, kc_group = default_group,
      kc_client_id = kafka_default_client_id, kc_probe_secs = kafka_default_probe_secs\<rparr>"

record otelx_config =
  oc_enabled :: bool
  oc_service_name :: string
  oc_endpoint :: string
  oc_sampler_ratio :: f64

definition otelx_default_service :: string where "otelx_default_service = ''service''"
definition default_endpoint :: string where "default_endpoint = ''http://localhost:4317''"
definition default_ratio :: f64 where "default_ratio = Fin 1"

definition otelx_config_de :: "'v scalars \<Rightarrow> ('v \<Rightarrow> f64 option) \<Rightarrow> 'v source \<Rightarrow> otelx_config option" where
  "otelx_config_de S de_f64 src =
     do {
       en \<leftarrow> field src ''otel_enabled'' (de_bool S) False;
       name \<leftarrow> field src ''otel_service_name'' (de_string S) otelx_default_service;
       ep \<leftarrow> field src ''otel_endpoint'' (de_string S) default_endpoint;
       ratio \<leftarrow> field src ''otel_sampler_ratio'' de_f64 default_ratio;
       Some \<lparr>oc_enabled = en, oc_service_name = name, oc_endpoint = ep, oc_sampler_ratio = ratio\<rparr>
     }"

definition otelx_config_default :: otelx_config where
  "otelx_config_default =
     \<lparr>oc_enabled = False, oc_service_name = otelx_default_service, oc_endpoint = default_endpoint,
      oc_sampler_ratio = default_ratio\<rparr>"

section \<open>The tasks service\<close>

record tasks_config =
  tc_addr :: string
  tc_shutdown_timeout_secs :: u64
  tc_log_level :: string
  tc_log_format :: string
  tc_valkey_url :: string
  tc_valkey_probe_secs :: u64
  tc_kafka_brokers :: string
  tc_kafka_topic :: string
  tc_kafka_client_id :: string
  tc_kafka_probe_secs :: u64
  tc_otel_enabled :: bool
  tc_otel_service_name :: string
  tc_otel_endpoint :: string
  tc_otel_sampler_ratio :: f64

definition tasks_default_addr :: string where "tasks_default_addr = ''0.0.0.0:8082''"
definition tasks_default_shutdown_secs :: u64 where "tasks_default_shutdown_secs = 10"
definition tasks_default_log_level :: string where "tasks_default_log_level = ''info''"
definition tasks_default_log_format :: string where "tasks_default_log_format = ''json''"
definition tasks_default_valkey_url :: string where "tasks_default_valkey_url = ''redis://127.0.0.1:6379''"
definition tasks_default_probe_secs :: u64 where "tasks_default_probe_secs = 5"
definition tasks_default_brokers :: string where "tasks_default_brokers = ''localhost:9092''"
definition tasks_default_topic :: string where "tasks_default_topic = ''tasks.events''"
definition tasks_default_endpoint :: string where "tasks_default_endpoint = ''http://localhost:4317''"
definition tasks_default_ratio :: f64 where "tasks_default_ratio = Fin 1"
definition tasks_default_client_id :: string where "tasks_default_client_id = ''tasks''"
definition tasks_default_service :: string where "tasks_default_service = ''tasks''"

definition tasks_config_de :: "'v scalars \<Rightarrow> ('v \<Rightarrow> f64 option) \<Rightarrow> 'v source \<Rightarrow> tasks_config option" where
  "tasks_config_de S de_f64 src =
     do {
       addr \<leftarrow> field src ''addr'' (de_string S) tasks_default_addr;
       secs \<leftarrow> field src ''shutdown_timeout_secs'' (de_u64 S) tasks_default_shutdown_secs;
       lvl \<leftarrow> field src ''log_level'' (de_string S) tasks_default_log_level;
       fmt \<leftarrow> field src ''log_format'' (de_string S) tasks_default_log_format;
       vurl \<leftarrow> field src ''valkey_url'' (de_string S) tasks_default_valkey_url;
       vsecs \<leftarrow> field src ''valkey_probe_secs'' (de_u64 S) tasks_default_probe_secs;
       brokers \<leftarrow> field src ''kafka_brokers'' (de_string S) tasks_default_brokers;
       topic \<leftarrow> field src ''kafka_topic'' (de_string S) tasks_default_topic;
       cid \<leftarrow> field src ''kafka_client_id'' (de_string S) tasks_default_client_id;
       ksecs \<leftarrow> field src ''kafka_probe_secs'' (de_u64 S) tasks_default_probe_secs;
       en \<leftarrow> field src ''otel_enabled'' (de_bool S) False;
       name \<leftarrow> field src ''otel_service_name'' (de_string S) tasks_default_service;
       ep \<leftarrow> field src ''otel_endpoint'' (de_string S) tasks_default_endpoint;
       ratio \<leftarrow> field src ''otel_sampler_ratio'' de_f64 tasks_default_ratio;
       Some \<lparr>tc_addr = addr, tc_shutdown_timeout_secs = secs, tc_log_level = lvl, tc_log_format = fmt,
         tc_valkey_url = vurl, tc_valkey_probe_secs = vsecs, tc_kafka_brokers = brokers,
         tc_kafka_topic = topic, tc_kafka_client_id = cid, tc_kafka_probe_secs = ksecs,
         tc_otel_enabled = en, tc_otel_service_name = name, tc_otel_endpoint = ep,
         tc_otel_sampler_ratio = ratio\<rparr>
     }"

definition tasks_httpx :: "tasks_config \<Rightarrow> httpx_config" where
  "tasks_httpx c =
     \<lparr>hc_addr = tc_addr c, hc_shutdown_timeout_secs = tc_shutdown_timeout_secs c,
      hc_log_level = tc_log_level c, hc_log_format = tc_log_format c\<rparr>"

definition tasks_valkey :: "tasks_config \<Rightarrow> valkey_config" where
  "tasks_valkey c = \<lparr>vc_url = tc_valkey_url c, vc_probe_secs = tc_valkey_probe_secs c\<rparr>"

definition tasks_kafka :: "tasks_config \<Rightarrow> kafka_config" where
  "tasks_kafka c =
     \<lparr>kc_brokers = tc_kafka_brokers c, kc_topic = tc_kafka_topic c, kc_group = ''tasks-producer'',
      kc_client_id = tc_kafka_client_id c, kc_probe_secs = tc_kafka_probe_secs c\<rparr>"

definition tasks_otelx :: "tasks_config \<Rightarrow> otelx_config" where
  "tasks_otelx c =
     \<lparr>oc_enabled = tc_otel_enabled c, oc_service_name = tc_otel_service_name c,
      oc_endpoint = tc_otel_endpoint c, oc_sampler_ratio = tc_otel_sampler_ratio c\<rparr>"

text \<open>\<open>Config::load\<close>: the file named by \<open>TASKS_CONFIG\<close>, overlaid with the environment.\<close>

definition tasks_load ::
  "(string \<Rightarrow> 'e + yaml) \<Rightarrow> (string \<Rightarrow> bool) \<Rightarrow> (string \<Rightarrow> 'e + string) \<Rightarrow> (string \<Rightarrow> string) \<Rightarrow>
   (yaml \<Rightarrow> 'e + tasks_config) \<Rightarrow> (string \<times> string) list \<Rightarrow> 'e load_error + tasks_config" where
  "tasks_load parse exists read uni from_value vars =
     (let path = map_of (rev vars) ''TASKS_CONFIG''
      in load_yaml parse exists read uni from_value vars path ''TASKS_'')"

section \<open>The consumer\<close>

record consumer_config =
  con_addr :: string
  con_shutdown_timeout_secs :: u64
  con_log_level :: string
  con_log_format :: string
  con_kafka_brokers :: string
  con_kafka_topic :: string
  con_kafka_group :: string
  con_kafka_probe_secs :: u64
  con_otel_enabled :: bool
  con_otel_service_name :: string
  con_otel_endpoint :: string
  con_otel_sampler_ratio :: f64

definition consumer_default_addr :: string where "consumer_default_addr = ''0.0.0.0:8083''"
definition consumer_default_shutdown_secs :: u64 where "consumer_default_shutdown_secs = 10"
definition consumer_default_log_level :: string where "consumer_default_log_level = ''info''"
definition consumer_default_log_format :: string where "consumer_default_log_format = ''json''"
definition consumer_default_brokers :: string where "consumer_default_brokers = ''localhost:9092''"
definition consumer_default_topic :: string where "consumer_default_topic = ''tasks.events''"
definition consumer_default_group :: string where "consumer_default_group = ''tasks-consumer''"
definition consumer_default_probe_secs :: u64 where "consumer_default_probe_secs = 5"
definition consumer_default_endpoint :: string where "consumer_default_endpoint = ''http://localhost:4317''"
definition consumer_default_ratio :: f64 where "consumer_default_ratio = Fin 1"
definition consumer_default_service :: string where "consumer_default_service = ''consumer''"

definition consumer_config_de ::
  "'v scalars \<Rightarrow> ('v \<Rightarrow> f64 option) \<Rightarrow> 'v source \<Rightarrow> consumer_config option" where
  "consumer_config_de S de_f64 src =
     do {
       addr \<leftarrow> field src ''addr'' (de_string S) consumer_default_addr;
       secs \<leftarrow> field src ''shutdown_timeout_secs'' (de_u64 S) consumer_default_shutdown_secs;
       lvl \<leftarrow> field src ''log_level'' (de_string S) consumer_default_log_level;
       fmt \<leftarrow> field src ''log_format'' (de_string S) consumer_default_log_format;
       brokers \<leftarrow> field src ''kafka_brokers'' (de_string S) consumer_default_brokers;
       topic \<leftarrow> field src ''kafka_topic'' (de_string S) consumer_default_topic;
       grp \<leftarrow> field src ''kafka_group'' (de_string S) consumer_default_group;
       ksecs \<leftarrow> field src ''kafka_probe_secs'' (de_u64 S) consumer_default_probe_secs;
       en \<leftarrow> field src ''otel_enabled'' (de_bool S) False;
       name \<leftarrow> field src ''otel_service_name'' (de_string S) consumer_default_service;
       ep \<leftarrow> field src ''otel_endpoint'' (de_string S) consumer_default_endpoint;
       ratio \<leftarrow> field src ''otel_sampler_ratio'' de_f64 consumer_default_ratio;
       Some \<lparr>con_addr = addr, con_shutdown_timeout_secs = secs, con_log_level = lvl,
         con_log_format = fmt, con_kafka_brokers = brokers, con_kafka_topic = topic,
         con_kafka_group = grp, con_kafka_probe_secs = ksecs, con_otel_enabled = en,
         con_otel_service_name = name, con_otel_endpoint = ep, con_otel_sampler_ratio = ratio\<rparr>
     }"

definition consumer_httpx :: "consumer_config \<Rightarrow> httpx_config" where
  "consumer_httpx c =
     \<lparr>hc_addr = con_addr c, hc_shutdown_timeout_secs = con_shutdown_timeout_secs c,
      hc_log_level = con_log_level c, hc_log_format = con_log_format c\<rparr>"

definition consumer_kafka :: "consumer_config \<Rightarrow> kafka_config" where
  "consumer_kafka c =
     \<lparr>kc_brokers = con_kafka_brokers c, kc_topic = con_kafka_topic c, kc_group = con_kafka_group c,
      kc_client_id = ''consumer'', kc_probe_secs = con_kafka_probe_secs c\<rparr>"

definition consumer_otelx :: "consumer_config \<Rightarrow> otelx_config" where
  "consumer_otelx c =
     \<lparr>oc_enabled = con_otel_enabled c, oc_service_name = con_otel_service_name c,
      oc_endpoint = con_otel_endpoint c, oc_sampler_ratio = con_otel_sampler_ratio c\<rparr>"

section \<open>The heartbeat worker\<close>

record heartbeat_config =
  hb_addr :: string
  hb_shutdown_timeout_secs :: u64
  hb_log_level :: string
  hb_log_format :: string
  hb_interval_ms :: u64
  hb_upstream_url :: "string option"

definition heartbeat_default_addr :: string where "heartbeat_default_addr = ''0.0.0.0:8081''"
definition heartbeat_default_shutdown_secs :: u64 where "heartbeat_default_shutdown_secs = 10"
definition heartbeat_default_log_level :: string where "heartbeat_default_log_level = ''info''"
definition heartbeat_default_log_format :: string where "heartbeat_default_log_format = ''json''"
definition default_interval_ms :: u64 where "default_interval_ms = 5000"

definition heartbeat_config_de :: "'v scalars \<Rightarrow> 'v source \<Rightarrow> heartbeat_config option" where
  "heartbeat_config_de S src =
     do {
       addr \<leftarrow> field src ''addr'' (de_string S) heartbeat_default_addr;
       secs \<leftarrow> field src ''shutdown_timeout_secs'' (de_u64 S) heartbeat_default_shutdown_secs;
       lvl \<leftarrow> field src ''log_level'' (de_string S) heartbeat_default_log_level;
       fmt \<leftarrow> field src ''log_format'' (de_string S) heartbeat_default_log_format;
       ms \<leftarrow> field src ''interval_ms'' (de_u64 S) default_interval_ms;
       url \<leftarrow> field src ''upstream_url'' (de_opt_string S) None;
       Some \<lparr>hb_addr = addr, hb_shutdown_timeout_secs = secs, hb_log_level = lvl,
         hb_log_format = fmt, hb_interval_ms = ms, hb_upstream_url = url\<rparr>
     }"

definition heartbeat_httpx :: "heartbeat_config \<Rightarrow> httpx_config" where
  "heartbeat_httpx c =
     \<lparr>hc_addr = hb_addr c, hc_shutdown_timeout_secs = hb_shutdown_timeout_secs c,
      hc_log_level = hb_log_level c, hc_log_format = hb_log_format c\<rparr>"

definition heartbeat_interval :: "heartbeat_config \<Rightarrow> duration" where
  "heartbeat_interval c = duration_from_millis (hb_interval_ms c)"

section \<open>Facts about the projections\<close>

text \<open>Every service has its own copy of the library defaults; the copies agree.\<close>

named_theorems service_defaults

lemma tasks_default_copies [service_defaults]:
  "tasks_default_shutdown_secs = default_shutdown_secs"
  "tasks_default_log_level = default_log_level"
  "tasks_default_log_format = default_log_format"
  "tasks_default_valkey_url = default_valkey_url"
  "tasks_default_probe_secs = default_probe_secs"
  "tasks_default_brokers = default_brokers"
  "tasks_default_topic = default_topic"
  "tasks_default_endpoint = default_endpoint"
  "tasks_default_ratio = default_ratio"
  by (simp_all add: tasks_default_shutdown_secs_def default_shutdown_secs_def tasks_default_log_level_def
      default_log_level_def tasks_default_log_format_def default_log_format_def
      tasks_default_valkey_url_def default_valkey_url_def tasks_default_probe_secs_def
      default_probe_secs_def tasks_default_brokers_def default_brokers_def tasks_default_topic_def
      default_topic_def tasks_default_endpoint_def default_endpoint_def tasks_default_ratio_def
      default_ratio_def)

lemma consumer_default_copies [service_defaults]:
  "consumer_default_shutdown_secs = default_shutdown_secs"
  "consumer_default_log_level = default_log_level"
  "consumer_default_log_format = default_log_format"
  "consumer_default_brokers = default_brokers"
  "consumer_default_topic = default_topic"
  "consumer_default_group = default_group"
  "consumer_default_probe_secs = default_probe_secs"
  "consumer_default_endpoint = default_endpoint"
  "consumer_default_ratio = default_ratio"
  by (simp_all add: consumer_default_shutdown_secs_def default_shutdown_secs_def consumer_default_log_level_def
      default_log_level_def consumer_default_log_format_def default_log_format_def
      consumer_default_brokers_def default_brokers_def consumer_default_topic_def default_topic_def
      consumer_default_group_def default_group_def consumer_default_probe_secs_def
      default_probe_secs_def consumer_default_endpoint_def default_endpoint_def
      consumer_default_ratio_def default_ratio_def)

lemma heartbeat_default_copies [service_defaults]:
  "heartbeat_default_shutdown_secs = default_shutdown_secs"
  "heartbeat_default_log_level = default_log_level"
  "heartbeat_default_log_format = default_log_format"
  by (simp_all add: heartbeat_default_shutdown_secs_def default_shutdown_secs_def heartbeat_default_log_level_def
      default_log_level_def heartbeat_default_log_format_def default_log_format_def)

lemma kafka_default_copies [service_defaults]: "kafka_default_probe_secs = default_probe_secs"
  by (simp add: kafka_default_probe_secs_def default_probe_secs_def)

lemma tasks_config_deE:
  assumes "tasks_config_de S de_f64 src = Some c"
  shows "field src ''addr'' (de_string S) tasks_default_addr = Some (tc_addr c)"
    "field src ''shutdown_timeout_secs'' (de_u64 S) default_shutdown_secs = Some (tc_shutdown_timeout_secs c)"
    "field src ''log_level'' (de_string S) default_log_level = Some (tc_log_level c)"
    "field src ''log_format'' (de_string S) default_log_format = Some (tc_log_format c)"
    "field src ''valkey_url'' (de_string S) default_valkey_url = Some (tc_valkey_url c)"
    "field src ''valkey_probe_secs'' (de_u64 S) default_probe_secs = Some (tc_valkey_probe_secs c)"
    "field src ''kafka_brokers'' (de_string S) default_brokers = Some (tc_kafka_brokers c)"
    "field src ''kafka_topic'' (de_string S) default_topic = Some (tc_kafka_topic c)"
    "field src ''kafka_probe_secs'' (de_u64 S) default_probe_secs = Some (tc_kafka_probe_secs c)"
    "field src ''otel_enabled'' (de_bool S) False = Some (tc_otel_enabled c)"
    "field src ''otel_service_name'' (de_string S) tasks_default_service = Some (tc_otel_service_name c)"
    "field src ''otel_endpoint'' (de_string S) default_endpoint = Some (tc_otel_endpoint c)"
    "field src ''otel_sampler_ratio'' de_f64 default_ratio = Some (tc_otel_sampler_ratio c)"
  using assms unfolding tasks_config_de_def service_defaults by (auto simp: bind_eq_Some_conv)

lemma field_other_default: "src k \<noteq> None \<Longrightarrow> field src k de d = field src k de d'"
  by (auto simp: field_def)

section \<open>Properties\<close>

text \<open>
  One source of truth: whatever the raw values are, the Valkey settings the tasks service projects
  are the ones the Valkey library itself would read from the same source (defaults included), and so
  are the HTTP and tracing settings once the address and the service name, whose defaults the service
  overrides, are given.  The consumer subscribes to the topic the service publishes to whenever their
  sources agree on \<open>kafka_topic\<close>, also when neither sets it.
\<close>

theorem projections_agree:
  assumes "tasks_config_de S de_f64 src = Some c"
  shows "valkey_config_de S src = Some (tasks_valkey c) \<and>
    (src ''addr'' \<noteq> None \<longrightarrow> httpx_config_de S src = Some (tasks_httpx c)) \<and>
    (src ''otel_service_name'' \<noteq> None \<longrightarrow> otelx_config_de S de_f64 src = Some (tasks_otelx c)) \<and>
    (consumer_config_de S de_f64 src' = Some k \<and> src' ''kafka_topic'' = src ''kafka_topic'' \<longrightarrow>
      kc_topic (consumer_kafka k) = kc_topic (tasks_kafka c))"
proof -
  note f = tasks_config_deE [OF assms]
  have "valkey_config_de S src = Some (tasks_valkey c)"
    by (simp add: valkey_config_de_def f tasks_valkey_def)
  moreover have "httpx_config_de S src = Some (tasks_httpx c)" if "src ''addr'' \<noteq> None"
    using f(1) field_other_default [of src "''addr''" "de_string S" httpx_default_addr tasks_default_addr] that
    by (simp add: httpx_config_de_def f tasks_httpx_def)
  moreover have "otelx_config_de S de_f64 src = Some (tasks_otelx c)" if "src ''otel_service_name'' \<noteq> None"
    using f(11) field_other_default [of src "''otel_service_name''" "de_string S" otelx_default_service
        tasks_default_service] that
    by (simp add: otelx_config_de_def f tasks_otelx_def)
  moreover have "kc_topic (consumer_kafka k) = kc_topic (tasks_kafka c)"
    if "consumer_config_de S de_f64 src' = Some k" "src' ''kafka_topic'' = src ''kafka_topic''"
  proof -
    have "field src' ''kafka_topic'' (de_string S) default_topic = Some (con_kafka_topic k)"
      using that(1) unfolding consumer_config_de_def service_defaults by (auto simp: bind_eq_Some_conv)
    moreover have "field src' ''kafka_topic'' (de_string S) default_topic = field src ''kafka_topic'' (de_string S) default_topic"
      using that(2) by (simp add: field_def)
    ultimately show ?thesis using f(8) by (simp add: consumer_kafka_def tasks_kafka_def)
  qed
  ultimately show ?thesis by blast
qed

text \<open>Raw values as strings, for the example; an empty source.\<close>

definition string_scalars :: "string scalars" where
  "string_scalars =
     \<lparr>de_string = Some, de_u64 = (\<lambda>s. map_option of_nat (parse_unsigned (2 ^ 64) s)),
      de_bool = (\<lambda>s. if s = ''true'' then Some True else if s = ''false'' then Some False else None),
      de_opt_string = (\<lambda>s. Some (Some s))\<rparr>"

theorem projections_agree_witness:
  "\<exists>c k. tasks_config_de string_scalars (\<lambda>s. None) Map.empty = Some c \<and>
     consumer_config_de string_scalars (\<lambda>s. None) Map.empty = Some k \<and>
     valkey_config_de string_scalars Map.empty = Some (tasks_valkey c) \<and>
     kc_topic (consumer_kafka k) = kc_topic (tasks_kafka c)"
proof -
  obtain c where c: "tasks_config_de string_scalars (\<lambda>s. None) Map.empty = Some c"
    by (simp add: tasks_config_de_def)
  obtain k where k: "consumer_config_de string_scalars (\<lambda>s. None) Map.empty = Some k"
    by (simp add: consumer_config_de_def)
  from projections_agree [OF c, of Map.empty k] c k show ?thesis by auto
qed

end
