(* ===== verification/Valkey.thy ===== *)
theory Valkey
  imports Service_Configs
begin

text \<open>
  The cache handle of \<open>crates/valkey/src/lib.rs\<close>.  The server behind the \<open>redis\<close> connection is an
  argument: \<open>redis\<close> holds the commands the handle sends, over an arbitrary server state, each with
  its reply or an error.  JSON printing and parsing of the stored type are arguments too.
\<close>

section \<open>Commands\<close>

record ('s, 'e) redis =
  rd_ping :: "'s \<Rightarrow> ('e + string) \<times> 's"
  rd_get :: "string \<Rightarrow> 's \<Rightarrow> ('e + string option) \<times> 's"
  rd_set :: "string \<Rightarrow> string \<Rightarrow> 's \<Rightarrow> ('e + unit) \<times> 's"
  rd_set_ex :: "string \<Rightarrow> string \<Rightarrow> u64 \<Rightarrow> 's \<Rightarrow> ('e + unit) \<times> 's"
  rd_del :: "string \<Rightarrow> 's \<Rightarrow> ('e + int) \<times> 's"
  rd_sadd :: "string \<Rightarrow> string \<Rightarrow> 's \<Rightarrow> ('e + int) \<times> 's"
  rd_srem :: "string \<Rightarrow> string \<Rightarrow> 's \<Rightarrow> ('e + int) \<times> 's"
  rd_smembers :: "string \<Rightarrow> 's \<Rightarrow> ('e + string list) \<times> 's"

record ('t, 'e) codec =
  enc :: "'t \<Rightarrow> 'e + string"
  dec :: "string \<Rightarrow> 'e + 't"

definition forget :: "('e + 'a) \<times> 's \<Rightarrow> ('e + unit) \<times> 's" where
  "forget rs = (case rs of (Inl e, s) \<Rightarrow> (Inl e, s) | (Inr _, s) \<Rightarrow> (Inr (), s))"

definition vk_get :: "('s, 'e) redis \<Rightarrow> string \<Rightarrow> 's \<Rightarrow> ('e + string option) \<times> 's" where
  "vk_get R key s = rd_get R key s"

definition vk_set ::
  "('s, 'e) redis \<Rightarrow> string \<Rightarrow> string \<Rightarrow> duration option \<Rightarrow> 's \<Rightarrow> ('e + unit) \<times> 's" where
  "vk_set R key val ttl s =
     (case ttl of
        Some d \<Rightarrow> rd_set_ex R key val (max (as_secs d) 1) s
      | None \<Rightarrow> rd_set R key val s)"

definition vk_del :: "('s, 'e) redis \<Rightarrow> string \<Rightarrow> 's \<Rightarrow> ('e + unit) \<times> 's" where
  "vk_del R key s = forget (rd_del R key s)"

definition vk_set_json ::
  "('s, 'e) redis \<Rightarrow> ('t, 'e) codec \<Rightarrow> string \<Rightarrow> 't \<Rightarrow> duration option \<Rightarrow> 's \<Rightarrow> ('e + unit) \<times> 's" where
  "vk_set_json R C key val ttl s =
     (case enc C val of Inl e \<Rightarrow> (Inl e, s) | Inr payload \<Rightarrow> vk_set R key payload ttl s)"

definition vk_get_json ::
  "('s, 'e) redis \<Rightarrow> ('t, 'e) codec \<Rightarrow> string \<Rightarrow> 's \<Rightarrow> ('e + 't option) \<times> 's" where
  "vk_get_json R C key s =
     (case vk_get R key s of
        (Inl e, s) \<Rightarrow> (Inl e, s)
      | (Inr None, s) \<Rightarrow> (Inr None, s)
      | (Inr (Some raw), s) \<Rightarrow> (case dec C raw of Inl e \<Rightarrow> (Inl e, s) | Inr v \<Rightarrow> (Inr (Some v), s)))"

definition vk_set_add :: "('s, 'e) redis \<Rightarrow> string \<Rightarrow> string \<Rightarrow> 's \<Rightarrow> ('e + unit) \<times> 's" where
  "vk_set_add R key mem s = forget (rd_sadd R key mem s)"

definition vk_set_remove :: "('s, 'e) redis \<Rightarrow> string \<Rightarrow> string \<Rightarrow> 's \<Rightarrow> ('e + unit) \<times> 's" where
  "vk_set_remove R key mem s = forget (rd_srem R key mem s)"

definition vk_set_members :: "('s, 'e) redis \<Rightarrow> string \<Rightarrow> 's \<Rightarrow> ('e + string list) \<times> 's" where
  "vk_set_members R key s = rd_smembers R key s"

section \<open>Connecting and the health flag\<close>

text \<open>\<open>open_client\<close> and \<open>manager\<close> are the two connection steps of the driver.\<close>

definition vk_connect ::
  "('s, 'e) redis \<Rightarrow> (string \<Rightarrow> 'e option) \<Rightarrow> (string \<Rightarrow> 'e + 's) \<Rightarrow> valkey_config \<Rightarrow>
   'e + 's \<times> bool \<times> duration" where
  "vk_connect R open_client manager cfg =
     (case open_client (vc_url cfg) of
        Some e \<Rightarrow> Inl e
      | None \<Rightarrow>
          (case manager (vc_url cfg) of
             Inl e \<Rightarrow> Inl e
           | Inr conn \<Rightarrow>
               (case rd_ping R conn of
                  (Inl e, _) \<Rightarrow> Inl e
                | (Inr _, conn) \<Rightarrow> Inr (conn, True, duration_from_secs (max (vc_probe_secs cfg) 1)))))"

definition vk_readiness_check :: "bool \<Rightarrow> string + unit" where
  "vk_readiness_check healthy = (if healthy then Inr () else Inl ''valkey unreachable'')"

text \<open>One turn of the background probe.\<close>

definition vk_probe :: "('s, 'e) redis \<Rightarrow> 's \<Rightarrow> bool \<times> 's" where
  "vk_probe R s = (case rd_ping R s of (Inl _, s) \<Rightarrow> (False, s) | (Inr _, s) \<Rightarrow> (True, s))"

text \<open>
  The background task, from the health flag and the server it starts with: one turn for every tick,
  with what others did to the server before it.  \<open>interval_ok\<close> is whether \<open>tokio::time::interval\<close> accepts
  the period; when it panics the task ends and the flag keeps its value.
\<close>

fun probe_turns :: "('s, 'e) redis \<Rightarrow> ('s \<Rightarrow> 's) list \<Rightarrow> bool \<times> 's \<Rightarrow> bool \<times> 's" where
  "probe_turns R [] (flag, s) = (flag, s)"
| "probe_turns R (f # fs) (flag, s) = probe_turns R fs (vk_probe R (f s))"

definition spawn_health_probe ::
  "(duration \<Rightarrow> bool) \<Rightarrow> ('s, 'e) redis \<Rightarrow> duration \<Rightarrow> ('s \<Rightarrow> 's) list \<Rightarrow> bool \<times> 's \<Rightarrow> bool \<times> 's" where
  "spawn_health_probe interval_ok R period fs x = (if interval_ok period then probe_turns R fs x else x)"

section \<open>The documented behaviour of the commands\<close>

text \<open>
  \<open>serves R kv sets\<close>: the string values \<open>kv\<close> and the set members \<open>sets\<close> of a server state change as
  the command reference says.  A failed write may or may not have taken effect (the connection can
  break after the server executed it), but touches no other key; reads change nothing.
\<close>

definition serves ::
  "('s, 'e) redis \<Rightarrow> ('s \<Rightarrow> string \<Rightarrow> string option) \<Rightarrow> ('s \<Rightarrow> string \<Rightarrow> string set) \<Rightarrow> bool" where
  "serves R kv sets \<longleftrightarrow>
     (\<forall>k s r s'. rd_get R k s = (r, s') \<longrightarrow>
        kv s' = kv s \<and> sets s' = sets s \<and> (\<forall>v. r = Inr v \<longrightarrow> v = kv s k)) \<and>
     (\<forall>k v s r s'. rd_set R k v s = (r, s') \<longrightarrow>
        (\<forall>k'. k' \<noteq> k \<longrightarrow> sets s' k' = sets s k') \<and>
        (kv s' = (kv s)(k \<mapsto> v) \<or> (\<exists>e. r = Inl e) \<and> kv s' = kv s)) \<and>
     (\<forall>k s r s'. rd_del R k s = (r, s') \<longrightarrow>
        (\<forall>k'. k' \<noteq> k \<longrightarrow> sets s' k' = sets s k') \<and>
        (kv s' = (kv s)(k := None) \<or> (\<exists>e. r = Inl e) \<and> kv s' = kv s)) \<and>
     (\<forall>k m s r s'. rd_sadd R k m s = (r, s') \<longrightarrow>
        kv s' = kv s \<and>
        (sets s' = (sets s)(k := insert m (sets s k)) \<or> (\<exists>e. r = Inl e) \<and> sets s' = sets s)) \<and>
     (\<forall>k m s r s'. rd_srem R k m s = (r, s') \<longrightarrow>
        kv s' = kv s \<and>
        (sets s' = (sets s)(k := sets s k - {m}) \<or> (\<exists>e. r = Inl e) \<and> sets s' = sets s)) \<and>
     (\<forall>k s r s'. rd_smembers R k s = (r, s') \<longrightarrow>
        kv s' = kv s \<and> sets s' = sets s \<and> (\<forall>ms. r = Inr ms \<longrightarrow> set ms = sets s k \<and> distinct ms))"

lemma serves_get:
  assumes "serves R kv sets" "rd_get R k s = (r, s')"
  shows "kv s' = kv s \<and> sets s' = sets s \<and> (\<forall>v. r = Inr v \<longrightarrow> v = kv s k)"
  using assms(1) [unfolded serves_def, THEN conjunct1] assms(2) by blast

lemma serves_set:
  assumes "serves R kv sets" "rd_set R k v s = (r, s')"
  shows "(\<forall>k'. k' \<noteq> k \<longrightarrow> sets s' k' = sets s k') \<and>
    (kv s' = (kv s)(k \<mapsto> v) \<or> (\<exists>e. r = Inl e) \<and> kv s' = kv s)"
  using assms(1) [unfolded serves_def, THEN conjunct2, THEN conjunct1] assms(2) by blast

lemma serves_del:
  assumes "serves R kv sets" "rd_del R k s = (r, s')"
  shows "(\<forall>k'. k' \<noteq> k \<longrightarrow> sets s' k' = sets s k') \<and>
    (kv s' = (kv s)(k := None) \<or> (\<exists>e. r = Inl e) \<and> kv s' = kv s)"
  using assms(1) [unfolded serves_def, THEN conjunct2, THEN conjunct2, THEN conjunct1] assms(2) by blast

lemma serves_sadd:
  assumes "serves R kv sets" "rd_sadd R k m s = (r, s')"
  shows "kv s' = kv s \<and>
    (sets s' = (sets s)(k := insert m (sets s k)) \<or> (\<exists>e. r = Inl e) \<and> sets s' = sets s)"
  using assms(1) [unfolded serves_def, THEN conjunct2, THEN conjunct2, THEN conjunct2, THEN conjunct1]
    assms(2) by blast

lemma serves_srem:
  assumes "serves R kv sets" "rd_srem R k m s = (r, s')"
  shows "kv s' = kv s \<and>
    (sets s' = (sets s)(k := sets s k - {m}) \<or> (\<exists>e. r = Inl e) \<and> sets s' = sets s)"
  using assms(1) [unfolded serves_def, THEN conjunct2, THEN conjunct2, THEN conjunct2, THEN conjunct2,
      THEN conjunct1] assms(2) by blast

lemma serves_smembers:
  assumes "serves R kv sets" "rd_smembers R k s = (r, s')"
  shows "kv s' = kv s \<and> sets s' = sets s \<and> (\<forall>ms. r = Inr ms \<longrightarrow> set ms = sets s k \<and> distinct ms)"
  using assms(1) [unfolded serves_def, THEN conjunct2, THEN conjunct2, THEN conjunct2, THEN conjunct2,
      THEN conjunct2] assms(2) by blast

text \<open>\<open>answers R\<close>: the server is reachable, no command fails.\<close>

definition answers :: "('s, 'e) redis \<Rightarrow> bool" where
  "answers R \<longleftrightarrow>
     (\<forall>k s. \<exists>v s'. rd_get R k s = (Inr v, s')) \<and> (\<forall>k v s. \<exists>s'. rd_set R k v s = (Inr (), s')) \<and>
     (\<forall>k s. \<exists>n s'. rd_del R k s = (Inr n, s')) \<and> (\<forall>k m s. \<exists>n s'. rd_sadd R k m s = (Inr n, s')) \<and>
     (\<forall>k m s. \<exists>n s'. rd_srem R k m s = (Inr n, s')) \<and> (\<forall>k s. \<exists>ms s'. rd_smembers R k s = (Inr ms, s'))"

lemma answersD:
  assumes "answers R"
  shows "\<exists>v s'. rd_get R k s = (Inr v, s')" "\<exists>s'. rd_set R k x s = (Inr (), s')"
    "\<exists>n s'. rd_del R k s = (Inr n, s')" "\<exists>n s'. rd_sadd R k x s = (Inr n, s')"
    "\<exists>n s'. rd_srem R k x s = (Inr n, s')" "\<exists>ms s'. rd_smembers R k s = (Inr ms, s')"
  using assms unfolding answers_def by blast+

text \<open>\<open>round_trips C\<close>: every value prints, and what is printed parses back.\<close>

definition round_trips :: "('t, 'e) codec \<Rightarrow> bool" where
  "round_trips C \<longleftrightarrow> (\<forall>t. \<exists>raw. enc C t = Inr raw \<and> dec C raw = Inr t)"

text \<open>An in-memory server that never fails, for examples; sets are kept as distinct lists.\<close>

record mem_server =
  mem_kv :: "(string \<times> string) list"
  mem_sets :: "(string \<times> string list) list"

definition mem_members :: "mem_server \<Rightarrow> string \<Rightarrow> string list" where
  "mem_members s k = (case map_of (mem_sets s) k of Some ms \<Rightarrow> remdups ms | None \<Rightarrow> [])"

definition mem_redis :: "(mem_server, string) redis" where
  "mem_redis =
     \<lparr>rd_ping = (\<lambda>s. (Inr ''PONG'', s)),
      rd_get = (\<lambda>k s. (Inr (map_of (mem_kv s) k), s)),
      rd_set = (\<lambda>k v s. (Inr (), s\<lparr>mem_kv := (k, v) # mem_kv s\<rparr>)),
      rd_set_ex = (\<lambda>k v t s. (Inr (), s\<lparr>mem_kv := (k, v) # mem_kv s\<rparr>)),
      rd_del = (\<lambda>k s. (Inr 1, s\<lparr>mem_kv := filter (\<lambda>(k', v). k' \<noteq> k) (mem_kv s)\<rparr>)),
      rd_sadd = (\<lambda>k m s. (Inr 1, s\<lparr>mem_sets := (k, m # mem_members s k) # mem_sets s\<rparr>)),
      rd_srem = (\<lambda>k m s. (Inr 1, s\<lparr>mem_sets := (k, removeAll m (mem_members s k)) # mem_sets s\<rparr>)),
      rd_smembers = (\<lambda>k s. (Inr (mem_members s k), s))\<rparr>"

lemma map_of_filter_key: "map_of (filter (\<lambda>(k', v). k' \<noteq> k) xs) = (map_of xs)(k := None)"
  by (induction xs) auto

lemma mem_redis_answers: "answers mem_redis"
  by (simp add: answers_def mem_redis_def)

lemma mem_redis_serves: "serves mem_redis (\<lambda>s. map_of (mem_kv s)) (\<lambda>s k. set (mem_members s k))"
  by (auto simp: serves_def mem_redis_def mem_members_def map_of_filter_key fun_eq_iff split: option.splits)

section \<open>The probe of a connected cache\<close>

lemma probe_turns_snoc: "probe_turns R (fs @ [f]) x = vk_probe R (f (snd (probe_turns R fs x)))"
  by (induction R fs x rule: probe_turns.induct) (simp_all, metis prod.collapse probe_turns.simps)

text \<open>
  The probe \<open>connect\<close> spawns never panics, because its period is clamped to a second: the flag is set
  from the start and afterwards always the result of the last \<open>PING\<close>.
\<close>

lemma connected_probe_tracks:
  assumes "\<forall>d. interval_ok d = (d \<noteq> 0)" "vk_connect R open_client manager cfg = Inr (conn, flag, period)"
  shows "spawn_health_probe interval_ok R period [] (flag, conn) = (True, conn)"
    "spawn_health_probe interval_ok R period (fs @ [f]) (flag, conn) =
       vk_probe R (f (snd (spawn_health_probe interval_ok R period fs (flag, conn))))"
proof -
  have "flag \<and> period = duration_from_secs (max (vc_probe_secs cfg) 1)"
    using assms(2) by (auto simp: vk_connect_def split: option.splits sum.splits prod.splits)
  then have "flag" "interval_ok period"
    using assms(1) probe_period_positive [of "vc_probe_secs cfg"] by (auto simp: duration_from_secs_def)
  then show "spawn_health_probe interval_ok R period [] (flag, conn) = (True, conn)"
    "spawn_health_probe interval_ok R period (fs @ [f]) (flag, conn) =
       vk_probe R (f (snd (spawn_health_probe interval_ok R period fs (flag, conn))))"
    by (simp_all add: spawn_health_probe_def probe_turns_snoc)
qed

end
