(* ===== verification/Json.thy ===== *)
theory Json
  imports Containers Http_Types
begin

text \<open>
  JSON values as the sources build them with \<open>serde_json\<close>: every number they produce is an
  integer, and an object is a \<open>BTreeMap\<close> (the crate is built without \<open>preserve_order\<close>), so its
  members are in key order.  Text form and parsing are \<open>serde_json\<close>'s and stay arguments of the
  definitions that use them.
\<close>

datatype json =
    JNull
  | JBool bool
  | JInt int
  | JString string
  | JArray "json list"
  | JObject "(string, json) btree"

text \<open>\<open>json!({..})\<close> and the serialisation of a struct: the members inserted one by one.\<close>

definition jobj :: "(string \<times> json) list \<Rightarrow> json" where
  "jobj kvs = JObject (fold (\<lambda>(k, v). btree_insert k v) kvs [])"

fun member :: "json \<Rightarrow> string \<Rightarrow> json option" where
  "member (JObject m) k = btree_get m k"
| "member _ k = None"

lemma member_jobj: "member (jobj kvs) k = map_of (rev kvs) k"
  using btree.get_ins_all [of "[]" kvs k]
  by (simp add: jobj_def btree.ins_all_def split: option.splits)

lemma jobj_wf: "\<exists>m. jobj kvs = JObject m \<and> btree_wf m"
  using btree.wf_ins_all [of "[]" kvs] by (simp add: jobj_def btree.ins_all_def)

end
