(* ===== verification/Task_Store.thy ===== *)
theory Task_Store
  imports Valkey Json
begin

text \<open>
  The task repository: \<open>crates/tasks/src/domain.rs\<close> and \<open>store.rs\<close>.  A task is JSON under its key,
  and its id is a member of the index set; the store is specified by the dictionary of its tasks.
\<close>

section \<open>Tasks and their keys\<close>

record task =
  t_id :: string
  t_title :: string
  t_done :: bool
  t_created_at :: u64

record task_created_event =
  ev_id :: string
  ev_title :: string
  ev_created_at :: u64

definition event_of_task :: "task \<Rightarrow> task_created_event" where
  "event_of_task t = \<lparr>ev_id = t_id t, ev_title = t_title t, ev_created_at = t_created_at t\<rparr>"

definition task_json :: "task \<Rightarrow> json" where
  "task_json t =
     jobj [(''id'', JString (t_id t)), (''title'', JString (t_title t)), (''done'', JBool (t_done t)),
       (''created_at'', JInt (uint (t_created_at t)))]"

definition event_json :: "task_created_event \<Rightarrow> json" where
  "event_json e =
     jobj [(''id'', JString (ev_id e)), (''title'', JString (ev_title e)),
       (''created_at'', JInt (uint (ev_created_at e)))]"

definition INDEX_KEY :: string where
  "INDEX_KEY = ''tasks''"

definition task_key :: "string \<Rightarrow> string" where
  "task_key i = ''task:'' @ i"

lemma task_key_inject [simp]: "task_key i = task_key j \<longleftrightarrow> i = j"
  by (simp add: task_key_def)

lemma task_key_not_index [simp]: "task_key i \<noteq> INDEX_KEY" "INDEX_KEY \<noteq> task_key i"
  by (simp_all add: task_key_def INDEX_KEY_def)

section \<open>Operations\<close>

definition store_create ::
  "('s, 'e) redis \<Rightarrow> (task, 'e) codec \<Rightarrow> task \<Rightarrow> 's \<Rightarrow> ('e + unit) \<times> 's" where
  "store_create R C t s =
     (case vk_set_json R C (task_key (t_id t)) t None s of
        (Inl e, s) \<Rightarrow> (Inl e, s)
      | (Inr _, s) \<Rightarrow> vk_set_add R INDEX_KEY (t_id t) s)"

definition store_get ::
  "('s, 'e) redis \<Rightarrow> (task, 'e) codec \<Rightarrow> string \<Rightarrow> 's \<Rightarrow> ('e + task option) \<times> 's" where
  "store_get R C i s = vk_get_json R C (task_key i) s"

fun fetch_all ::
  "('s, 'e) redis \<Rightarrow> (task, 'e) codec \<Rightarrow> string list \<Rightarrow> 's \<Rightarrow> ('e + task list) \<times> 's" where
  "fetch_all R C [] s = (Inr [], s)"
| "fetch_all R C (i # ids) s =
     (case vk_get_json R C (task_key i) s of
        (Inl e, s) \<Rightarrow> (Inl e, s)
      | (Inr found, s) \<Rightarrow>
          (case fetch_all R C ids s of
             (Inl e, s) \<Rightarrow> (Inl e, s)
           | (Inr ts, s) \<Rightarrow> (Inr (case found of Some t \<Rightarrow> t # ts | None \<Rightarrow> ts), s)))"

text \<open>\<open>sort_by_key\<close> with \<open>Reverse\<close> is a stable sort by descending creation time.\<close>

definition newest_first :: "task list \<Rightarrow> task list" where
  "newest_first ts = sort_key (\<lambda>t. - uint (t_created_at t)) ts"

definition store_list ::
  "('s, 'e) redis \<Rightarrow> (task, 'e) codec \<Rightarrow> 's \<Rightarrow> ('e + task list) \<times> 's" where
  "store_list R C s =
     (case vk_set_members R INDEX_KEY s of
        (Inl e, s) \<Rightarrow> (Inl e, s)
      | (Inr ids, s) \<Rightarrow>
          (case fetch_all R C ids s of
             (Inl e, s) \<Rightarrow> (Inl e, s)
           | (Inr ts, s) \<Rightarrow> (Inr (newest_first ts), s)))"

definition store_delete ::
  "('s, 'e) redis \<Rightarrow> (task, 'e) codec \<Rightarrow> string \<Rightarrow> 's \<Rightarrow> ('e + bool) \<times> 's" where
  "store_delete R C i s =
     (case store_get R C i s of
        (Inl e, s) \<Rightarrow> (Inl e, s)
      | (Inr found, s) \<Rightarrow>
          (if found \<noteq> None
           then (case vk_del R (task_key i) s of
                   (Inl e, s) \<Rightarrow> (Inl e, s)
                 | (Inr _, s) \<Rightarrow>
                     (case vk_set_remove R INDEX_KEY i s of
                        (Inl e, s) \<Rightarrow> (Inl e, s)
                      | (Inr _, s) \<Rightarrow> (Inr True, s)))
           else (Inr False, s)))"

section \<open>The dictionary a server state stands for\<close>

text \<open>
  \<open>holds_tasks C kv sets s m\<close>: every stored task value is the print of its dictionary entry, whose
  id it carries, and the index has exactly the dictionary's ids.
\<close>

fun holds_entry :: "(task, 'e) codec \<Rightarrow> string option \<Rightarrow> string \<Rightarrow> task option \<Rightarrow> bool" where
  "holds_entry C v i None \<longleftrightarrow> v = None"
| "holds_entry C v i (Some t) \<longleftrightarrow> t_id t = i \<and> (\<exists>raw. v = Some raw \<and> dec C raw = Inr t)"

definition holds_tasks ::
  "(task, 'e) codec \<Rightarrow> ('s \<Rightarrow> string \<Rightarrow> string option) \<Rightarrow> ('s \<Rightarrow> string \<Rightarrow> string set) \<Rightarrow> 's \<Rightarrow>
   (string \<rightharpoonup> task) \<Rightarrow> bool" where
  "holds_tasks C kv sets s m \<longleftrightarrow>
     (\<forall>i. holds_entry C (kv s (task_key i)) i (m i)) \<and> sets s INDEX_KEY = dom m"

lemma holds_tasks_entry: "holds_tasks C kv sets s m \<Longrightarrow> holds_entry C (kv s (task_key i)) i (m i)"
  by (simp add: holds_tasks_def)

lemma holds_tasks_cong:
  assumes "holds_tasks C kv sets s m" "kv s' = kv s" "sets s' INDEX_KEY = sets s INDEX_KEY"
  shows "holds_tasks C kv sets s' m"
  using assms unfolding holds_tasks_def by simp

lemma forgetE:
  assumes "forget rs = (r, s')"
  obtains r0 where "rs = (r0, s')" "(\<exists>e. r = Inl e) \<longleftrightarrow> (\<exists>e. r0 = Inl e)"
  using assms by (cases rs; cases "fst rs") (auto simp: forget_def)

text \<open>A read sees the value of its key and changes nothing.\<close>

lemma get_json_entry:
  assumes "serves R kv sets" "holds_entry C (kv s (task_key i)) i v" "vk_get_json R C (task_key i) s = (r, s')"
  shows "kv s' = kv s \<and> sets s' = sets s \<and> (\<forall>x. r = Inr x \<longrightarrow> x = v)"
proof -
  obtain g s1 where g: "rd_get R (task_key i) s = (g, s1)" by fastforce
  note get = serves_get [OF assms(1) g]
  have s': "s' = s1" using assms(3) g by (auto simp: vk_get_json_def vk_get_def split: sum.splits option.splits)
  have "x = v" if "r = Inr x" for x
    using assms(2) that assms(3) g get
    by (cases v) (auto simp: vk_get_json_def vk_get_def split: sum.splits option.splits)
  with get s' show ?thesis by simp
qed

lemma get_json_spec:
  assumes "serves R kv sets" "holds_tasks C kv sets s m" "vk_get_json R C (task_key i) s = (r, s')"
  shows "kv s' = kv s \<and> sets s' = sets s \<and> (\<forall>v. r = Inr v \<longrightarrow> v = m i)"
  by (rule get_json_entry [OF assms(1) holds_tasks_entry [OF assms(2)] assms(3)])

lemma fetch_all_spec:
  assumes "serves R kv sets" "\<And>i. holds_entry C (kv s (task_key i)) i (m i)" "fetch_all R C ids s = (r, s')"
  shows "kv s' = kv s \<and> sets s' = sets s \<and> (\<forall>ts. r = Inr ts \<longrightarrow> ts = List.map_filter m ids)"
  using assms(2,3)
proof (induction ids arbitrary: s r s')
  case Nil
  then show ?case by (auto simp: List.map_filter_simps)
next
  case (Cons i ids)
  obtain g s1 where g: "vk_get_json R C (task_key i) s = (g, s1)" by fastforce
  note get = get_json_entry [OF assms(1) Cons.prems(1) g]
  obtain f s2 where f: "fetch_all R C ids s1 = (f, s2)" by fastforce
  have "kv s2 = kv s1 \<and> sets s2 = sets s1 \<and> (\<forall>ts. f = Inr ts \<longrightarrow> ts = List.map_filter m ids)"
    using Cons.prems(1) get by (intro Cons.IH [OF _ f]) simp
  then show ?case
    using Cons.prems(2) g f get
    by (cases g; cases f) (auto simp: List.map_filter_simps split: option.splits)
qed

section \<open>The operations on the dictionary\<close>

lemma create_spec:
  assumes "serves R kv sets" "round_trips C" "holds_tasks C kv sets s m"
    and "store_create R C t s = (Inr (), s')"
  shows "holds_tasks C kv sets s' (m(t_id t \<mapsto> t))"
proof -
  obtain raw where raw: "enc C t = Inr raw" "dec C raw = Inr t" using assms(2) by (auto simp: round_trips_def)
  obtain r1 s1 where set: "rd_set R (task_key (t_id t)) raw s = (r1, s1)" by fastforce
  obtain r2 s2 where add: "rd_sadd R INDEX_KEY (t_id t) s1 = (r2, s2)" by fastforce
  have ok: "r1 = Inr ()" "\<exists>n. r2 = Inr n" "s' = s2"
    using assms(4) raw(1) set add
    by (auto simp: store_create_def vk_set_json_def vk_set_def vk_set_add_def forget_def split: sum.splits)
  have kv: "kv s' = (kv s)(task_key (t_id t) \<mapsto> raw)"
    using serves_set [OF assms(1) set] serves_sadd [OF assms(1) add] ok by auto
  have idx: "sets s' INDEX_KEY = insert (t_id t) (sets s INDEX_KEY)"
    using serves_set [OF assms(1) set] serves_sadd [OF assms(1) add] ok by auto
  show ?thesis
    using assms(3) raw(2) unfolding holds_tasks_def kv idx by auto
qed

lemma delete_spec:
  assumes "serves R kv sets" "holds_tasks C kv sets s m" "store_delete R C i s = (Inr b, s')"
  shows "b = (m i \<noteq> None) \<and> holds_tasks C kv sets s' (m(i := None))"
proof -
  obtain g s1 where g: "vk_get_json R C (task_key i) s = (g, s1)" by fastforce
  note get = get_json_spec [OF assms(1,2) g]
  then have inv: "holds_tasks C kv sets s1 m" by (intro holds_tasks_cong [OF assms(2)]) simp_all
  obtain found where found: "g = Inr found" "found = m i"
    using assms(3) g get by (cases g) (auto simp: store_delete_def store_get_def)
  show ?thesis
  proof (cases "found = None")
    case True
    then have "b = False" "s' = s1" using assms(3) g found by (auto simp: store_delete_def store_get_def)
    moreover have "m(i := None) = m" using True found by (simp add: fun_upd_idem)
    ultimately show ?thesis using inv True found by simp
  next
    case False
    obtain r1 s2 where del: "rd_del R (task_key i) s1 = (r1, s2)" by fastforce
    obtain r2 s3 where rem: "rd_srem R INDEX_KEY i s2 = (r2, s3)" by fastforce
    have ok: "\<exists>n. r1 = Inr n" "\<exists>n. r2 = Inr n" "s' = s3" "b"
      using assms(3) g found del rem False
      by (auto simp: store_delete_def store_get_def vk_del_def vk_set_remove_def forget_def split: sum.splits)
    have kv: "kv s' = (kv s1)(task_key i := None)"
      using serves_del [OF assms(1) del] serves_srem [OF assms(1) rem] ok by auto
    have idx: "sets s' INDEX_KEY = sets s1 INDEX_KEY - {i}"
      using serves_del [OF assms(1) del] serves_srem [OF assms(1) rem] ok by auto
    show ?thesis using inv ok False found unfolding holds_tasks_def kv idx by auto
  qed
qed

lemma newest_first_facts:
  "set (newest_first ts) = set ts" "distinct (newest_first ts) = distinct ts"
  "sorted_wrt (\<lambda>a b. t_created_at b \<le> t_created_at a) (newest_first ts)"
proof -
  have "sorted (map (\<lambda>t. - uint (t_created_at t)) (newest_first ts))"
    unfolding newest_first_def by (rule sorted_sort_key)
  then show "sorted_wrt (\<lambda>a b. t_created_at b \<le> t_created_at a) (newest_first ts)"
    by (simp add: sorted_wrt_map word_le_def)
qed (simp_all add: newest_first_def)

lemma map_filter_distinct:
  assumes "distinct ids" "\<And>i t. m i = Some t \<Longrightarrow> t_id t = i"
  shows "distinct (List.map_filter m ids) \<and> set (List.map_filter m ids) = {t. \<exists>i \<in> set ids. m i = Some t}"
  using assms(1)
proof (induction ids)
  case (Cons i ids)
  then show ?case by (auto simp: List.map_filter_simps split: option.splits) (metis assms(2))
qed (simp add: List.map_filter_simps)

text \<open>
  A listing needs less than \<open>holds_tasks\<close>: the index may have ids without a value, which the loop skips.
\<close>

lemma list_entries:
  assumes "serves R kv sets" "\<And>i. holds_entry C (kv s (task_key i)) i (m i)" "dom m \<subseteq> sets s INDEX_KEY"
    and "store_list R C s = (Inr ts, s')"
  shows "kv s' = kv s \<and> sets s' = sets s \<and> set ts = ran m \<and> distinct ts \<and>
    sorted_wrt (\<lambda>a b. t_created_at b \<le> t_created_at a) ts"
proof -
  obtain r1 s1 where mem: "rd_smembers R INDEX_KEY s = (r1, s1)" by fastforce
  note members = serves_smembers [OF assms(1) mem]
  obtain ids where ids: "r1 = Inr ids"
    using assms(4) mem by (cases r1) (auto simp: store_list_def vk_set_members_def)
  obtain r2 s2 where f: "fetch_all R C ids s1 = (r2, s2)" by fastforce
  have "holds_entry C (kv s1 (task_key i)) i (m i)" for i using members assms(2) by simp
  note fetch = fetch_all_spec [OF assms(1) this f]
  have ts: "s' = s2" "r2 = Inr (List.map_filter m ids)" "ts = newest_first (List.map_filter m ids)"
    using assms(4) mem ids f fetch by (cases r2; auto simp: store_list_def vk_set_members_def)+
  have "t_id t = i" if "m i = Some t" for i t
    using assms(2) [of i] that by simp
  then have "distinct (List.map_filter m ids) \<and> set (List.map_filter m ids) = {t. \<exists>i \<in> set ids. m i = Some t}"
    using members ids by (intro map_filter_distinct) auto
  moreover have "dom m \<subseteq> set ids" using members ids assms(3) by simp
  then have "{t. \<exists>i \<in> set ids. m i = Some t} = ran m" by (auto simp: ran_def)
  ultimately show ?thesis
    using newest_first_facts [of "List.map_filter m ids"] ts(1,3) fetch members by simp
qed

lemma list_spec:
  assumes "serves R kv sets" "holds_tasks C kv sets s m" "store_list R C s = (Inr ts, s')"
  shows "holds_tasks C kv sets s' m \<and> set ts = ran m \<and> distinct ts \<and>
    sorted_wrt (\<lambda>a b. t_created_at b \<le> t_created_at a) ts"
  using list_entries [OF assms(1) holds_tasks_entry [OF assms(2)] _ assms(3)] holds_tasks_cong [OF assms(2), of s'] assms(2)
  by (simp add: holds_tasks_def)

text \<open>On a reachable server that holds a dictionary no operation fails.\<close>

lemma get_json_succeeds:
  assumes "serves R kv sets" "answers R" "holds_tasks C kv sets s m"
  shows "\<exists>s'. vk_get_json R C (task_key i) s = (Inr (m i), s') \<and> holds_tasks C kv sets s' m"
proof -
  obtain v s1 where g: "rd_get R (task_key i) s = (Inr v, s1)" using answersD(1) [OF assms(2)] by blast
  note get = serves_get [OF assms(1) g]
  then have "holds_tasks C kv sets s1 m" using holds_tasks_cong [OF assms(3)] by simp
  moreover have "vk_get_json R C (task_key i) s = (Inr (m i), s1)"
    using holds_tasks_entry [OF assms(3), of i] g get by (cases "m i") (auto simp: vk_get_json_def vk_get_def)
  ultimately show ?thesis by blast
qed

lemma create_succeeds:
  assumes "answers R" "round_trips C"
  shows "\<exists>s'. store_create R C t s = (Inr (), s')"
proof -
  obtain raw where raw: "enc C t = Inr raw" using assms(2) by (auto simp: round_trips_def)
  obtain s1 where "rd_set R (task_key (t_id t)) raw s = (Inr (), s1)" using answersD(2) [OF assms(1)] by blast
  moreover obtain n s2 where "rd_sadd R INDEX_KEY (t_id t) s1 = (Inr n, s2)" using answersD(4) [OF assms(1)] by blast
  ultimately show ?thesis
    by (simp add: store_create_def vk_set_json_def vk_set_def vk_set_add_def forget_def raw)
qed

lemma delete_succeeds:
  assumes "serves R kv sets" "answers R" "holds_tasks C kv sets s m"
  shows "\<exists>b s'. store_delete R C i s = (Inr b, s')"
proof -
  obtain s1 where g: "vk_get_json R C (task_key i) s = (Inr (m i), s1)" using get_json_succeeds [OF assms] by blast
  obtain n s2 where "rd_del R (task_key i) s1 = (Inr n, s2)" using answersD(3) [OF assms(2)] by blast
  moreover obtain n' s3 where "rd_srem R INDEX_KEY i s2 = (Inr n', s3)" using answersD(5) [OF assms(2)] by blast
  ultimately show ?thesis
    using g by (cases "m i") (auto simp: store_delete_def store_get_def vk_del_def vk_set_remove_def forget_def)
qed

lemma list_succeeds:
  assumes "serves R kv sets" "answers R" "holds_tasks C kv sets s m"
  shows "\<exists>ts s'. store_list R C s = (Inr ts, s')"
proof -
  have fetch: "\<exists>ts s'. fetch_all R C ids s = (Inr ts, s')" if "holds_tasks C kv sets s m" for ids s
    using that
  proof (induction ids arbitrary: s)
    case (Cons i ids)
    obtain s1 where g: "vk_get_json R C (task_key i) s = (Inr (m i), s1)" "holds_tasks C kv sets s1 m"
      using get_json_succeeds [OF assms(1,2) Cons.prems] by blast
    with Cons.IH [OF g(2)] show ?case by auto
  qed simp
  obtain ids s1 where mem: "rd_smembers R INDEX_KEY s = (Inr ids, s1)" using answersD(6) [OF assms(2)] by blast
  then have "holds_tasks C kv sets s1 m"
    using serves_smembers [OF assms(1) mem] by (intro holds_tasks_cong [OF assms(3)]) simp_all
  with fetch [of s1 ids] mem show ?thesis by (auto simp: store_list_def vk_set_members_def)
qed

text \<open>Fetching indexed ids yields only tasks that carry one of these ids.\<close>

lemma fetch_indexed:
  assumes "serves R kv sets" "fetch_all R C ids s = (r, s')"
    and "\<And>i. i \<in> set ids \<Longrightarrow> holds_entry C (kv s (task_key i)) i (m i)" "j \<notin> set ids"
  shows "\<forall>ts. r = Inr ts \<longrightarrow> j \<notin> t_id ` set ts"
  using assms(2-4)
proof (induction ids arbitrary: s r s')
  case (Cons i ids)
  obtain g s1 where g: "rd_get R (task_key i) s = (g, s1)" by fastforce
  note get = serves_get [OF assms(1) g]
  obtain r1 s2 where rest: "fetch_all R C ids s1 = (r1, s2)" by fastforce
  have "\<forall>ts. r1 = Inr ts \<longrightarrow> j \<notin> t_id ` set ts"
    using Cons.prems get by (intro Cons.IH [OF rest]) auto
  moreover have "holds_entry C (kv s (task_key i)) i (m i)" "j \<noteq> i" using Cons.prems by auto
  ultimately show ?case
    using Cons.prems(1) g rest get
    by (cases "m i"; cases r1) (auto simp: vk_get_json_def vk_get_def split: sum.splits option.splits)
qed auto

section \<open>Properties\<close>

text \<open>
  C7 The store implements a dictionary.  On any server state that holds a dictionary \<open>m\<close> of tasks: a
  \<open>create\<close> that succeeds leaves one that holds \<open>m\<close> with the task added; a \<open>get\<close> that succeeds returns
  \<open>m\<close>'s entry and changes nothing; a \<open>delete\<close> that succeeds reports whether the id was in \<open>m\<close> and
  leaves \<open>m\<close> without it; a \<open>list\<close> that succeeds returns every task of \<open>m\<close> exactly once, newest first.
  While no command of the server fails, none of the four operations does.
\<close>

theorem store_refines_dictionary:
  assumes "serves R kv sets" "round_trips C" "holds_tasks C kv sets s m"
  shows "(\<forall>t s'. store_create R C t s = (Inr (), s') \<longrightarrow> holds_tasks C kv sets s' (m(t_id t \<mapsto> t))) \<and>
    (\<forall>i v s'. store_get R C i s = (Inr v, s') \<longrightarrow> v = m i \<and> holds_tasks C kv sets s' m) \<and>
    (\<forall>i b s'. store_delete R C i s = (Inr b, s') \<longrightarrow>
      b = (m i \<noteq> None) \<and> holds_tasks C kv sets s' (m(i := None))) \<and>
    (\<forall>ts s'. store_list R C s = (Inr ts, s') \<longrightarrow>
      holds_tasks C kv sets s' m \<and> set ts = ran m \<and> distinct ts \<and>
      sorted_wrt (\<lambda>a b. t_created_at b \<le> t_created_at a) ts) \<and>
    (answers R \<longrightarrow>
      (\<forall>t. \<exists>s'. store_create R C t s = (Inr (), s')) \<and> (\<forall>i. \<exists>v s'. store_get R C i s = (Inr v, s')) \<and>
      (\<forall>i. \<exists>b s'. store_delete R C i s = (Inr b, s')) \<and> (\<exists>ts s'. store_list R C s = (Inr ts, s')))"
proof -
  have "v = m i \<and> holds_tasks C kv sets s' m" if "store_get R C i s = (Inr v, s')" for i v s'
    using get_json_spec [OF assms(1,3) that [unfolded store_get_def]] holds_tasks_cong [OF assms(3)] by simp
  moreover have "\<exists>v s'. store_get R C i s = (Inr v, s')" if "answers R" for i
    unfolding store_get_def using get_json_succeeds [OF assms(1) that assms(3), of i] by blast
  ultimately show ?thesis
    by (intro conjI allI impI)
      (blast intro: create_spec [OF assms] create_succeeds [OF _ assms(2)]
        delete_succeeds [OF assms(1) _ assms(3)] list_succeeds [OF assms(1) _ assms(3)]
        dest: delete_spec [OF assms(1,3)] list_spec [OF assms(1,3)])+
qed

text \<open>A codec for examples: fields written one after the other, with their lengths in unary.\<close>

definition unary :: "nat \<Rightarrow> string" where
  "unary n = replicate n (CHR ''1'') @ ''0''"

fun read_unary :: "nat \<Rightarrow> string \<Rightarrow> nat \<times> string" where
  "read_unary n (c # cs) = (if c = CHR ''1'' then read_unary (Suc n) cs else (n, cs))"
| "read_unary n [] = (n, [])"

lemma read_unary: "read_unary k (unary n @ s) = (k + n, s)"
  by (induction n arbitrary: k) (auto simp: unary_def)

definition toy_codec :: "(task, string) codec" where
  "toy_codec =
     \<lparr>enc = (\<lambda>t. Inr (unary (length (t_id t)) @ t_id t @ unary (length (t_title t)) @ t_title t @
        (if t_done t then ''1'' else ''0'') @ unary (unat (t_created_at t)))),
      dec = (\<lambda>s. let (n, s) = read_unary 0 s; (k, r) = read_unary 0 (drop n s); q = drop k r
        in Inr \<lparr>t_id = take n s, t_title = take k r, t_done = (hd q = CHR ''1''),
             t_created_at = of_nat (fst (read_unary 0 (tl q)))\<rparr>)\<rparr>"

lemma toy_codec_round_trips: "round_trips toy_codec"
proof -
  have "read_unary 0 (unary n) = (n, [])" for n using read_unary [of 0 n "[]"] by simp
  then show ?thesis
    by (auto simp: round_trips_def toy_codec_def Let_def read_unary)
qed

definition sample_task :: "string \<Rightarrow> u64 \<Rightarrow> task" where
  "sample_task i time = \<lparr>t_id = i, t_title = ''milk'', t_done = False, t_created_at = time\<rparr>"

lemma sample_id: "t_id (sample_task i time) = i"
  by (simp add: sample_task_def)

definition empty_server :: mem_server where
  "empty_server = \<lparr>mem_kv = [], mem_sets = []\<rparr>"

lemma empty_server_holds:
  "holds_tasks toy_codec (\<lambda>s. map_of (mem_kv s)) (\<lambda>s k. set (mem_members s k)) empty_server Map.empty"
  by (simp add: holds_tasks_def empty_server_def mem_members_def)

lemma sample_created:
  "\<exists>s. store_create mem_redis toy_codec t s0 = (Inr (), s)"
  by (simp add: store_create_def vk_set_json_def vk_set_def vk_set_add_def forget_def toy_codec_def mem_redis_def)

lemma sample_fetch:
  "\<exists>v. vk_get_json mem_redis toy_codec k s = (Inr v, s)"
  by (simp add: vk_get_json_def vk_get_def mem_redis_def toy_codec_def Let_def split_beta split: option.split)

lemma sample_fetch_all: "\<exists>ts. fetch_all mem_redis toy_codec ids s = (Inr ts, s)"
proof (induction ids)
  case (Cons i ids)
  moreover obtain v where "vk_get_json mem_redis toy_codec (task_key i) s = (Inr v, s)" using sample_fetch by blast
  ultimately show ?case by auto
qed simp

lemma sample_listed: "\<exists>ts. store_list mem_redis toy_codec s = (Inr ts, s)"
proof -
  obtain ids where "vk_set_members mem_redis INDEX_KEY s = (Inr ids, s)"
    by (simp add: vk_set_members_def mem_redis_def)
  then show ?thesis using sample_fetch_all [of ids s] by (auto simp: store_list_def)
qed

lemma ran_two: "a \<noteq> b \<Longrightarrow> ran [a \<mapsto> x, b \<mapsto> y] = {x, y}"
  by (auto simp: ran_def)

theorem store_refines_dictionary_witness:
  "\<exists>s1 s2 ts. store_create mem_redis toy_codec (sample_task ''a'' 1) empty_server = (Inr (), s1) \<and>
     store_create mem_redis toy_codec (sample_task ''b'' 2) s1 = (Inr (), s2) \<and>
     store_list mem_redis toy_codec s2 = (Inr ts, s2) \<and>
     set ts = {sample_task ''a'' 1, sample_task ''b'' 2} \<and>
     sorted_wrt (\<lambda>a b. t_created_at b \<le> t_created_at a) ts"
proof -
  let ?kv = "\<lambda>s. map_of (mem_kv s)" and ?sets = "\<lambda>s k. set (mem_members s k)"
  note refines = store_refines_dictionary [OF mem_redis_serves toy_codec_round_trips]
  obtain s1 where s1: "store_create mem_redis toy_codec (sample_task ''a'' 1) empty_server = (Inr (), s1)"
    using sample_created by blast
  have h1: "holds_tasks toy_codec ?kv ?sets s1 (Map.empty(''a'' \<mapsto> sample_task ''a'' 1))"
    using refines [OF empty_server_holds, THEN conjunct1, rule_format, OF s1] by (simp add: sample_id)
  obtain s2 where s2: "store_create mem_redis toy_codec (sample_task ''b'' 2) s1 = (Inr (), s2)"
    using sample_created by blast
  have h2: "holds_tasks toy_codec ?kv ?sets s2 ([''a'' \<mapsto> sample_task ''a'' 1, ''b'' \<mapsto> sample_task ''b'' 2])"
    using refines [OF h1, THEN conjunct1, rule_format, OF s2] by (simp add: sample_id)
  obtain ts where ts: "store_list mem_redis toy_codec s2 = (Inr ts, s2)" using sample_listed by blast
  note list = refines [OF h2, THEN conjunct2, THEN conjunct2, THEN conjunct2, THEN conjunct1, rule_format, OF ts]
  have ran: "ran [''a'' \<mapsto> sample_task ''a'' 1, ''b'' \<mapsto> sample_task ''b'' 2] = {sample_task ''a'' 1, sample_task ''b'' 2}"
    using ran_two [of "''a''" "''b''"] by simp
  have "set ts = {sample_task ''a'' 1, sample_task ''b'' 2} \<and> sorted_wrt (\<lambda>a b. t_created_at b \<le> t_created_at a) ts"
    using list unfolding ran by blast
  with s1 s2 ts show ?thesis by blast
qed

text \<open>
  C39 A \<open>create\<close> that fails after its first command leaves an orphan: the value is stored but not
  indexed, so the request fails although the task can be fetched by its id, and \<open>list\<close> never shows it.
\<close>

theorem create_orphan:
  assumes "serves R kv sets" "round_trips C" "holds_tasks C kv sets s m" "m (t_id t) = None"
    and "rd_set R (task_key (t_id t)) raw s = (Inr (), s1)" "enc C t = Inr raw"
    and "rd_sadd R INDEX_KEY (t_id t) s1 = (Inl e, s2)" "sets s2 INDEX_KEY = sets s1 INDEX_KEY"
  shows "store_create R C t s = (Inl e, s2) \<and>
    (\<forall>v s'. store_get R C (t_id t) s2 = (Inr v, s') \<longrightarrow> v = Some t) \<and>
    (\<forall>ts s'. store_list R C s2 = (Inr ts, s') \<longrightarrow> t \<notin> set ts)"
proof -
  have raw: "dec C raw = Inr t"
  proof -
    from assms(2) obtain raw' where "enc C t = Inr raw'" "dec C raw' = Inr t"
      unfolding round_trips_def by blast
    with assms(6) show ?thesis by simp
  qed
  have kv: "kv s2 = (kv s)(task_key (t_id t) \<mapsto> raw)"
    using serves_set [OF assms(1,5)] serves_sadd [OF assms(1,7)] by auto
  have idx: "sets s2 INDEX_KEY = dom m"
    using serves_set [OF assms(1,5)] assms(3,8) by (auto simp: holds_tasks_def)
  have "store_create R C t s = (Inl e, s2)"
    using assms(5-7) by (simp add: store_create_def vk_set_json_def vk_set_def vk_set_add_def forget_def)
  moreover have "v = Some t" if "store_get R C (t_id t) s2 = (Inr v, s')" for v s'
  proof -
    obtain g s3 where g: "rd_get R (task_key (t_id t)) s2 = (g, s3)" by fastforce
    with serves_get [OF assms(1) g] kv raw that show ?thesis
      by (auto simp: store_get_def vk_get_json_def vk_get_def split: sum.splits option.splits)
  qed
  moreover have "t \<notin> set ts" if l: "store_list R C s2 = (Inr ts, s')" for ts s'
  proof -
    obtain r3 s3 where mem: "rd_smembers R INDEX_KEY s2 = (r3, s3)" by fastforce
    obtain ids where ids: "r3 = Inr ids"
      using l mem by (cases r3) (auto simp: store_list_def vk_set_members_def)
    then have set: "set ids = dom m" "kv s3 = kv s2" using serves_smembers [OF assms(1) mem] idx by auto
    obtain r4 s4 where f: "fetch_all R C ids s3 = (r4, s4)" by fastforce
    have entries: "holds_entry C (kv s3 (task_key i)) i (m i)" if "i \<in> dom m" for i
      using that assms(3,4) by (auto simp: set(2) kv holds_tasks_def)
    have "\<forall>ts. r4 = Inr ts \<longrightarrow> t_id t \<notin> t_id ` set ts"
      by (rule fetch_indexed [OF assms(1) f]) (use set entries assms(4) in auto)
    then show ?thesis using l mem ids f newest_first_facts(1)
      by (cases r4) (auto simp: store_list_def vk_set_members_def)
  qed
  ultimately show ?thesis by blast
qed

definition no_sadd_redis :: "(mem_server, string) redis" where
  "no_sadd_redis = mem_redis\<lparr>rd_sadd := (\<lambda>k m s. (Inl ''connection reset'', s))\<rparr>"

lemma no_sadd_serves: "serves no_sadd_redis (\<lambda>s. map_of (mem_kv s)) (\<lambda>s k. set (mem_members s k))"
  by (auto simp: serves_def no_sadd_redis_def mem_redis_def mem_members_def map_of_filter_key fun_eq_iff
      split: option.splits)

theorem create_orphan_witness:
  "\<exists>s. store_create no_sadd_redis toy_codec (sample_task ''a'' 1) empty_server = (Inl ''connection reset'', s) \<and>
     (\<forall>v s'. store_get no_sadd_redis toy_codec ''a'' s = (Inr v, s') \<longrightarrow> v = Some (sample_task ''a'' 1))"
proof -
  obtain raw where raw: "enc toy_codec (sample_task ''a'' 1) = Inr raw"
    using toy_codec_round_trips unfolding round_trips_def by blast
  let ?s = "empty_server\<lparr>mem_kv := [(task_key ''a'', raw)]\<rparr>"
  have set: "rd_set no_sadd_redis (task_key (t_id (sample_task ''a'' 1))) raw empty_server = (Inr (), ?s)"
    by (simp add: no_sadd_redis_def mem_redis_def sample_id empty_server_def)
  have add: "rd_sadd no_sadd_redis INDEX_KEY (t_id (sample_task ''a'' 1)) ?s = (Inl ''connection reset'', ?s)"
    by (simp add: no_sadd_redis_def)
  show ?thesis
    using create_orphan [OF no_sadd_serves toy_codec_round_trips empty_server_holds _ set raw add]
    by (auto simp: sample_id)
qed

end
