(* ===== verification/Kafka.thy ===== *)
theory Kafka
  imports Service_Configs
begin

text \<open>
  The producer and the consumer loop of \<open>crates/kafka/src/lib.rs\<close>.  The broker and the client
  library are arguments: a send with its delivery report, the stream of poll results, and a
  commit.  A run of the consumer loop is modelled over the finite sequence of poll results it has
  seen so far; the loop never ends by itself.
\<close>

section \<open>Messages and probes\<close>

record message =
  msg_topic :: string
  msg_key :: "bytes option"
  msg_payload :: bytes
  msg_partition :: "32 word"
  msg_offset :: "64 word"

text \<open>What the client library hands out; a tombstone has no payload.\<close>

record borrowed_message =
  bm_topic :: string
  bm_key :: "bytes option"
  bm_payload :: "bytes option"
  bm_partition :: "32 word"
  bm_offset :: "64 word"

definition METADATA_TIMEOUT :: duration where
  "METADATA_TIMEOUT = duration_from_secs 3"

text \<open>
  One turn of the background probe: the blocking task's result, or \<open>None\<close> when it panicked.
\<close>

definition probe_turn :: "bool option \<Rightarrow> bool" where
  "probe_turn joined = (case joined of Some ok \<Rightarrow> ok | None \<Rightarrow> False)"

text \<open>
  The background task: a turn for every tick, the flag holding the result of the last one; when
  \<open>tokio::time::interval\<close> panics on its period the task ends and the flag keeps its value.
\<close>

definition spawn_probe :: "(duration \<Rightarrow> bool) \<Rightarrow> duration \<Rightarrow> bool option list \<Rightarrow> bool \<Rightarrow> bool" where
  "spawn_probe interval_ok period joineds flag =
     (if interval_ok period then fold (\<lambda>joined flag. probe_turn joined) joineds flag else flag)"

definition kafka_readiness :: "bool \<Rightarrow> string + unit" where
  "kafka_readiness healthy = (if healthy then Inr () else Inl ''kafka brokers unreachable'')"

section \<open>Producer\<close>

record producer =
  pr_default_topic :: string
  pr_healthy :: bool

text \<open>
  \<open>create\<close> builds the client from its settings, \<open>metadata\<close> is the first metadata request, whose
  blocking task may also fail to join; the last component is the probe period.
\<close>

definition producer_settings :: "kafka_config \<Rightarrow> (string \<times> string) list" where
  "producer_settings cfg =
     [(''bootstrap.servers'', kc_brokers cfg), (''client.id'', kc_client_id cfg),
      (''message.timeout.ms'', ''5000'')]"

definition producer_connect ::
  "((string \<times> string) list \<Rightarrow> 'e option) \<Rightarrow> (duration \<Rightarrow> 'e option) \<Rightarrow> kafka_config \<Rightarrow>
   'e + producer \<times> duration" where
  "producer_connect create metadata cfg =
     (case create (producer_settings cfg) of
        Some e \<Rightarrow> Inl e
      | None \<Rightarrow>
          (case metadata METADATA_TIMEOUT of
             Some e \<Rightarrow> Inl e
           | None \<Rightarrow>
               Inr (\<lparr>pr_default_topic = kc_topic cfg, pr_healthy = True\<rparr>,
                    duration_from_secs (max (kc_probe_secs cfg) 1))))"

datatype 'e publish_error = PublishError string 'e

record record_out =
  rec_topic :: string
  rec_key :: bytes
  rec_payload :: bytes

definition publish ::
  "(record_out \<Rightarrow> duration \<Rightarrow> 'k \<Rightarrow> ('e + unit) \<times> 'k) \<Rightarrow> producer \<Rightarrow> string \<Rightarrow> bytes \<Rightarrow> bytes \<Rightarrow> 'k \<Rightarrow>
   ('e publish_error + unit) \<times> 'k" where
  "publish deliver p topic key payload k =
     (let topic = (if topic = [] then pr_default_topic p else topic);
          (r, k) = deliver \<lparr>rec_topic = topic, rec_key = key, rec_payload = payload\<rparr> (duration_from_secs 5) k
      in case r of Inl e \<Rightarrow> (Inl (PublishError topic e), k) | Inr _ \<Rightarrow> (Inr (), k))"

section \<open>Consumer\<close>

definition consumer_settings :: "kafka_config \<Rightarrow> (string \<times> string) list" where
  "consumer_settings cfg =
     [(''bootstrap.servers'', kc_brokers cfg), (''group.id'', kc_group cfg),
      (''client.id'', kc_client_id cfg), (''enable.auto.commit'', ''false''),
      (''auto.offset.reset'', ''earliest'')]"

definition consumer_connect ::
  "((string \<times> string) list \<Rightarrow> 'e option) \<Rightarrow> (string list \<Rightarrow> 'e option) \<Rightarrow> (duration \<Rightarrow> 'e option) \<Rightarrow>
   kafka_config \<Rightarrow> 'e + bool \<times> duration" where
  "consumer_connect create subscribe metadata cfg =
     (case create (consumer_settings cfg) of
        Some e \<Rightarrow> Inl e
      | None \<Rightarrow>
          (case subscribe [kc_topic cfg] of
             Some e \<Rightarrow> Inl e
           | None \<Rightarrow>
               (case metadata METADATA_TIMEOUT of
                  Some e \<Rightarrow> Inl e
                | None \<Rightarrow> Inr (True, duration_from_secs (max (kc_probe_secs cfg) 1)))))"

definition to_message :: "borrowed_message \<Rightarrow> message" where
  "to_message b =
     \<lparr>msg_topic = bm_topic b, msg_key = bm_key b,
      msg_payload = (case bm_payload b of Some p \<Rightarrow> p | None \<Rightarrow> []),
      msg_partition = bm_partition b, msg_offset = bm_offset b\<rparr>"

text \<open>
  The loop: how it stands after a sequence of polls, \<open>Polling\<close> when it would poll again or
  \<open>Stopped\<close> with the error it returned; the handler threads the state \<open>'w\<close>, and the last
  component collects the commits that were accepted.
\<close>

datatype 'e loop_state = Polling | Stopped 'e

fun consumer_run ::
  "(message \<Rightarrow> 'w \<Rightarrow> ('e + unit) \<times> 'w) \<Rightarrow> (borrowed_message \<Rightarrow> 'e option) \<Rightarrow>
   ('p + borrowed_message) list \<Rightarrow> 'w \<Rightarrow> 'e loop_state \<times> 'w \<times> borrowed_message list" where
  "consumer_run handler commit [] w = (Polling, w, [])"
| "consumer_run handler commit (Inl err # polls) w = consumer_run handler commit polls w"
| "consumer_run handler commit (Inr b # polls) w =
     (case handler (to_message b) w of
        (Inl e, w) \<Rightarrow> (Stopped e, w, [])
      | (Inr _, w) \<Rightarrow>
          (case commit b of
             Some e \<Rightarrow> (Stopped e, w, [])
           | None \<Rightarrow>
               (let (st, w, bs) = consumer_run handler commit polls w in (st, w, b # bs))))"

section \<open>Facts about the loop\<close>

text \<open>The records of a sequence of polls, and the handler run over some of them.\<close>

definition polled :: "('p + borrowed_message) list \<Rightarrow> borrowed_message list" where
  "polled polls = List.map_filter (\<lambda>p. case p of Inr b \<Rightarrow> Some b | Inl _ \<Rightarrow> None) polls"

lemma polled_simps [simp]:
  "polled [] = []" "polled (Inl e # ps) = polled ps" "polled (Inr b # ps) = b # polled ps"
  by (simp_all add: polled_def List.map_filter_simps)

fun handle_all :: "(message \<Rightarrow> 'w \<Rightarrow> ('e + unit) \<times> 'w) \<Rightarrow> borrowed_message list \<Rightarrow> 'w \<Rightarrow> 'w option" where
  "handle_all handler [] w = Some w"
| "handle_all handler (b # bs) w =
     (case handler (to_message b) w of (Inl e, w) \<Rightarrow> None | (Inr _, w) \<Rightarrow> handle_all handler bs w)"

section \<open>Properties\<close>

text \<open>
  C11 Commit only after success, in order, without gaps: after any sequence of polls the commits are a
  prefix of the records polled, the handler accepted every one of them, and if the loop has stopped
  it stopped at the very next record, because the handler refused it (and it was not committed) or
  because its commit failed; while the loop goes on, everything polled is committed.
\<close>

theorem consumer_commits_prefix:
  assumes "consumer_run handler commit polls w = (st, w', bs)"
  shows "\<exists>rest wb. polled polls = bs @ rest \<and> handle_all handler bs w = Some wb \<and>
    (\<forall>b \<in> set bs. commit b = None) \<and>
    (case st of
       Polling \<Rightarrow> rest = [] \<and> w' = wb
     | Stopped e \<Rightarrow> rest \<noteq> [] \<and>
         (handler (to_message (hd rest)) wb = (Inl e, w') \<or>
          handler (to_message (hd rest)) wb = (Inr (), w') \<and> commit (hd rest) = Some e))"
  using assms
proof (induction handler commit polls w arbitrary: st w' bs rule: consumer_run.induct)
  case (1 handler commit w)
  then show ?case by auto
next
  case (2 handler commit err polls w)
  then show ?case by simp
next
  case (3 handler commit b polls w)
  show ?case
  proof (cases "handler (to_message b) w")
    case h: (Pair r w1)
    show ?thesis
    proof (cases r)
      case (Inl e)
      with h "3.prems" show ?thesis by (auto intro!: exI [of _ "b # polled polls"])
    next
      case (Inr u)
      note r = h [unfolded Inr]
      show ?thesis
      proof (cases "commit b")
        case (Some e)
        with r "3.prems" show ?thesis by (auto intro!: exI [of _ "b # polled polls"])
      next
        case None
        obtain st1 w2 bs1 where rest: "consumer_run handler commit polls w1 = (st1, w2, bs1)"
          by (metis prod_cases3)
        with None r "3.prems" have eq: "st = st1" "w' = w2" "bs = b # bs1" by auto
        from "3.IH" [OF r [symmetric] refl None rest] show ?thesis unfolding eq using None r by simp
      qed
    qed
  qed
qed

theorem consumer_commits_prefix_witness:
  "let h = (\<lambda>m w. if msg_payload m = [] then (Inl ''empty'', w) else (Inr (), Suc w));
       b0 = \<lparr>bm_topic = ''t'', bm_key = None, bm_payload = Some [1], bm_partition = 0, bm_offset = 0\<rparr>;
       b1 = \<lparr>bm_topic = ''t'', bm_key = None, bm_payload = None, bm_partition = 0, bm_offset = 1\<rparr>
   in consumer_run h (\<lambda>b. None) [Inr b0, Inl (), Inr b1] 0 = (Stopped ''empty'', 1, [b0]) \<and>
      (\<exists>wb. handle_all h [b0] 0 = Some wb \<and> h (to_message b1) wb = (Inl ''empty'', 1))"
proof -
  let ?h = "\<lambda>m w. if msg_payload m = [] then (Inl ''empty'', w) else (Inr (), Suc w)"
  let ?b0 = "\<lparr>bm_topic = ''t'', bm_key = None, bm_payload = Some [1], bm_partition = 0, bm_offset = 0\<rparr>"
  let ?b1 = "\<lparr>bm_topic = ''t'', bm_key = None, bm_payload = None, bm_partition = 0, bm_offset = 1\<rparr>"
  have run: "consumer_run ?h (\<lambda>b. None) [Inr ?b0, Inl (), Inr ?b1] 0 = (Stopped ''empty'', 1, [?b0])"
    by (simp add: to_message_def)
  have "\<exists>wb. handle_all ?h [?b0] 0 = Some wb \<and> ?h (to_message ?b1) wb = (Inl ''empty'', 1)"
    using consumer_commits_prefix [OF run] by auto
  with run show ?thesis unfolding Let_def by (rule conjI)
qed

section \<open>The probes of connected clients\<close>

lemma spawn_probe_last:
  assumes "\<forall>d. interval_ok d = (d \<noteq> 0)"
  shows "spawn_probe interval_ok (duration_from_secs (max n 1)) joineds True \<longleftrightarrow> joineds = [] \<or> last joineds = Some True"
proof -
  have "interval_ok (duration_from_secs (max n 1))"
    using assms probe_period_positive [of n] by (auto simp: duration_from_secs_def)
  then show ?thesis
    by (cases joineds rule: rev_cases) (auto simp: spawn_probe_def probe_turn_def split: option.splits)
qed

text \<open>A connected producer and a connected consumer report ready exactly while the last probe succeeded.\<close>

lemma connected_probes_track:
  assumes "\<forall>d. interval_ok d = (d \<noteq> 0)"
  shows "producer_connect create metadata cfg = Inr (p, period) \<Longrightarrow>
      kafka_readiness (spawn_probe interval_ok period joineds (pr_healthy p)) = Inr () \<longleftrightarrow>
        joineds = [] \<or> last joineds = Some True"
    and "consumer_connect create subscribe metadata cfg = Inr (flag, period) \<Longrightarrow>
      kafka_readiness (spawn_probe interval_ok period joineds flag) = Inr () \<longleftrightarrow>
        joineds = [] \<or> last joineds = Some True"
  using spawn_probe_last [OF assms, of "kc_probe_secs cfg" joineds]
  by (auto simp: producer_connect_def consumer_connect_def kafka_readiness_def split: option.splits if_splits)

end
