(* ===== verification/Problem.thy ===== *)
theory Problem
  imports Json
begin

text \<open>
  RFC 9457 problem details: \<open>crates/httpx/src/problem.rs\<close>.  The canonical reason phrases of the
  \<open>http\<close> crate, JSON printing and the response builder are arguments.
\<close>

section \<open>Building a problem\<close>

definition PROBLEM_CONTENT_TYPE :: string where
  "PROBLEM_CONTENT_TYPE = ''application/problem+json''"

record problem =
  p_status :: status_code
  p_type_uri :: "string option"
  p_title :: "string option"
  p_detail :: "string option"
  p_instance :: "string option"
  p_extensions :: "(string, json) btree"

definition problem_new :: "status_code \<Rightarrow> string \<Rightarrow> problem" where
  "problem_new status detail =
     \<lparr>p_status = status, p_type_uri = None, p_title = None, p_detail = Some detail,
      p_instance = None, p_extensions = []\<rparr>"

definition with_type :: "string \<Rightarrow> problem \<Rightarrow> problem" where
  "with_type type_uri p = p\<lparr>p_type_uri := Some type_uri\<rparr>"

definition with_title :: "string \<Rightarrow> problem \<Rightarrow> problem" where
  "with_title title p = p\<lparr>p_title := Some title\<rparr>"

definition with_instance :: "string \<Rightarrow> problem \<Rightarrow> problem" where
  "with_instance inst p = p\<lparr>p_instance := Some inst\<rparr>"

definition with_extension :: "string \<Rightarrow> json \<Rightarrow> problem \<Rightarrow> problem" where
  "with_extension k v p = p\<lparr>p_extensions := btree_insert k v (p_extensions p)\<rparr>"

section \<open>Rendering\<close>

definition insert_if :: "string \<Rightarrow> string option \<Rightarrow> (string, json) btree \<Rightarrow> (string, json) btree" where
  "insert_if k v m = (case v of Some s \<Rightarrow> btree_insert k (JString s) m | None \<Rightarrow> m)"

definition problem_title :: "(status_code \<Rightarrow> string option) \<Rightarrow> problem \<Rightarrow> string" where
  "problem_title canonical_reason p =
     (case p_title p of
        Some t \<Rightarrow> t
      | None \<Rightarrow> (case canonical_reason (p_status p) of Some r \<Rightarrow> r | None \<Rightarrow> ''Error''))"

definition problem_to_json :: "(status_code \<Rightarrow> string option) \<Rightarrow> problem \<Rightarrow> json" where
  "problem_to_json canonical_reason p =
     (let m = p_extensions p;
          m = btree_insert ''type''
                (JString (case p_type_uri p of Some t \<Rightarrow> t | None \<Rightarrow> ''about:blank'')) m;
          m = btree_insert ''title'' (JString (problem_title canonical_reason p)) m;
          m = btree_insert ''status'' (JInt (uint (p_status p))) m;
          m = insert_if ''detail'' (p_detail p) m;
          m = insert_if ''instance'' (p_instance p) m
      in JObject m)"

text \<open>
  \<open>build\<close> is the response builder: \<open>None\<close> when it rejects a part, answered by an empty 500.
\<close>

definition problem_into_response ::
  "(status_code \<Rightarrow> string option) \<Rightarrow> (json \<Rightarrow> bytes option) \<Rightarrow>
   (status_code \<Rightarrow> header_map \<Rightarrow> bytes \<Rightarrow> http_response option) \<Rightarrow> problem \<Rightarrow> http_response" where
  "problem_into_response canonical_reason to_vec build p =
     (let body = (case to_vec (problem_to_json canonical_reason p) of Some b \<Rightarrow> b | None \<Rightarrow> [])
      in case build (p_status p) [(''content-type'', PROBLEM_CONTENT_TYPE)] body of
           Some r \<Rightarrow> r
         | None \<Rightarrow> \<lparr>resp_status = 500, resp_headers = [], resp_body = []\<rparr>)"

section \<open>Well-formed extensions\<close>

definition problem_wf :: "problem \<Rightarrow> bool" where
  "problem_wf p \<longleftrightarrow> btree_wf (p_extensions p)"

lemma problem_wf_build [simp]:
  "problem_wf (problem_new s d)" "problem_wf (with_type u p) = problem_wf p"
  "problem_wf (with_title t p) = problem_wf p" "problem_wf (with_instance i p) = problem_wf p"
  "problem_wf p \<Longrightarrow> problem_wf (with_extension k v p)"
  by (simp_all add: problem_wf_def problem_new_def with_type_def with_title_def with_instance_def
      with_extension_def)

lemma insert_if_wf [simp]: "btree_wf m \<Longrightarrow> btree_wf (insert_if k v m)"
  by (simp add: insert_if_def split: option.split)

lemma insert_if_get [simp]:
  "btree_wf m \<Longrightarrow> btree_get (insert_if k v m) k' =
     (if k' = k then (case v of Some s \<Rightarrow> Some (JString s) | None \<Rightarrow> btree_get m k) else btree_get m k')"
  by (simp add: insert_if_def split: option.split)

section \<open>Properties\<close>

text \<open>
  The rendered problem: whatever extensions were added, also under the names of standard members,
  \<open>type\<close>, \<open>title\<close> and \<open>status\<close> are the problem's own (with the documented defaults), \<open>detail\<close> and
  \<open>instance\<close> are its own when set, every other extension is present unchanged, nothing else is, and
  the members are in key order.
\<close>

theorem problem_members:
  assumes "problem_wf p"
  shows "\<exists>m. problem_to_json reason p = JObject m \<and> btree_wf m \<and>
    (\<forall>k. btree_get m k =
      (if k = ''type'' then Some (JString (case p_type_uri p of Some t \<Rightarrow> t | None \<Rightarrow> ''about:blank''))
       else if k = ''title'' then Some (JString (problem_title reason p))
       else if k = ''status'' then Some (JInt (uint (p_status p)))
       else if k = ''detail'' \<and> p_detail p \<noteq> None then Some (JString (the (p_detail p)))
       else if k = ''instance'' \<and> p_instance p \<noteq> None then Some (JString (the (p_instance p)))
       else btree_get (p_extensions p) k))"
  using assms by (simp add: problem_to_json_def Let_def problem_wf_def split: option.split)

theorem problem_members_witness:
  "member (problem_to_json (\<lambda>s. Some ''Not Found'')
     (with_extension ''status'' (JInt 0) (with_extension ''code'' (JString ''x'') (problem_new 404 ''gone''))))
     ''status'' = Some (JInt 404)"
proof -
  let ?p = "with_extension ''status'' (JInt 0) (with_extension ''code'' (JString ''x'') (problem_new 404 ''gone''))"
  have "problem_wf ?p" by simp
  from problem_members [OF this, of "\<lambda>s. Some ''Not Found''"] show ?thesis
    by (auto simp: with_extension_def problem_new_def)
qed

end
