(* ===== verification/Http_Answer.thy ===== *)
theory Http_Answer
  imports Problem
begin

text \<open>
  What a handler hands to \<open>axum\<close>: a JSON value with a status, a problem, plain text, a bare
  status, or the rejection of one of its extractors.  Turning it into bytes is \<open>axum\<close>'s and \<open>serde_json\<close>'s work (for a problem:
  \<open>problem_into_response\<close>).
\<close>

datatype answer =
    JsonAnswer status_code json
  | ProblemAnswer problem
  | TextAnswer string
  | StatusAnswer status_code
  | RejectionAnswer status_code string

fun answer_status :: "answer \<Rightarrow> status_code" where
  "answer_status (JsonAnswer s j) = s"
| "answer_status (ProblemAnswer p) = p_status p"
| "answer_status (TextAnswer t) = 200"
| "answer_status (StatusAnswer s) = s"
| "answer_status (RejectionAnswer s t) = s"

text \<open>
  The parts of a request that every service reads; the matched route is \<open>axum\<close>'s extension.  A
  service extends the record by what its extractors give it.
\<close>

record http_request =
  rq_method :: string
  rq_matched :: "string option"
  rq_headers :: header_map

section \<open>Routers\<close>

text \<open>
  \<open>axum\<close>'s router as the services use it, an argument of the definitions that build routes: how a
  router is put together, and the handler it runs for a path and a method.  \<open>axum_laws\<close> is the
  documented behaviour: a layer wraps the routes added before it, whatever was merged or layered
  earlier.  Adding a route that is already there and merging overlapping routers panic, so nothing
  is said about them, nor about \<open>HEAD\<close>, which a \<open>GET\<close> route answers as well.
\<close>

record ('r, 'f) axum =
  ax_new :: 'r
  ax_route :: "string \<Rightarrow> string \<Rightarrow> 'f \<Rightarrow> 'r \<Rightarrow> 'r"
  ax_route_layer :: "('f \<Rightarrow> 'f) \<Rightarrow> 'r \<Rightarrow> 'r"
  ax_layer :: "('f \<Rightarrow> 'f) \<Rightarrow> 'r \<Rightarrow> 'r"
  ax_merge :: "'r \<Rightarrow> 'r \<Rightarrow> 'r"
  ax_handler :: "'r \<Rightarrow> string \<Rightarrow> string \<Rightarrow> 'f option"

definition axum_laws :: "('r, 'f) axum \<Rightarrow> bool" where
  "axum_laws A \<longleftrightarrow>
     (\<forall>p m. ax_handler A (ax_new A) p m = None) \<and>
     (\<forall>p m h r p' m'. ax_handler A r p m = None \<longrightarrow> m' \<noteq> ''HEAD'' \<longrightarrow>
        ax_handler A (ax_route A p m h r) p' m' =
          (if p' = p \<and> m' = m then Some h else ax_handler A r p' m')) \<and>
     (\<forall>f r p m. ax_handler A (ax_route_layer A f r) p m = map_option f (ax_handler A r p m)) \<and>
     (\<forall>f r p m. ax_handler A (ax_layer A f r) p m = map_option f (ax_handler A r p m)) \<and>
     (\<forall>r s p m. (\<forall>p m. ax_handler A r p m = None \<or> ax_handler A s p m = None) \<longrightarrow>
        ax_handler A (ax_merge A r s) p m =
          (case ax_handler A r p m of Some h \<Rightarrow> Some h | None \<Rightarrow> ax_handler A s p m))"

lemma axum_lawsD:
  assumes "axum_laws A"
  shows "ax_handler A (ax_new A) p m = None"
    "ax_handler A r p m = None \<Longrightarrow> m' \<noteq> ''HEAD'' \<Longrightarrow>
       ax_handler A (ax_route A p m h r) p' m' = (if p' = p \<and> m' = m then Some h else ax_handler A r p' m')"
    "ax_handler A (ax_route_layer A f r) p m = map_option f (ax_handler A r p m)"
    "ax_handler A (ax_layer A f r) p m = map_option f (ax_handler A r p m)"
    "\<forall>p m. ax_handler A r p m = None \<or> ax_handler A s p m = None \<Longrightarrow>
       ax_handler A (ax_merge A r s) p m =
         (case ax_handler A r p m of Some h \<Rightarrow> Some h | None \<Rightarrow> ax_handler A s p m)"
  using assms unfolding axum_laws_def by blast+

text \<open>Merging into the empty router, which is what a server without routes holds.\<close>

lemma merge_into_new:
  assumes "axum_laws A"
  shows "ax_handler A (ax_merge A (ax_new A) r) p m = ax_handler A r p m"
  using axum_lawsD(5) [OF assms, of "ax_new A" r] by (simp add: axum_lawsD(1) [OF assms])

text \<open>Routes added one after the other, each of them new, are found by path and method.\<close>

definition ax_routes :: "('r, 'f) axum \<Rightarrow> ((string \<times> string) \<times> 'f) list \<Rightarrow> 'r \<Rightarrow> 'r" where
  "ax_routes A rs r = fold (\<lambda>((p, m), h). ax_route A p m h) rs r"

fun route_lookup :: "((string \<times> string) \<times> 'f) list \<Rightarrow> string \<Rightarrow> string \<Rightarrow> 'f option \<Rightarrow> 'f option" where
  "route_lookup [] p m dflt = dflt"
| "route_lookup (((q, n), h) # rs) p m dflt = (if p = q \<and> m = n then Some h else route_lookup rs p m dflt)"

lemma route_lookup_absent: "(p, m) \<notin> fst ` set rs \<Longrightarrow> route_lookup rs p m dflt = dflt"
  by (induction rs p m dflt rule: route_lookup.induct) auto

lemma ax_routes_handler:
  assumes "axum_laws A" "m \<noteq> ''HEAD''"
    and "\<forall>((p, m), h) \<in> set rs. ax_handler A r p m = None \<and> m \<noteq> ''HEAD''" "distinct (map fst rs)"
  shows "ax_handler A (ax_routes A rs r) p m = route_lookup rs p m (ax_handler A r p m)"
  using assms(3,4)
proof (induction rs arbitrary: r)
  case (Cons x rs)
  obtain q n h where x: "x = ((q, n), h)" by (metis surj_pair)
  have q: "ax_handler A r q n = None" using Cons.prems(1) by (simp add: x)
  note route = axum_lawsD(2) [OF assms(1) q]
  have fresh: "(q, n) \<notin> fst ` set rs" using Cons.prems(2) by (simp add: x)
  have "\<forall>((p, m), h') \<in> set rs. ax_handler A (ax_route A q n h r) p m = None \<and> m \<noteq> ''HEAD''"
    using Cons.prems(1) fresh route by (force simp: x)
  then have "ax_handler A (ax_routes A rs (ax_route A q n h r)) p m =
      route_lookup rs p m (ax_handler A (ax_route A q n h r) p m)"
    using Cons.prems(2) by (intro Cons.IH) simp_all
  then show ?case
    using route [OF assms(2), of h p] route_lookup_absent [OF fresh]
    by (auto simp: x ax_routes_def)
qed (simp add: ax_routes_def)

text \<open>A router as its dispatch table, for examples.\<close>

definition table_axum :: "(string \<Rightarrow> string \<Rightarrow> 'f option, 'f) axum" where
  "table_axum =
     \<lparr>ax_new = (\<lambda>p m. None),
      ax_route = (\<lambda>p m h r p' m'. if p' = p \<and> m' = m then Some h else r p' m'),
      ax_route_layer = (\<lambda>f r p m. map_option f (r p m)),
      ax_layer = (\<lambda>f r p m. map_option f (r p m)),
      ax_merge = (\<lambda>r s p m. case r p m of Some h \<Rightarrow> Some h | None \<Rightarrow> s p m),
      ax_handler = (\<lambda>r. r)\<rparr>"

lemma table_axum_laws: "axum_laws table_axum"
  by (simp add: axum_laws_def table_axum_def split: option.split)

end
