(* ===== verification/Health.thy ===== *)
theory Health
  imports Http_Answer
begin

text \<open>
  The readiness registry and its HTTP surface: \<open>crates/httpx/src/health.rs\<close> and the handlers
  \<open>live\<close> and \<open>ready\<close> of \<open>server.rs\<close>.  A check is a closure over shared state (a probe's health
  flag); here it is a function of that state, which is the argument of \<open>run_checks\<close>.
\<close>

section \<open>The registry\<close>

type_synonym 'w check_fn = "'w \<Rightarrow> string + unit"

record 'w health =
  h_ready :: bool
  h_checks :: "(string, 'w check_fn) btree"

definition health_new :: "'w health" where
  "health_new = \<lparr>h_ready = False, h_checks = []\<rparr>"

definition register :: "string \<Rightarrow> 'w check_fn \<Rightarrow> 'w health \<Rightarrow> 'w health" where
  "register name check h = h\<lparr>h_checks := btree_insert name check (h_checks h)\<rparr>"

definition set_ready :: "bool \<Rightarrow> 'w health \<Rightarrow> 'w health" where
  "set_ready b h = h\<lparr>h_ready := b\<rparr>"

definition is_ready :: "'w health \<Rightarrow> bool" where
  "is_ready h = h_ready h"

definition run_checks :: "'w \<Rightarrow> 'w health \<Rightarrow> bool \<times> (string, string) btree" where
  "run_checks w h =
     fold (\<lambda>(name, check) (all_ok, results).
         case check w of
           Inr _ \<Rightarrow> (all_ok, btree_insert name ''ok'' results)
         | Inl reason \<Rightarrow> (False, btree_insert name reason results))
       (h_checks h) (True, [])"

section \<open>Handlers\<close>

definition live :: answer where
  "live = JsonAnswer 200 (jobj [(''status'', JString ''ok'')])"

definition ready :: "'w \<Rightarrow> 'w health \<Rightarrow> answer" where
  "ready w h =
     (if \<not> is_ready h then JsonAnswer 503 (jobj [(''status'', JString ''not_ready'')])
      else
        (let (ok, checks) = run_checks w h;
             (status, label) = (if ok then (200, ''ready'') else (503, ''degraded''))
         in JsonAnswer status
              (jobj [(''status'', JString label),
                     (''checks'', JObject (map (\<lambda>(k, v). (k, JString v)) checks))])))"

section \<open>What the checks report\<close>

definition health_wf :: "'w health \<Rightarrow> bool" where
  "health_wf h \<longleftrightarrow> btree_wf (h_checks h)"

lemma health_wf_simps [simp]:
  "health_wf health_new" "health_wf h \<Longrightarrow> health_wf (register n c h)"
  "health_wf (set_ready b h) = health_wf h"
  by (simp_all add: health_wf_def health_new_def register_def set_ready_def)

lemma set_ready_simps [simp]:
  "is_ready (set_ready b h) = b" "set_ready b (set_ready b' h) = set_ready b h"
  "set_ready (is_ready h) h = h" "is_ready (register n c h) = is_ready h" "\<not> is_ready health_new"
  by (simp_all add: set_ready_def is_ready_def register_def health_new_def)

lemma set_ready_same: "\<not> is_ready h \<Longrightarrow> set_ready False h = h"
  using set_ready_simps(3) [of h] by simp

interpretation registry: keyed_store "\<lambda>h. btree_get (h_checks h)" register health_wf
  by unfold_locales (auto simp: health_wf_def register_def)

definition report :: "'w \<Rightarrow> 'w check_fn \<Rightarrow> string" where
  "report w check = (case check w of Inr _ \<Rightarrow> ''ok'' | Inl reason \<Rightarrow> reason)"

definition healthy :: "'w \<Rightarrow> 'w check_fn \<Rightarrow> bool" where
  "healthy w check \<longleftrightarrow> check w = Inr ()"

lemma run_checks_fold:
  "fold (\<lambda>(name, check) (all_ok, results).
       case check w of
         Inr _ \<Rightarrow> (all_ok, btree_insert name ''ok'' results)
       | Inl reason \<Rightarrow> (False, btree_insert name reason results)) cs (b, acc) =
   (b \<and> list_all (\<lambda>(n, c). healthy w c) cs,
    fold (\<lambda>(k, v). btree_insert k v) (map (\<lambda>(n, c). (n, report w c)) cs) acc)"
proof (induction cs arbitrary: b acc)
  case (Cons nc cs)
  obtain n c where nc: "nc = (n, c)" by (cases nc)
  show ?case
  proof (cases "c w")
    case (Inl r)
    then show ?thesis using Cons.IH by (simp add: nc report_def healthy_def)
  next
    case (Inr u)
    then show ?thesis using Cons.IH by (simp add: nc report_def healthy_def)
  qed
qed simp

lemma run_checks_eq:
  assumes "health_wf h"
  shows "run_checks w h =
    (list_all (\<lambda>(n, c). healthy w c) (h_checks h), map (\<lambda>(n, c). (n, report w c)) (h_checks h))"
proof -
  have "btree_wf ([] @ map (\<lambda>(n, c). (n, report w c)) (h_checks h))"
    using assms by (simp add: health_wf_def)
  from btree_fold_insert [OF this] show ?thesis by (simp add: run_checks_def run_checks_fold)
qed

section \<open>Properties\<close>

text \<open>The registry after a sequence of registrations, with its gate.\<close>

abbreviation registered :: "(string \<times> 'w check_fn) list \<Rightarrow> bool \<Rightarrow> 'w health" where
  "registered cs b \<equiv> set_ready b (fold (\<lambda>(n, c). register n c) cs health_new)"

text \<open>
  Readiness: after any sequence of registrations the endpoint answers 200 exactly when the gate is
  open and the check registered last under every name succeeds, and 503 otherwise; with the gate
  open the answer has one entry per registered name, in name order, \<open>ok\<close> or the reason of the
  failure.
\<close>

lemma ready_iff:
  "(answer_status (ready w (registered cs b)) = 200) = (b \<and> (\<forall>n c. map_of (rev cs) n = Some c \<longrightarrow> c w = Inr ())) \<and>
    (answer_status (ready w (registered cs b)) = 200 \<or> answer_status (ready w (registered cs b)) = 503) \<and>
    sorted_wrt (<) (map fst (snd (run_checks w (registered cs b)))) \<and>
    (\<forall>n. map_of (snd (run_checks w (registered cs b))) n = map_option (report w) (map_of (rev cs) n))"
proof -
  let ?h = "fold (\<lambda>(n, c). register n c) cs health_new"
  have wf: "health_wf ?h" using registry.wf_ins_all [of health_new cs] by (simp add: registry.ins_all_def)
  have get: "btree_get (h_checks ?h) n = map_of (rev cs) n" for n
  proof -
    have "btree_get (h_checks health_new) n = None" by (simp add: health_new_def)
    then show ?thesis using registry.get_ins_all [of health_new cs n]
      by (simp add: registry.ins_all_def split: option.splits)
  qed
  have checks: "h_checks (set_ready b ?h) = h_checks ?h" by (simp add: set_ready_def)
  have run: "run_checks w (registered cs b) =
      (list_all (\<lambda>(n, c). healthy w c) (h_checks ?h), map (\<lambda>(n, c). (n, report w c)) (h_checks ?h))"
    using run_checks_eq [of "set_ready b ?h" w] wf checks by simp
  have all: "list_all (\<lambda>(n, c). healthy w c) (h_checks ?h) \<longleftrightarrow>
      (\<forall>n c. map_of (rev cs) n = Some c \<longrightarrow> c w = Inr ())"
    using wf unfolding get [symmetric]
    by (auto simp: list_all_iff healthy_def health_wf_def btree_distinct map_of_eq_Some_iff)
  have "is_ready (registered cs b) = b" by (simp add: is_ready_def set_ready_def)
  then have status: "answer_status (ready w (registered cs b)) =
      (if b \<and> list_all (\<lambda>(n, c). healthy w c) (h_checks ?h) then 200 else 503)"
    unfolding ready_def run by simp
  have "sorted_wrt (<) (map fst (snd (run_checks w (registered cs b))))"
    unfolding run snd_conv using wf
    by (simp add: health_wf_def btree_wf_def comp_def case_prod_unfold)
  moreover have "map_of (snd (run_checks w (registered cs b))) n = map_option (report w) (map_of (rev cs) n)" for n
    unfolding run snd_conv get [symmetric] by (simp add: map_of_map)
  ultimately show ?thesis unfolding status all by auto
qed

text \<open>With distinct names every check counts.\<close>

lemma ready_distinct:
  assumes "distinct (map fst cs)"
  shows "answer_status (ready w (registered cs b)) = (if b \<and> list_all (\<lambda>(n, c). c w = Inr ()) cs then 200 else 503)"
proof -
  have "map_of (rev cs) n = Some c \<longleftrightarrow> (n, c) \<in> set cs" for n c
    using map_of_eq_Some_iff [of "rev cs" n c] assms by (simp add: rev_map [symmetric])
  then show ?thesis using ready_iff [where w = w and cs = cs and b = b] by (auto simp: list_all_iff)
qed

end
