(* ===== verification/Httpx_Server.thy ===== *)
theory Httpx_Server
  imports Health Httpx_Config Metric_Log
begin

text \<open>
  The shared server: \<open>crates/httpx/src/server.rs\<close>, the request metrics of \<open>metrics.rs\<close> and the
  subscriber choice of \<open>logging.rs\<close>.  A handler is a function from a request and the shared state
  to an answer and a new state; the state holds the metric updates and the readiness registry.
\<close>

section \<open>Request metrics\<close>

definition http_metrics :: "metric_desc list" where
  "http_metrics =
     [\<lparr>d_name = ''http_requests_total'', d_kind = CounterKind,
       d_labels = [''method'', ''path'', ''status'']\<rparr>,
      \<lparr>d_name = ''http_request_duration_seconds'', d_kind = HistogramKind,
       d_labels = [''method'', ''path'', ''status'']\<rparr>]"

definition http_record :: "string \<Rightarrow> string \<Rightarrow> u16 \<Rightarrow> f64 \<Rightarrow> metric_update list \<Rightarrow> metric_update list" where
  "http_record meth path status elapsed_secs us =
     (let status = dec_string (unat status)
      in us @ [Inc ''http_requests_total'' [meth, path, status],
               Observe ''http_request_duration_seconds'' [meth, path, status] elapsed_secs])"

section \<open>The server\<close>

record 'w app_state =
  as_metrics :: "metric_update list"
  as_health :: "'w health"
  as_world :: 'w

type_synonym ('z, 'w) handler = "'z http_request_scheme \<Rightarrow> 'w app_state \<Rightarrow> answer \<times> 'w app_state"

text \<open>\<open>render\<close> is the text encoder of the \<open>prometheus\<close> crate.\<close>

definition live_handler :: "('z, 'w) handler" where
  "live_handler rq s = (live, s)"

definition ready_handler :: "('z, 'w) handler" where
  "ready_handler rq s = (ready (as_world s) (as_health s), s)"

definition metrics_handler :: "(metric_update list \<Rightarrow> string) \<Rightarrow> ('z, 'w) handler" where
  "metrics_handler render rq s = (TextAnswer (render (as_metrics s)), s)"

text \<open>\<open>elapsed\<close> is the reading of the stop watch.\<close>

definition track_metrics :: "f64 \<Rightarrow> ('z, 'w) handler \<Rightarrow> ('z, 'w) handler" where
  "track_metrics elapsed next rq s =
     (let meth = rq_method rq;
          path = (case rq_matched rq of None \<Rightarrow> ''unmatched'' | Some m \<Rightarrow> m);
          (resp, s) = next rq s
      in (resp, s\<lparr>as_metrics := http_record meth path (answer_status resp) elapsed (as_metrics s)\<rparr>))"

text \<open>
  \<open>sv_registry\<close> holds the descriptors registered so far; a service adds its own before it serves.  (The
  process collector, registered on Linux on a best-effort basis, is left out: its names all begin
  with \<open>process_\<close>.)
\<close>

record ('r, 'w) server =
  sv_config :: httpx_config
  sv_routes :: 'r
  sv_registry :: "metric_desc list"
  sv_health :: "'w health"

definition server_new :: "('r, ('z, 'w) handler) axum \<Rightarrow> httpx_config \<Rightarrow> ('r, 'w) server" where
  "server_new A cfg = \<lparr>sv_config = cfg, sv_routes = ax_new A, sv_registry = http_metrics, sv_health = health_new\<rparr>"

definition with_routes :: "('r, ('z, 'w) handler) axum \<Rightarrow> 'r \<Rightarrow> ('r, 'w) server \<Rightarrow> ('r, 'w) server" where
  "with_routes A r sv = sv\<lparr>sv_routes := ax_merge A (sv_routes sv) r\<rparr>"

text \<open>
  The extension and trace layers do not change what a handler answers; \<open>trace\<close> stands for them.
\<close>

definition server_router ::
  "('r, ('z, 'w) handler) axum \<Rightarrow> (metric_update list \<Rightarrow> string) \<Rightarrow> f64 \<Rightarrow> (('z, 'w) handler \<Rightarrow> ('z, 'w) handler) \<Rightarrow>
   ('r, 'w) server \<Rightarrow> 'r" where
  "server_router A render elapsed trace sv =
     ax_layer A trace
       (ax_route_layer A (track_metrics elapsed)
         (ax_route A ''/metrics'' ''GET'' (metrics_handler render)
           (ax_route A ''/readyz'' ''GET'' ready_handler
             (ax_route A ''/healthz'' ''GET'' live_handler (sv_routes sv)))))"

text \<open>
  \<open>run\<close>: parsing the address, binding, opening the gate, serving until the signal closes it.
  \<open>shutdown_signal\<close> is the future given to \<open>axum::serve\<close>, here from the signal its \<open>select!\<close> saw; \<open>serve\<close> is
  the result of \<open>axum::serve\<close>, on success with the signal that began the drain.  The last component is
  the sequence of values the readiness gate takes.
\<close>

datatype ('a, 'e) run_error = InvalidAddr string 'e | BindError 'e | ServeError 'e

datatype os_signal = CtrlC | Terminate

fun shutdown_signal :: "os_signal \<Rightarrow> 'w health \<Rightarrow> 'w health" where
  "shutdown_signal CtrlC h = set_ready False h"
| "shutdown_signal Terminate h = set_ready False h"

definition server_run ::
  "(string \<Rightarrow> 'e + 'a) \<Rightarrow> ('a \<Rightarrow> 'e + unit) \<Rightarrow> ('e + os_signal) \<Rightarrow> ('r, 'w) server \<Rightarrow>
   (('a, 'e) run_error + unit) \<times> 'w health \<times> bool list" where
  "server_run parse_addr bind_addr serve sv =
     (let h = sv_health sv
      in case parse_addr (hc_addr (sv_config sv)) of
           Inl e \<Rightarrow> (Inl (InvalidAddr (hc_addr (sv_config sv)) e), h, [is_ready h])
         | Inr addr \<Rightarrow>
             (case bind_addr addr of
                Inl e \<Rightarrow> (Inl (BindError e), h, [is_ready h])
              | Inr _ \<Rightarrow>
                  (let h1 = set_ready True h
                   in case serve of
                        Inl e \<Rightarrow> (Inl (ServeError e), h1, [is_ready h, is_ready h1])
                      | Inr sig \<Rightarrow>
                          (let h2 = shutdown_signal sig h1
                           in (Inr (), h2, [is_ready h, is_ready h1, is_ready h2])))))"

section \<open>Serving\<close>

text \<open>
  One request served by the assembled router; \<open>elapsed\<close> is the reading of the stop watch for it.  \<open>None\<close>
  is a request no route matches, which \<open>axum\<close> answers itself.
\<close>

definition serve_one ::
  "('r, ('z, 'w) handler) axum \<Rightarrow> (metric_update list \<Rightarrow> string) \<Rightarrow> (('z, 'w) handler \<Rightarrow> ('z, 'w) handler) \<Rightarrow>
   ('r, 'w) server \<Rightarrow> f64 \<Rightarrow> 'z http_request_scheme \<Rightarrow> 'w app_state \<Rightarrow> (answer \<times> 'w app_state) option" where
  "serve_one X render trace sv elapsed rq s =
     (case rq_matched rq of
        None \<Rightarrow> None
      | Some p \<Rightarrow> map_option (\<lambda>h. h rq s) (ax_handler X (server_router X render elapsed trace sv) p (rq_method rq)))"

fun serve_all ::
  "('r, ('z, 'w) handler) axum \<Rightarrow> (metric_update list \<Rightarrow> string) \<Rightarrow> (('z, 'w) handler \<Rightarrow> ('z, 'w) handler) \<Rightarrow>
   ('r, 'w) server \<Rightarrow> (f64 \<times> 'z http_request_scheme) list \<Rightarrow> 'w app_state \<Rightarrow> (answer list \<times> 'w app_state) option" where
  "serve_all X render trace sv [] s = Some ([], s)"
| "serve_all X render trace sv ((elapsed, rq) # rqs) s =
     (case serve_one X render trace sv elapsed rq s of
        None \<Rightarrow> None
      | Some (a, s) \<Rightarrow> map_option (apfst ((#) a)) (serve_all X render trace sv rqs s))"

section \<open>Logging\<close>

text \<open>
  The subscriber the service installs: a filter, from \<open>RUST_LOG\<close> or else the level or else \<open>info\<close>
  (\<open>valid\<close> is the filter parser), and the text or JSON layer.
\<close>

datatype log_layer = TextLayer | JsonLayer

record subscriber =
  sub_filter :: string
  sub_layer :: log_layer

definition log_subscriber :: "(string \<Rightarrow> bool) \<Rightarrow> string option \<Rightarrow> string \<Rightarrow> string \<Rightarrow> subscriber" where
  "log_subscriber valid rust_log level fmt =
     \<lparr>sub_filter =
        (case rust_log of
           Some f \<Rightarrow> if valid f then f else if valid level then level else ''info''
         | None \<Rightarrow> if valid level then level else ''info''),
      sub_layer = (if eq_ignore_ascii_case fmt ''text'' then TextLayer else JsonLayer)\<rparr>"

text \<open>\<open>try_init\<close> installs a subscriber only once per process.\<close>

definition init_tracing ::
  "(string \<Rightarrow> bool) \<Rightarrow> string option \<Rightarrow> string \<Rightarrow> string \<Rightarrow> subscriber option \<Rightarrow> subscriber option" where
  "init_tracing valid rust_log level fmt installed =
     (case installed of Some s \<Rightarrow> Some s | None \<Rightarrow> Some (log_subscriber valid rust_log level fmt))"

section \<open>Properties\<close>

text \<open>The handler a server runs for a route, before the metrics layer.\<close>

definition inner_handler ::
  "('r, ('z, 'w) handler) axum \<Rightarrow> (metric_update list \<Rightarrow> string) \<Rightarrow> ('r, 'w) server \<Rightarrow> string \<Rightarrow> string \<Rightarrow>
   ('z, 'w) handler option" where
  "inner_handler A render sv path meth =
     (if path = ''/healthz'' \<and> meth = ''GET'' then Some live_handler
      else if path = ''/readyz'' \<and> meth = ''GET'' then Some ready_handler
      else if path = ''/metrics'' \<and> meth = ''GET'' then Some (metrics_handler render)
      else ax_handler A (sv_routes sv) path meth)"

text \<open>Service routes that leave the three built-in ones free; a server with others panics when it is assembled.\<close>

definition leaves_builtin :: "('r, ('z, 'w) handler) axum \<Rightarrow> 'r \<Rightarrow> bool" where
  "leaves_builtin A r \<longleftrightarrow>
     ax_handler A r ''/healthz'' ''GET'' = None \<and> ax_handler A r ''/readyz'' ''GET'' = None \<and>
     ax_handler A r ''/metrics'' ''GET'' = None"

lemma server_router_handler:
  assumes "axum_laws A" "\<forall>h. trace h = h" "leaves_builtin A (sv_routes sv)" "meth \<noteq> ''HEAD''"
  shows "ax_handler A (server_router A render elapsed trace sv) path meth =
    map_option (track_metrics elapsed) (inner_handler A render sv path meth)"
proof -
  let ?rs = "[((''/healthz'', ''GET''), live_handler), ((''/readyz'', ''GET''), ready_handler),
    ((''/metrics'', ''GET''), metrics_handler render)]"
  have router: "server_router A render elapsed trace sv =
      ax_layer A trace (ax_route_layer A (track_metrics elapsed) (ax_routes A ?rs (sv_routes sv)))"
    by (simp add: server_router_def ax_routes_def)
  have trace: "map_option trace x = x" for x using assms(2) by (cases x) auto
  have "ax_handler A (ax_routes A ?rs (sv_routes sv)) path meth =
      route_lookup ?rs path meth (ax_handler A (sv_routes sv) path meth)"
    using assms(3) by (intro ax_routes_handler [OF assms(1,4)]) (simp_all add: leaves_builtin_def)
  then show ?thesis
    by (simp only: router axum_lawsD(3,4) [OF assms(1)] trace inner_handler_def route_lookup.simps)
qed

lemma serve_one_eq:
  assumes "axum_laws X" "\<forall>h. trace h = h" "leaves_builtin X (sv_routes sv)" "rq_method rq \<noteq> ''HEAD''"
    and "rq_matched rq = Some p"
  shows "serve_one X render trace sv elapsed rq s =
    map_option (\<lambda>h. track_metrics elapsed h rq s) (inner_handler X render sv p (rq_method rq))"
  using server_router_handler [OF assms(1-4)]
  by (simp add: serve_one_def assms(5) option.map_comp comp_def)

lemma track_metrics_facts:
  "fst (track_metrics e h rq s) = fst (h rq s)"
  "as_world (snd (track_metrics e h rq s)) = as_world (snd (h rq s))"
  "counter_total ''http_requests_total'' (as_metrics (snd (track_metrics e h rq s))) =
     Suc (counter_total ''http_requests_total'' (as_metrics (snd (h rq s))))"
  by (simp_all add: track_metrics_def http_record_def Let_def split_beta)

text \<open>
  Every request (other than \<open>HEAD\<close>) to a route of the assembled server, the service's own and the three built-in ones
  alike, is answered by the route's handler and counted exactly once on top of what that handler
  records, under the route template and the status it was answered with; the updates conform to the
  registered metrics.
\<close>

theorem requests_counted_once:
  assumes "axum_laws A" "\<forall>h. trace h = h" "leaves_builtin A (sv_routes sv)" "meth \<noteq> ''HEAD''"
    and "ax_handler A (server_router A render elapsed trace sv) path meth = Some f"
    and "rq_matched rq = Some path" "rq_method rq = meth"
  shows "\<exists>h. inner_handler A render sv path meth = Some h \<and> fst (f rq s) = fst (h rq s) \<and>
    as_metrics (snd (f rq s)) = as_metrics (snd (h rq s)) @
      [Inc ''http_requests_total'' [meth, path, dec_string (unat (answer_status (fst (h rq s))))],
       Observe ''http_request_duration_seconds''
         [meth, path, dec_string (unat (answer_status (fst (h rq s))))] elapsed] \<and>
    conform_all http_metrics
      (drop (length (as_metrics (snd (h rq s)))) (as_metrics (snd (f rq s))))"
proof -
  obtain h where h: "inner_handler A render sv path meth = Some h" "f = track_metrics elapsed h"
    using assms(5) server_router_handler [OF assms(1-4)] by (auto simp: map_option_eq_Some)
  obtain a s' where a: "h rq s = (a, s')" by fastforce
  have f: "f rq s = (a, s'\<lparr>as_metrics := http_record meth path (answer_status a) elapsed (as_metrics s')\<rparr>)"
    using assms(6,7) by (simp add: h track_metrics_def a Let_def)
  show ?thesis
    using h(1) by (simp add: f a http_record_def Let_def conforms_def http_metrics_def)
qed

text \<open>A server without service routes, for examples.\<close>

definition bare_server :: "(string \<Rightarrow> string \<Rightarrow> (unit, unit) handler option, unit) server" where
  "bare_server = server_new table_axum
     \<lparr>hc_addr = httpx_default_addr, hc_shutdown_timeout_secs = default_shutdown_secs,
      hc_log_level = default_log_level, hc_log_format = default_log_format\<rparr>"

theorem requests_counted_once_witness:
  "\<exists>f. ax_handler table_axum (server_router table_axum (\<lambda>us. []) (Fin 0) (\<lambda>h. h) bare_server) ''/healthz'' ''GET'' = Some f \<and>
     as_metrics (snd (f \<lparr>rq_method = ''GET'', rq_matched = Some ''/healthz'', rq_headers = []\<rparr>
       \<lparr>as_metrics = [], as_health = health_new, as_world = ()\<rparr>)) =
     [Inc ''http_requests_total'' [''GET'', ''/healthz'', ''200''],
      Observe ''http_request_duration_seconds'' [''GET'', ''/healthz'', ''200''] (Fin 0)]"
proof -
  let ?rq = "\<lparr>rq_method = ''GET'', rq_matched = Some ''/healthz'', rq_headers = []\<rparr>"
  let ?s = "\<lparr>as_metrics = [], as_health = health_new, as_world = ()\<rparr>"
  have bare: "leaves_builtin table_axum (sv_routes bare_server)"
    by (simp add: leaves_builtin_def bare_server_def server_new_def table_axum_def)
  have h: "inner_handler table_axum (\<lambda>us. []) bare_server ''/healthz'' ''GET'' = Some live_handler"
    by (simp add: inner_handler_def)
  have f: "ax_handler table_axum (server_router table_axum (\<lambda>us. []) (Fin 0) (\<lambda>h. h) bare_server)
      ''/healthz'' ''GET'' = Some (track_metrics (Fin 0) live_handler)"
    by (subst server_router_handler [OF table_axum_laws _ bare]) (simp_all add: h)
  have "dec_string 200 = ''200''" by code_simp
  then show ?thesis
    using f h requests_counted_once [OF table_axum_laws _ bare _ f, of ?rq ?s]
    by (auto simp: live_handler_def live_def)
qed

lemma shutdown_signal_eq: "shutdown_signal sig h = set_ready False h"
  by (cases sig) simp_all

text \<open>
  The readiness gate: it is closed before the server listens (so no failure to start ever reports
  ready), open only between listening and the shutdown signal, and closed when \<open>run\<close> returns
  successfully; the registered checks are untouched.
\<close>

lemma server_run_gate:
  assumes "server_run parse_addr bind_addr serve (with_routes A r (server_new A cfg)) = (result, h, gates)"
  shows "gates = [False] \<and> (\<exists>e. result = Inl e) \<or>
    gates = [False, True] \<and> (\<exists>e. result = Inl (ServeError e)) \<or>
    gates = [False, True, False] \<and> result = Inr () \<and> \<not> is_ready h"
  using assms
  by (auto simp: server_run_def server_new_def with_routes_def health_new_def set_ready_def is_ready_def
      shutdown_signal_eq Let_def split: sum.splits)

end
