(* ===== verification/Tasks_Service.thy ===== *)
theory Tasks_Service
  imports Task_Store Kafka Httpx_Server
begin

text \<open>
  The handlers of the tasks service: \<open>crates/tasks/src/lib.rs\<close>.  A request threads the Valkey
  server's state and the broker's; the random id, the clock and the JSON printer of the event are
  arguments, as is the extractor's verdict on the request body.
\<close>

section \<open>Handlers\<close>

record create_task =
  ct_title :: string

record ('s, 'e, 'k) app =
  app_redis :: "('s, 'e) redis"
  app_codec :: "(task, 'e) codec"
  app_deliver :: "record_out \<Rightarrow> duration \<Rightarrow> 'k \<Rightarrow> ('e + unit) \<times> 'k"
  app_producer :: producer
  app_topic :: string
  app_to_vec :: "json \<Rightarrow> 'e + bytes"

definition now_secs :: "sys_time \<Rightarrow> u64" where
  "now_secs t = as_secs (since_epoch t)"

definition not_found :: "string \<Rightarrow> problem" where
  "not_found i =
     with_extension ''code'' (JString ''task_not_found'')
       (with_instance (''/tasks/'' @ i)
         (with_title ''Task not found''
           (with_type ''https://rust-basics/errors/task-not-found''
             (problem_new 404 (''no task with id '' @ i)))))"

definition publish_created :: "('s, 'e, 'k) app \<Rightarrow> task \<Rightarrow> 'k \<Rightarrow> 'k" where
  "publish_created A t k =
     (case app_to_vec A (event_json (event_of_task t)) of
        Inr payload \<Rightarrow> snd (publish (app_deliver A) (app_producer A) (app_topic A) (as_bytes (t_id t)) payload k)
      | Inl _ \<Rightarrow> k)"

text \<open>\<open>body\<close> is \<open>Err\<close> of the extractor as \<open>Inl\<close>; \<open>uuid\<close> the fresh id; \<open>t\<close> the clock.\<close>

definition create ::
  "('s, 'e, 'k) app \<Rightarrow> string \<Rightarrow> sys_time \<Rightarrow> 'x + create_task \<Rightarrow> 's \<Rightarrow> 'k \<Rightarrow> answer \<times> 's \<times> 'k" where
  "create A uuid t body s k =
     (case body of
        Inl _ \<Rightarrow> (ProblemAnswer (problem_new 400 ''invalid JSON body''), s, k)
      | Inr req \<Rightarrow>
          (if ct_title req = []
           then (ProblemAnswer (with_extension ''code'' (JString ''empty_title'')
                   (problem_new 400 ''task title must not be empty'')), s, k)
           else
             (let tsk = \<lparr>t_id = uuid, t_title = ct_title req, t_done = False, t_created_at = now_secs t\<rparr>
              in case store_create (app_redis A) (app_codec A) tsk s of
                   (Inl _, s) \<Rightarrow> (ProblemAnswer (problem_new 500 ''could not persist task''), s, k)
                 | (Inr _, s) \<Rightarrow> (JsonAnswer 201 (task_json tsk), s, publish_created A tsk k))))"

definition get_one :: "('s, 'e, 'k) app \<Rightarrow> string \<Rightarrow> 's \<Rightarrow> answer \<times> 's" where
  "get_one A i s =
     (case store_get (app_redis A) (app_codec A) i s of
        (Inr (Some t), s) \<Rightarrow> (JsonAnswer 200 (task_json t), s)
      | (Inr None, s) \<Rightarrow> (ProblemAnswer (not_found i), s)
      | (Inl _, s) \<Rightarrow> (ProblemAnswer (problem_new 500 ''could not load task''), s))"

definition list_tasks :: "('s, 'e, 'k) app \<Rightarrow> 's \<Rightarrow> answer \<times> 's" where
  "list_tasks A s =
     (case store_list (app_redis A) (app_codec A) s of
        (Inr ts, s) \<Rightarrow> (JsonAnswer 200 (jobj [(''tasks'', JArray (map task_json ts))]), s)
      | (Inl _, s) \<Rightarrow> (ProblemAnswer (problem_new 500 ''could not list tasks''), s))"

definition delete_one :: "('s, 'e, 'k) app \<Rightarrow> string \<Rightarrow> 's \<Rightarrow> answer \<times> 's" where
  "delete_one A i s =
     (case store_delete (app_redis A) (app_codec A) i s of
        (Inr True, s) \<Rightarrow> (StatusAnswer 204, s)
      | (Inr False, s) \<Rightarrow> (ProblemAnswer (not_found i), s)
      | (Inl _, s) \<Rightarrow> (ProblemAnswer (problem_new 500 ''could not delete task''), s))"

section \<open>Routes\<close>

text \<open>
  What the handlers take from a request: the path parameter and the extracted body, with the random
  id and the clock reading of the call.  The world of the server is the Valkey server's state, the
  broker's, and the two health flags the background probes write.
\<close>

record 'x task_request = http_request +
  tr_id :: string
  tr_body :: "'x + create_task"
  tr_uuid :: string
  tr_clock :: sys_time

record ('s, 'k) tasks_world =
  tw_store :: 's
  tw_broker :: 'k
  tw_valkey_ok :: bool
  tw_kafka_ok :: bool

type_synonym ('x, 's, 'k) task_handler =
  "'x task_request \<Rightarrow> ('s, 'k) tasks_world app_state \<Rightarrow> answer \<times> ('s, 'k) tasks_world app_state"

definition with_store ::
  "('s \<Rightarrow> answer \<times> 's) \<Rightarrow> ('s, 'k) tasks_world app_state \<Rightarrow> answer \<times> ('s, 'k) tasks_world app_state" where
  "with_store f s =
     (let (a, st) = f (tw_store (as_world s)) in (a, s\<lparr>as_world := (as_world s)\<lparr>tw_store := st\<rparr>\<rparr>))"

definition create_handler :: "('s, 'e, 'k) app \<Rightarrow> ('x, 's, 'k) task_handler" where
  "create_handler A rq s =
     (let w = as_world s; (a, st, k) = create A (tr_uuid rq) (tr_clock rq) (tr_body rq) (tw_store w) (tw_broker w)
      in (a, s\<lparr>as_world := w\<lparr>tw_store := st, tw_broker := k\<rparr>\<rparr>))"

definition list_handler :: "('s, 'e, 'k) app \<Rightarrow> ('x, 's, 'k) task_handler" where
  "list_handler A rq s = with_store (list_tasks A) s"

definition get_one_handler :: "('s, 'e, 'k) app \<Rightarrow> ('x, 's, 'k) task_handler" where
  "get_one_handler A rq s = with_store (get_one A (tr_id rq)) s"

definition delete_one_handler :: "('s, 'e, 'k) app \<Rightarrow> ('x, 's, 'k) task_handler" where
  "delete_one_handler A rq s = with_store (delete_one A (tr_id rq)) s"

definition tasks_routes :: "('r, ('x, 's, 'k) task_handler) axum \<Rightarrow> ('s, 'e, 'k) app \<Rightarrow> 'r" where
  "tasks_routes X A =
     ax_route X ''/tasks/{id}'' ''DELETE'' (delete_one_handler A)
       (ax_route X ''/tasks/{id}'' ''GET'' (get_one_handler A)
         (ax_route X ''/tasks'' ''POST'' (create_handler A)
           (ax_route X ''/tasks'' ''GET'' (list_handler A) (ax_new X))))"

lemma tasks_routes_handlers:
  assumes "axum_laws X" "m \<noteq> ''HEAD''"
  shows "ax_handler X (tasks_routes X A) p m =
    (if p = ''/tasks'' \<and> m = ''GET'' then Some (list_handler A)
     else if p = ''/tasks'' \<and> m = ''POST'' then Some (create_handler A)
     else if p = ''/tasks/{id}'' \<and> m = ''GET'' then Some (get_one_handler A)
     else if p = ''/tasks/{id}'' \<and> m = ''DELETE'' then Some (delete_one_handler A) else None)"
proof -
  let ?rs = "[((''/tasks'', ''GET''), list_handler A), ((''/tasks'', ''POST''), create_handler A),
    ((''/tasks/{id}'', ''GET''), get_one_handler A), ((''/tasks/{id}'', ''DELETE''), delete_one_handler A)]"
  have routes: "tasks_routes X A = ax_routes X ?rs (ax_new X)" by (simp add: tasks_routes_def ax_routes_def)
  have "ax_handler X (ax_routes X ?rs (ax_new X)) p m = route_lookup ?rs p m (ax_handler X (ax_new X) p m)"
    by (intro ax_routes_handler [OF assms]) (simp_all add: axum_lawsD(1) [OF assms(1)])
  then show ?thesis by (simp only: routes route_lookup.simps axum_lawsD(1) [OF assms(1)])
qed

section \<open>The handlers on the dictionary\<close>

lemma get_one_spec:
  assumes "serves (app_redis A) kv sets" "holds_tasks (app_codec A) kv sets s m"
    and "get_one A i s = (a, s')" "answer_status a \<noteq> 500"
  shows "holds_tasks (app_codec A) kv sets s' m \<and>
    a = (case m i of Some t \<Rightarrow> JsonAnswer 200 (task_json t) | None \<Rightarrow> ProblemAnswer (not_found i))"
proof -
  obtain r s1 where g: "store_get (app_redis A) (app_codec A) i s = (r, s1)" by fastforce
  note get = get_json_spec [OF assms(1,2) g [unfolded store_get_def]]
  obtain v where "r = Inr v" using assms(3,4) g by (cases r) (auto simp: get_one_def problem_new_def)
  with get g assms(3) show ?thesis
    using holds_tasks_cong [OF assms(2)] by (auto simp: get_one_def split: option.splits)
qed

lemma delete_one_spec:
  assumes "serves (app_redis A) kv sets" "holds_tasks (app_codec A) kv sets s m"
    and "delete_one A i s = (a, s')" "answer_status a \<noteq> 500"
  shows "holds_tasks (app_codec A) kv sets s' (m(i := None)) \<and>
    a = (if m i = None then ProblemAnswer (not_found i) else StatusAnswer 204)"
proof -
  obtain r s1 where d: "store_delete (app_redis A) (app_codec A) i s = (r, s1)" by fastforce
  obtain b where b: "r = Inr b" using assms(3,4) d by (cases r) (auto simp: delete_one_def problem_new_def)
  have "s' = s1" "a = (if b then StatusAnswer 204 else ProblemAnswer (not_found i))"
    using assms(3) d b by (auto simp: delete_one_def split: if_splits bool.splits)
  with delete_spec [OF assms(1,2) d [unfolded b]] show ?thesis by simp
qed

section \<open>Properties\<close>

text \<open>
  C23 What a \<open>POST\<close> commits to: 201 exactly when the body parsed, the title is not empty and the store
  accepted the task; 400 leaves the store and the broker untouched, and 500 publishes nothing.  On
  201 the answer is the stored task, one event is handed to the broker for it at most, and the
  answer is the same whether or not the broker took it.
\<close>

theorem create_outcomes:
  assumes "create A uuid t body s k = (ans, s', k')"
  shows "(answer_status ans = 201 \<and>
      (\<exists>req. body = Inr req \<and> ct_title req \<noteq> [] \<and>
        (let tsk = \<lparr>t_id = uuid, t_title = ct_title req, t_done = False, t_created_at = now_secs t\<rparr>
         in store_create (app_redis A) (app_codec A) tsk s = (Inr (), s') \<and>
            ans = JsonAnswer 201 (task_json tsk) \<and>
            (k' = k \<or> (\<exists>payload. app_to_vec A (event_json (event_of_task tsk)) = Inr payload \<and>
              k' = snd (app_deliver A
                \<lparr>rec_topic = (if app_topic A = [] then pr_default_topic (app_producer A) else app_topic A),
                 rec_key = as_bytes uuid, rec_payload = payload\<rparr> (duration_from_secs 5) k))) \<and>
            fst (create (A\<lparr>app_deliver := other\<rparr>) uuid t body s k) = ans))) \<or>
    (answer_status ans = 400 \<and> s' = s \<and> k' = k \<and> (\<nexists>req. body = Inr req \<and> ct_title req \<noteq> [])) \<or>
    (answer_status ans = 500 \<and> k' = k \<and>
      (\<exists>req e. body = Inr req \<and> ct_title req \<noteq> [] \<and>
        store_create (app_redis A) (app_codec A)
          \<lparr>t_id = uuid, t_title = ct_title req, t_done = False, t_created_at = now_secs t\<rparr> s = (Inl e, s')))"
proof (cases body)
  case (Inl x)
  with assms show ?thesis by (auto simp: create_def problem_new_def)
next
  case (Inr req)
  let ?t = "\<lparr>t_id = uuid, t_title = ct_title req, t_done = False, t_created_at = now_secs t\<rparr>"
  show ?thesis
  proof (cases "ct_title req = []")
    case True
    with Inr assms show ?thesis by (auto simp: create_def with_extension_def problem_new_def)
  next
    case False
    obtain r s1 where st: "store_create (app_redis A) (app_codec A) ?t s = (r, s1)" by fastforce
    show ?thesis
    proof (cases r)
      case (Inl e)
      with Inr False st assms show ?thesis by (auto simp: create_def Let_def problem_new_def)
    next
      case ok: (Inr u)
      have pub: "publish_created A ?t k = k \<or> (\<exists>payload. app_to_vec A (event_json (event_of_task ?t)) = Inr payload \<and>
          publish_created A ?t k = snd (app_deliver A
            \<lparr>rec_topic = (if app_topic A = [] then pr_default_topic (app_producer A) else app_topic A),
             rec_key = as_bytes uuid, rec_payload = payload\<rparr> (duration_from_secs 5) k))"
        by (cases "app_to_vec A (event_json (event_of_task ?t))")
          (auto simp: publish_created_def publish_def Let_def split_beta split: sum.split)
      from ok Inr False st assms have "ans = JsonAnswer 201 (task_json ?t)" "s' = s1" "k' = publish_created A ?t k"
        by (auto simp: create_def Let_def)
      moreover have "fst (create (A\<lparr>app_deliver := other\<rparr>) uuid t body s k) = JsonAnswer 201 (task_json ?t)"
        using ok Inr False st by (simp add: create_def Let_def)
      ultimately show ?thesis using ok Inr False st pub by (auto simp: Let_def)
    qed
  qed
qed

definition mem_app :: "(mem_server, string, record_out list) app" where
  "mem_app =
     \<lparr>app_redis = mem_redis, app_codec = toy_codec, app_deliver = (\<lambda>r d k. (Inr (), k @ [r])),
      app_producer = \<lparr>pr_default_topic = default_topic, pr_healthy = True\<rparr>, app_topic = [],
      app_to_vec = (\<lambda>j. Inr [1])\<rparr>"

theorem create_outcomes_witness:
  "\<exists>ans s'. create mem_app ''u'' 0 (Inr \<lparr>ct_title = ''milk''\<rparr> :: unit + create_task) empty_server [] = (ans, s', [
      \<lparr>rec_topic = default_topic, rec_key = as_bytes ''u'', rec_payload = [1]\<rparr>]) \<and> answer_status ans = 201"
proof -
  let ?b = "Inr \<lparr>ct_title = ''milk''\<rparr> :: unit + create_task"
  obtain ans s' k' where c: "create mem_app ''u'' 0 ?b empty_server [] = (ans, s', k')" by (metis prod_cases3)
  have k: "k' = [\<lparr>rec_topic = default_topic, rec_key = as_bytes ''u'', rec_payload = [1]\<rparr>]" "answer_status ans \<noteq> 400"
      "answer_status ans \<noteq> 500"
    using c sample_created [of "\<lparr>t_id = ''u'', t_title = ''milk'', t_done = False, t_created_at = now_secs 0\<rparr>" empty_server]
    by (auto simp: create_def mem_app_def Let_def publish_created_def publish_def)
  with create_outcomes [OF c] c show ?thesis by auto
qed

end
