(* ===== verification/Tasks_Api.thy ===== *)
theory Tasks_Api
  imports Tasks_Service
begin

text \<open>
  The tasks service as its clients see it: requests go through the router the shared server assembles
  around the service's routes, and their answers are those of a dictionary of tasks.  Everything that
  reaches Valkey goes through this service; its records are not changed behind its back.
\<close>

section \<open>The specification\<close>

datatype 'x api_call =
    ListTasks
  | CreateTask string sys_time "'x + create_task"
  | GetTask string
  | DeleteTask string

definition call_of :: "'x task_request \<Rightarrow> 'x api_call option" where
  "call_of rq =
     (let p = rq_matched rq; m = rq_method rq
      in if p = Some ''/tasks'' \<and> m = ''GET'' then Some ListTasks
         else if p = Some ''/tasks'' \<and> m = ''POST'' then Some (CreateTask (tr_uuid rq) (tr_clock rq) (tr_body rq))
         else if p = Some ''/tasks/{id}'' \<and> m = ''GET'' then Some (GetTask (tr_id rq))
         else if p = Some ''/tasks/{id}'' \<and> m = ''DELETE'' then Some (DeleteTask (tr_id rq)) else None)"

definition new_task :: "string \<Rightarrow> sys_time \<Rightarrow> create_task \<Rightarrow> task" where
  "new_task uuid t req = \<lparr>t_id = uuid, t_title = ct_title req, t_done = False, t_created_at = now_secs t\<rparr>"

text \<open>\<open>api_allows m c a m'\<close>: on the dictionary \<open>m\<close> the call may be answered by \<open>a\<close>, leaving \<open>m'\<close>.\<close>

fun api_allows :: "(string \<rightharpoonup> task) \<Rightarrow> 'x api_call \<Rightarrow> answer \<Rightarrow> (string \<rightharpoonup> task) \<Rightarrow> bool" where
  "api_allows m ListTasks a m' \<longleftrightarrow>
     m' = m \<and> (\<exists>ts. set ts = ran m \<and> distinct ts \<and> sorted_wrt (\<lambda>a b. t_created_at b \<le> t_created_at a) ts \<and>
       a = JsonAnswer 200 (jobj [(''tasks'', JArray (map task_json ts))]))"
| "api_allows m (CreateTask uuid t (Inl _)) a m' \<longleftrightarrow>
     m' = m \<and> a = ProblemAnswer (problem_new 400 ''invalid JSON body'')"
| "api_allows m (CreateTask uuid t (Inr req)) a m' \<longleftrightarrow>
     (if ct_title req = []
      then m' = m \<and> a = ProblemAnswer (with_extension ''code'' (JString ''empty_title'')
        (problem_new 400 ''task title must not be empty''))
      else m' = m(uuid \<mapsto> new_task uuid t req) \<and> a = JsonAnswer 201 (task_json (new_task uuid t req)))"
| "api_allows m (GetTask i) a m' \<longleftrightarrow>
     m' = m \<and> a = (case m i of Some t \<Rightarrow> JsonAnswer 200 (task_json t) | None \<Rightarrow> ProblemAnswer (not_found i))"
| "api_allows m (DeleteTask i) a m' \<longleftrightarrow>
     m' = m(i := None) \<and> a = (if m i = None then ProblemAnswer (not_found i) else StatusAnswer 204)"

fun api_run :: "(string \<rightharpoonup> task) \<Rightarrow> ('x api_call \<times> answer) list \<Rightarrow> (string \<rightharpoonup> task) \<Rightarrow> bool" where
  "api_run m [] m' \<longleftrightarrow> m' = m"
| "api_run m ((c, a) # cas) m' \<longleftrightarrow> (\<exists>m1. api_allows m c a m1 \<and> api_run m1 cas m')"

section \<open>The handlers meet it\<close>

fun call_handler :: "('s, 'e, 'k) app \<Rightarrow> 'x api_call \<Rightarrow> ('x, 's, 'k) task_handler" where
  "call_handler A ListTasks = list_handler A"
| "call_handler A (CreateTask uuid t body) = create_handler A"
| "call_handler A (GetTask i) = get_one_handler A"
| "call_handler A (DeleteTask i) = delete_one_handler A"

lemma call_ofE:
  assumes "call_of rq = Some c"
  obtains (ListTasks) "c = ListTasks" "rq_matched rq = Some ''/tasks''" "rq_method rq = ''GET''"
  | (CreateTask) "c = CreateTask (tr_uuid rq) (tr_clock rq) (tr_body rq)" "rq_matched rq = Some ''/tasks''"
      "rq_method rq = ''POST''"
  | (GetTask) "c = GetTask (tr_id rq)" "rq_matched rq = Some ''/tasks/{id}''" "rq_method rq = ''GET''"
  | (DeleteTask) "c = DeleteTask (tr_id rq)" "rq_matched rq = Some ''/tasks/{id}''" "rq_method rq = ''DELETE''"
  using assms unfolding call_of_def Let_def
  by (simp only: split: if_splits) (use that in \<open>simp_all only: option.inject option.distinct\<close>)

lemma list_tasks_spec:
  assumes "serves (app_redis A) kv sets" "holds_tasks (app_codec A) kv sets s m"
    and "list_tasks A s = (a, s')" "answer_status a \<noteq> 500"
  shows "holds_tasks (app_codec A) kv sets s' m \<and> api_allows m ListTasks a m"
proof -
  obtain r s1 where l: "store_list (app_redis A) (app_codec A) s = (r, s1)" by fastforce
  obtain ts where ts: "r = Inr ts" using assms(3,4) l by (cases r) (auto simp: list_tasks_def problem_new_def)
  with list_spec [OF assms(1,2) l [unfolded ts]] assms(3) l show ?thesis by (auto simp: list_tasks_def)
qed

lemma create_api_spec:
  assumes "serves (app_redis A) kv sets" "round_trips (app_codec A)" "holds_tasks (app_codec A) kv sets s m"
    and "create A uuid t body s k = (a, s', k')" "answer_status a \<noteq> 500"
  shows "\<exists>m'. holds_tasks (app_codec A) kv sets s' m' \<and> api_allows m (CreateTask uuid t body) a m'"
proof (cases body)
  case (Inl x)
  with assms(3,4) show ?thesis by (auto simp: create_def)
next
  case (Inr req)
  show ?thesis
  proof (cases "ct_title req = []")
    case True
    with Inr assms(3,4) show ?thesis by (auto simp: create_def)
  next
    case False
    obtain r s1 where st: "store_create (app_redis A) (app_codec A) (new_task uuid t req) s = (r, s1)" by fastforce
    note st' = st [unfolded new_task_def]
    have r: "r = Inr ()" using assms(4,5) Inr False st' by (cases r) (auto simp: create_def Let_def problem_new_def)
    have "a = JsonAnswer 201 (task_json (new_task uuid t req))" "s' = s1"
      using assms(4) Inr False st' [unfolded r] by (auto simp: create_def Let_def new_task_def)
    moreover have "t_id (new_task uuid t req) = uuid" by (simp add: new_task_def)
    ultimately show ?thesis using create_spec [OF assms(1-3) st [unfolded r]] Inr False by auto
  qed
qed

text \<open>The state of the store behind a server state.\<close>

abbreviation store_state :: "('s, 'k) tasks_world app_state \<Rightarrow> 's" where
  "store_state s \<equiv> tw_store (as_world s)"

lemma with_storeE:
  assumes "with_store f s = (a, s')"
  obtains st where "f (store_state s) = (a, st)" "store_state s' = st" "as_metrics s' = as_metrics s"
  using assms by (cases "f (store_state s)") (auto simp: with_store_def)

lemma handler_meets_spec:
  assumes "serves (app_redis A) kv sets" "round_trips (app_codec A)"
    and "holds_tasks (app_codec A) kv sets (store_state s) m" "call_of rq = Some c"
    and "call_handler A c rq s = (a, s')" "answer_status a \<noteq> 500"
  shows "\<exists>m'. holds_tasks (app_codec A) kv sets (store_state s') m' \<and> api_allows m c a m'"
  using assms(4)
proof (cases rule: call_ofE)
  case ListTasks
  with assms(5) have "with_store (list_tasks A) s = (a, s')" by (simp add: list_handler_def)
  then obtain st where "list_tasks A (store_state s) = (a, st)" "store_state s' = st" by (rule with_storeE)
  with list_tasks_spec [OF assms(1,3) _ assms(6)] ListTasks(1) show ?thesis by blast
next
  case CreateTask
  obtain b st k where c: "create A (tr_uuid rq) (tr_clock rq) (tr_body rq) (store_state s) (tw_broker (as_world s)) = (b, st, k)"
    by (metis prod_cases3)
  with assms(5) CreateTask(1) have "b = a" "store_state s' = st" by (auto simp: create_handler_def Let_def)
  with create_api_spec [OF assms(1-3) c] assms(6) CreateTask(1) show ?thesis by simp
next
  case GetTask
  with assms(5) have "with_store (get_one A (tr_id rq)) s = (a, s')" by (simp add: get_one_handler_def)
  then obtain st where "get_one A (tr_id rq) (store_state s) = (a, st)" "store_state s' = st" by (rule with_storeE)
  with get_one_spec [OF assms(1,3) _ assms(6)] GetTask(1) show ?thesis by auto
next
  case DeleteTask
  with assms(5) have "with_store (delete_one A (tr_id rq)) s = (a, s')" by (simp add: delete_one_handler_def)
  then obtain st where "delete_one A (tr_id rq) (store_state s) = (a, st)" "store_state s' = st" by (rule with_storeE)
  with delete_one_spec [OF assms(1,3) _ assms(6)] DeleteTask(1) show ?thesis by auto
qed

lemma not_found_status [simp]: "p_status (not_found i) = 404"
  by (simp add: not_found_def problem_new_def with_extension_def with_instance_def with_title_def with_type_def)

lemma with_store_answer [simp]: "fst (with_store f s) = fst (f (store_state s))"
  by (simp add: with_store_def split_beta Let_def)

lemma create_answer: "fst (create_handler A rq s) =
    fst (create A (tr_uuid rq) (tr_clock rq) (tr_body rq) (store_state s) (tw_broker (as_world s)))"
  by (simp add: create_handler_def Let_def split_beta)

text \<open>When Valkey answers every command, no call is answered with 500.\<close>

lemma handler_no_500:
  assumes "serves (app_redis A) kv sets" "round_trips (app_codec A)" "answers (app_redis A)"
    and "holds_tasks (app_codec A) kv sets (store_state s) m"
  shows "answer_status (fst (call_handler A c rq s)) \<noteq> 500"
proof (cases c)
  case ListTasks
  then show ?thesis
    using list_succeeds [OF assms(1,3,4)] by (auto simp: list_handler_def list_tasks_def)
next
  case (CreateTask uuid t body)
  show ?thesis
  proof (cases "tr_body rq")
    case (Inr req)
    obtain st where "store_create (app_redis A) (app_codec A) (new_task (tr_uuid rq) (tr_clock rq) req)
        (store_state s) = (Inr (), st)" using create_succeeds [OF assms(3,2)] by blast
    with CreateTask Inr show ?thesis
      by (simp add: create_answer create_def Let_def new_task_def problem_new_def with_extension_def)
  qed (simp add: CreateTask create_answer create_def problem_new_def)
next
  case (GetTask i)
  then show ?thesis
    using get_json_succeeds [OF assms(1,3,4), of "tr_id rq"]
    by (cases "m (tr_id rq)") (auto simp: get_one_handler_def get_one_def store_get_def)
next
  case (DeleteTask i)
  obtain b st where "store_delete (app_redis A) (app_codec A) (tr_id rq) (store_state s) = (Inr b, st)"
    using delete_succeeds [OF assms(1,3,4)] by blast
  then show ?thesis by (cases b) (simp_all add: DeleteTask delete_one_handler_def delete_one_def)
qed

section \<open>Through the assembled server\<close>

text \<open>The server with the service's routes.\<close>

abbreviation tasks_server ::
  "('r, ('x, 's, 'k) task_handler) axum \<Rightarrow> ('s, 'e, 'k) app \<Rightarrow> ('r, ('s, 'k) tasks_world) server \<Rightarrow>
   ('r, ('s, 'k) tasks_world) server" where
  "tasks_server X A sv \<equiv> with_routes X (tasks_routes X A) sv"

lemma tasks_server_routes:
  assumes "axum_laws X" "sv_routes sv = ax_new X"
  shows "ax_handler X (sv_routes (tasks_server X A sv)) p m = ax_handler X (tasks_routes X A) p m"
  using merge_into_new [OF assms(1)] assms(2) by (simp add: with_routes_def)

lemma tasks_leave_builtin:
  assumes "axum_laws X" "sv_routes sv = ax_new X"
  shows "leaves_builtin X (sv_routes (tasks_server X A sv))"
  unfolding leaves_builtin_def tasks_server_routes [OF assms]
  by (subst (1 2 3) tasks_routes_handlers [OF assms(1)]) simp_all

lemma tasks_inner:
  assumes "axum_laws X" "sv_routes sv = ax_new X" "call_of rq = Some c" "rq_matched rq = Some p"
  shows "inner_handler X render (tasks_server X A sv) p (rq_method rq) = Some (call_handler A c) \<and>
    rq_method rq \<noteq> ''HEAD''"
  using assms(3)
  by (cases rule: call_ofE)
    (use assms(4) in \<open>simp_all add: inner_handler_def tasks_server_routes [OF assms(1,2)]
       tasks_routes_handlers [OF assms(1)]\<close>)

lemma serve_call:
  assumes "axum_laws X" "\<forall>h. trace h = h" "sv_routes sv = ax_new X" "call_of rq = Some c"
  shows "serve_one X render trace (tasks_server X A sv) elapsed rq s =
    Some (track_metrics elapsed (call_handler A c) rq s)"
proof -
  obtain p where p: "rq_matched rq = Some p" using assms(4) by (cases rule: call_ofE) auto
  note inner = tasks_inner [OF assms(1,3,4) p, of render A]
  show ?thesis
    using serve_one_eq [OF assms(1,2) tasks_leave_builtin [OF assms(1,3), of A] _ p] inner by simp
qed

lemma call_handler_metrics [simp]: "as_metrics (snd (call_handler A c rq s)) = as_metrics s"
  by (cases c) (simp_all add: list_handler_def get_one_handler_def delete_one_handler_def create_handler_def
      with_store_def Let_def split_beta)

lemma serve_total:
  assumes "axum_laws X" "\<forall>h. trace h = h" "sv_routes sv = ax_new X"
    and "list_all2 (\<lambda>rq c. call_of (snd rq) = Some c) rqs cs"
  shows "\<exists>as s'. serve_all X render trace (tasks_server X A sv) rqs s = Some (as, s') \<and> length as = length rqs \<and>
    counter_total ''http_requests_total'' (as_metrics s') =
      counter_total ''http_requests_total'' (as_metrics s) + length rqs"
  using assms(4)
proof (induction rqs cs arbitrary: s rule: list_all2_induct)
  case (Cons erq rqs c cs)
  obtain e rq where erq: "erq = (e, rq)" by (cases erq)
  obtain a s1 where t: "track_metrics e (call_handler A c) rq s = (a, s1)" by fastforce
  have "serve_one X render trace (tasks_server X A sv) e rq s = Some (a, s1)"
    using serve_call [OF assms(1-3), where A = A and rq = rq and c = c] Cons.hyps(1) by (simp add: erq t)
  moreover have "counter_total ''http_requests_total'' (as_metrics s1) =
      Suc (counter_total ''http_requests_total'' (as_metrics s))"
    using track_metrics_facts(3) [of e "call_handler A c" rq s] by (simp add: t)
  ultimately show ?case using Cons.IH [of s1] by (auto simp: erq)
qed simp

section \<open>Properties\<close>

text \<open>One call through the server: the answer and the world of its handler, counted once.\<close>

lemma served_call:
  assumes "axum_laws X" "\<forall>h. trace h = h" "sv_routes sv = ax_new X" "call_of rq = Some c"
    and "call_handler A c rq s = (a, s1)"
  obtains s2 where "as_world s2 = as_world s1"
    "counter_total ''http_requests_total'' (as_metrics s2) = Suc (counter_total ''http_requests_total'' (as_metrics s))"
    "\<And>rqs. serve_all X render trace (tasks_server X A sv) ((e, rq) # rqs) s =
      map_option (apfst ((#) a)) (serve_all X render trace (tasks_server X A sv) rqs s2)"
proof -
  obtain s2 where s2: "track_metrics e (call_handler A c) rq s = (a, s2)" "as_world s2 = as_world s1"
    "counter_total ''http_requests_total'' (as_metrics s2) = Suc (counter_total ''http_requests_total'' (as_metrics s))"
    using track_metrics_facts [of e "call_handler A c" rq s] call_handler_metrics [of A c rq s] assms(5)
    by (cases "track_metrics e (call_handler A c) rq s") auto
  show thesis
    by (rule that [OF s2(2,3)]) (use serve_call [OF assms(1-4), of render A e s] in \<open>simp add: s2(1)\<close>)
qed

text \<open>
  C9 The tasks service is a dictionary of tasks: any sequence of calls of its four endpoints, sent through
  the assembled server, is answered in full; when none of the answers is a 500, the answers are those
  of a dictionary that starts from the tasks in the store, ends as what the store holds and is
  changed by the calls as specified; every call is counted once; and when Valkey answers every
  command there is no 500.
\<close>

theorem tasks_api_refines_dictionary:
  fixes A :: "('s, 'e, 'k) app" and sv :: "('r, ('s, 'k) tasks_world) server"
  assumes "axum_laws X" "\<forall>h. trace h = h" "sv_routes sv = ax_new X"
    and "serves (app_redis A) kv sets" "round_trips (app_codec A)"
    and "holds_tasks (app_codec A) kv sets (store_state s) m"
    and "list_all2 (\<lambda>rq c. call_of (snd rq) = Some c) rqs cs"
  shows "\<exists>as s'. serve_all X render trace (tasks_server X A sv) rqs s = Some (as, s') \<and> length as = length rqs \<and>
    counter_total ''http_requests_total'' (as_metrics s') =
      counter_total ''http_requests_total'' (as_metrics s) + length rqs \<and>
    (500 \<notin> answer_status ` set as \<longrightarrow>
      (\<exists>m'. api_run m (zip cs as) m' \<and> holds_tasks (app_codec A) kv sets (store_state s') m')) \<and>
    (answers (app_redis A) \<longrightarrow> 500 \<notin> answer_status ` set as)"
  using assms(7,6)
proof (induction rqs cs arbitrary: s m rule: list_all2_induct)
  case Nil
  then show ?case by auto
next
  case (Cons erq rqs c cs)
  obtain e rq where erq: "erq = (e, rq)" by (cases erq)
  have c: "call_of rq = Some c" using Cons.hyps(1) by (simp add: erq)
  obtain a s1 where h: "call_handler A c rq s = (a, s1)" by fastforce
  from served_call [OF assms(1-3) c h] obtain s2 where s2: "as_world s2 = as_world s1"
    "counter_total ''http_requests_total'' (as_metrics s2) = Suc (counter_total ''http_requests_total'' (as_metrics s))"
    and serve: "serve_all X render trace (tasks_server X A sv) (erq # rqs) s =
      map_option (apfst ((#) a)) (serve_all X render trace (tasks_server X A sv) rqs s2)"
    unfolding erq by metis
  have no_500: "answer_status a \<noteq> 500" if "answers (app_redis A)"
    using handler_no_500 [OF assms(4,5) that Cons.prems, of c rq] h by simp
  show ?case
  proof (cases "answer_status a = 500")
    case True
    then have "\<not> answers (app_redis A)" using no_500 by blast
    moreover obtain as s' where "serve_all X render trace (tasks_server X A sv) rqs s2 = Some (as, s')"
      "length as = length rqs" "counter_total ''http_requests_total'' (as_metrics s') =
        counter_total ''http_requests_total'' (as_metrics s2) + length rqs"
      using serve_total [OF assms(1-3) Cons.hyps(2), where A = A and s = s2] by blast
    ultimately show ?thesis using True s2(2) by (intro exI [of _ "a # as"] exI [of _ s']) (simp add: serve)
  next
    case False
    then obtain m1 where m1: "holds_tasks (app_codec A) kv sets (store_state s2) m1" "api_allows m c a m1"
      using handler_meets_spec [OF assms(4,5) Cons.prems c h] s2(1) by auto
    from Cons.IH [OF m1(1)] obtain as s' where IH: "serve_all X render trace (tasks_server X A sv) rqs s2 = Some (as, s')"
      "length as = length rqs"
      "counter_total ''http_requests_total'' (as_metrics s') =
        counter_total ''http_requests_total'' (as_metrics s2) + length rqs"
      "500 \<notin> answer_status ` set as \<longrightarrow>
        (\<exists>m'. api_run m1 (zip cs as) m' \<and> holds_tasks (app_codec A) kv sets (store_state s') m')"
      "answers (app_redis A) \<longrightarrow> 500 \<notin> answer_status ` set as" by blast
    then have "serve_all X render trace (tasks_server X A sv) (erq # rqs) s = Some (a # as, s')"
      by (simp add: serve)
    then show ?thesis using IH m1(2) False s2(2) by auto
  qed
qed

text \<open>A \<open>POST\<close> and a \<open>GET\<close> of what it created, on the in-memory store.\<close>

definition sample_task_request :: "string \<Rightarrow> string \<Rightarrow> unit task_request" where
  "sample_task_request path meth =
     \<lparr>rq_method = meth, rq_matched = Some path, rq_headers = [], tr_id = ''u'',
      tr_body = Inr \<lparr>ct_title = ''milk''\<rparr>, tr_uuid = ''u'', tr_clock = 0\<rparr>"

definition sample_state :: "(mem_server, record_out list) tasks_world app_state" where
  "sample_state =
     \<lparr>as_metrics = [], as_health = health_new,
      as_world = \<lparr>tw_store = empty_server, tw_broker = [], tw_valkey_ok = True, tw_kafka_ok = True\<rparr>\<rparr>"

definition sample_tasks_server ::
  "(string \<Rightarrow> string \<Rightarrow> (unit, mem_server, record_out list) task_handler option,
    (mem_server, record_out list) tasks_world) server" where
  "sample_tasks_server = server_new table_axum
     \<lparr>hc_addr = httpx_default_addr, hc_shutdown_timeout_secs = default_shutdown_secs,
      hc_log_level = default_log_level, hc_log_format = default_log_format\<rparr>"

theorem tasks_api_refines_dictionary_witness:
  "\<exists>s'. serve_all table_axum (\<lambda>us. []) (\<lambda>h. h) (tasks_server table_axum mem_app sample_tasks_server)
      [(Fin 0, sample_task_request ''/tasks'' ''POST''), (Fin 0, sample_task_request ''/tasks/{id}'' ''GET''),
       (Fin 0, sample_task_request ''/tasks/{id}'' ''DELETE''), (Fin 0, sample_task_request ''/tasks/{id}'' ''GET'')] sample_state =
    Some ([JsonAnswer 201 (task_json (new_task ''u'' 0 \<lparr>ct_title = ''milk''\<rparr>)),
           JsonAnswer 200 (task_json (new_task ''u'' 0 \<lparr>ct_title = ''milk''\<rparr>)),
           StatusAnswer 204, ProblemAnswer (not_found ''u'')], s')"
proof -
  let ?rqs = "[(Fin 0, sample_task_request ''/tasks'' ''POST''), (Fin 0, sample_task_request ''/tasks/{id}'' ''GET''),
       (Fin 0, sample_task_request ''/tasks/{id}'' ''DELETE''), (Fin 0, sample_task_request ''/tasks/{id}'' ''GET'')]"
  let ?cs = "[CreateTask ''u'' 0 (Inr \<lparr>ct_title = ''milk''\<rparr>), GetTask ''u'', DeleteTask ''u'', GetTask ''u''] :: unit api_call list"
  have calls: "list_all2 (\<lambda>rq c. call_of (snd rq) = Some c) ?rqs ?cs"
    by (simp add: call_of_def sample_task_request_def)
  have new: "sv_routes sample_tasks_server = ax_new table_axum" by (simp add: sample_tasks_server_def server_new_def)
  have mem: "serves (app_redis mem_app) (\<lambda>s. map_of (mem_kv s)) (\<lambda>s k. set (mem_members s k))"
    "round_trips (app_codec mem_app)" "answers (app_redis mem_app)"
    using mem_redis_serves toy_codec_round_trips mem_redis_answers by (simp_all add: mem_app_def)
  have start: "holds_tasks (app_codec mem_app) (\<lambda>s. map_of (mem_kv s)) (\<lambda>s k. set (mem_members s k))
      (store_state sample_state) Map.empty"
    using empty_server_holds by (simp add: mem_app_def sample_state_def)
  obtain as s' where r: "serve_all table_axum (\<lambda>us. []) (\<lambda>h. h) (tasks_server table_axum mem_app sample_tasks_server)
      ?rqs sample_state = Some (as, s')" "length as = length ?rqs" "\<exists>m'. api_run Map.empty (zip ?cs as) m'"
    using tasks_api_refines_dictionary [OF table_axum_laws allI [OF refl] new mem(1,2) start calls, of "\<lambda>us. []"] mem(3)
    by blast
  obtain a b c d where as: "as = [a, b, c, d]" using r(2) by (auto simp: numeral_eq_Suc length_Suc_conv)
  with r(1,3) show ?thesis by auto
qed

end
