(* ===== verification/Ratelimit.thy ===== *)
theory Ratelimit
  imports Prelude
begin

text \<open>
  The keyed rate limiter of \<open>crates/ratelimit/src/lib.rs\<close>.  The GCRA state machine is the
  \<open>governor\<close> crate's, so it is an argument: \<open>keyed_governor\<close> holds the operations the wrapper
  calls, over an arbitrary quota type and limiter state; the natural number of a check is the
  limiter's own clock.  One documented fact about it is named for the property that needs it: the budgets of
  different keys are separate.
\<close>

section \<open>The wrapper\<close>

record ('q, 'k, 's) keyed_governor =
  gov_per_second :: "u32 \<Rightarrow> 'q"
  gov_per_minute :: "u32 \<Rightarrow> 'q"
  gov_keyed :: "'q \<Rightarrow> 's"
  gov_check_key :: "nat \<Rightarrow> 'k \<Rightarrow> 's \<Rightarrow> bool \<times> 's"
  gov_until_key_ready :: "nat \<Rightarrow> 'k \<Rightarrow> 's \<Rightarrow> 's"
  gov_retain_recent :: "nat \<Rightarrow> 's \<Rightarrow> 's"

datatype rate_limited = RateLimited

text \<open>\<open>NonZeroU32::new(n.max(1)).expect(..)\<close>: \<open>None\<close> is the panic of the \<open>expect\<close>.\<close>

definition nonzero_u32_new :: "u32 \<Rightarrow> u32 option" where
  "nonzero_u32_new n = (if n = 0 then None else Some n)"

definition nonzero :: "u32 \<Rightarrow> u32 option" where
  "nonzero n = nonzero_u32_new (max n 1)"

definition with_quota :: "('q, 'k, 's) keyed_governor \<Rightarrow> 'q \<Rightarrow> 's" where
  "with_quota G q = gov_keyed G q"

definition per_second :: "('q, 'k, 's) keyed_governor \<Rightarrow> u32 \<Rightarrow> 's option" where
  "per_second G n = map_option (\<lambda>m. with_quota G (gov_per_second G m)) (nonzero n)"

definition per_minute :: "('q, 'k, 's) keyed_governor \<Rightarrow> u32 \<Rightarrow> 's option" where
  "per_minute G n = map_option (\<lambda>m. with_quota G (gov_per_minute G m)) (nonzero n)"

definition limiter_check ::
  "('q, 'k, 's) keyed_governor \<Rightarrow> nat \<Rightarrow> 'k \<Rightarrow> 's \<Rightarrow> (rate_limited + unit) \<times> 's" where
  "limiter_check G t key l =
     (let (ok, l) = gov_check_key G t key l in (if ok then Inr () else Inl RateLimited, l))"

definition until_ready :: "('q, 'k, 's) keyed_governor \<Rightarrow> nat \<Rightarrow> 'k \<Rightarrow> 's \<Rightarrow> 's" where
  "until_ready G t key l = gov_until_key_ready G t key l"

definition retain_recent :: "('q, 'k, 's) keyed_governor \<Rightarrow> nat \<Rightarrow> 's \<Rightarrow> 's" where
  "retain_recent G t l = gov_retain_recent G t l"

section \<open>Facts about the wrapper\<close>

lemma nonzero_total: "\<exists>m. nonzero n = Some m \<and> unat m = max (unat n) 1"
proof -
  have "max n 1 \<noteq> 0" by (metis max.cobounded2 word_le_0_iff zero_neq_one)
  moreover have "unat (max n 1) = max (unat n) 1"
    by (simp add: max_def word_le_nat_alt)
  ultimately show ?thesis by (simp add: nonzero_def nonzero_u32_new_def)
qed

section \<open>Sequences of checks\<close>

text \<open>The answers of a sequence of timed checks.\<close>

fun check_all :: "('q, 'k, 's) keyed_governor \<Rightarrow> (nat \<times> 'k) list \<Rightarrow> 's \<Rightarrow> (rate_limited + unit) list" where
  "check_all G [] l = []"
| "check_all G ((t, k) # ts) l =
     (let (r, l) = limiter_check G t k l in r # check_all G ts l)"

text \<open>
  \<open>separate_budgets G cell\<close>: a check reads and changes the cell of its own key only.
\<close>

definition separate_budgets :: "('q, 'k, 's) keyed_governor \<Rightarrow> ('s \<Rightarrow> 'k \<Rightarrow> 'c) \<Rightarrow> bool" where
  "separate_budgets G cell \<longleftrightarrow>
     (\<forall>t k l l'. cell l k = cell l' k \<longrightarrow>
       fst (gov_check_key G t k l) = fst (gov_check_key G t k l') \<and>
       cell (snd (gov_check_key G t k l)) k = cell (snd (gov_check_key G t k l')) k) \<and>
     (\<forall>t k l k'. k' \<noteq> k \<longrightarrow> cell (snd (gov_check_key G t k l)) k' = cell l k')"

text \<open>The answers that one key got.\<close>

definition answers_of :: "'k \<Rightarrow> (nat \<times> 'k) list \<Rightarrow> 'r list \<Rightarrow> 'r list" where
  "answers_of k ts rs = map snd (filter (\<lambda>((t, k'), r). k' = k) (zip ts rs))"

lemma limiter_check_cell:
  assumes "separate_budgets G cell" "cell l k = cell l' k"
  shows "fst (limiter_check G t k l) = fst (limiter_check G t k l') \<and>
    cell (snd (limiter_check G t k l)) k = cell (snd (limiter_check G t k l')) k"
proof -
  have "fst (gov_check_key G t k l) = fst (gov_check_key G t k l') \<and>
      cell (snd (gov_check_key G t k l)) k = cell (snd (gov_check_key G t k l')) k"
    using assms unfolding separate_budgets_def by blast
  then show ?thesis by (simp add: limiter_check_def split_beta)
qed

lemma limiter_check_other:
  "separate_budgets G cell \<Longrightarrow> k' \<noteq> k \<Longrightarrow> cell (snd (limiter_check G t k l)) k' = cell l k'"
proof -
  assume "separate_budgets G cell" "k' \<noteq> k"
  then have "cell (snd (gov_check_key G t k l)) k' = cell l k'"
    unfolding separate_budgets_def by blast
  then show ?thesis by (simp add: limiter_check_def split_beta)
qed

lemma check_all_isolated:
  assumes sep: "separate_budgets G cell" and eq: "cell l k = cell l' k"
  shows "answers_of k ts (check_all G ts l) = check_all G (filter (\<lambda>(t, k'). k' = k) ts) l'"
  using eq
proof (induction ts arbitrary: l l')
  case Nil
  then show ?case by (simp add: answers_of_def)
next
  case (Cons tk ts)
  obtain t k' where tk: "tk = (t, k')" by (cases tk)
  obtain r m where r: "limiter_check G t k' l = (r, m)" by fastforce
  obtain r' m' where r': "limiter_check G t k' l' = (r', m')" by fastforce
  show ?case
  proof (cases "k' = k")
    case True
    then have "r = r'" "cell m k = cell m' k"
      using limiter_check_cell [OF sep, of l k l' t] Cons.prems r r' by simp_all
    with Cons.IH [of m m'] True r r' show ?thesis by (simp add: answers_of_def tk)
  next
    case False
    then have "cell m k = cell l' k" using limiter_check_other [OF sep, of k k' t l] r Cons.prems by simp
    with Cons.IH [of m l'] False r show ?thesis by (simp add: answers_of_def tk)
  qed
qed

section \<open>Properties\<close>

text \<open>
  Building a limiter never panics, for every \<open>n\<close> (zero included): the quota handed to
  \<open>governor\<close> is \<open>max n 1\<close>, so the \<open>expect\<close> of \<open>nonzero\<close> is unreachable.
\<close>

theorem limiter_never_panics:
  "\<exists>m. unat m = max (unat n) 1 \<and>
     per_second G n = Some (with_quota G (gov_per_second G m)) \<and>
     per_minute G n = Some (with_quota G (gov_per_minute G m))"
  using nonzero_total [of n] by (auto simp: per_second_def per_minute_def)

text \<open>
  Clients do not share budgets: with a limiter whose cells are separate per key, the answers one
  key gets in any interleaving with other keys are those it would get alone.
\<close>

theorem limiter_isolates_keys:
  assumes "separate_budgets G cell"
  shows "answers_of k ts (check_all G ts l) = check_all G (filter (\<lambda>(t, k'). k' = k) ts) l"
  using check_all_isolated [OF assms refl] .

text \<open>A token bucket without refill, as a governor.\<close>

definition bucket_governor :: "(u32, string, u32 \<times> (string \<Rightarrow> nat)) keyed_governor" where
  "bucket_governor =
     \<lparr>gov_per_second = (\<lambda>n. n), gov_per_minute = (\<lambda>n. n), gov_keyed = (\<lambda>q. (q, \<lambda>k. 0)),
      gov_check_key = (\<lambda>t k (q, used). (used k < unat q, q, used(k := Suc (used k)))),
      gov_until_key_ready = (\<lambda>t k l. l), gov_retain_recent = (\<lambda>t l. l)\<rparr>"

theorem limiter_isolates_keys_witness:
  "answers_of ''alice'' [(0, ''alice''), (0, ''bob''), (0, ''alice''), (0, ''alice'')]
     (check_all bucket_governor [(0, ''alice''), (0, ''bob''), (0, ''alice''), (0, ''alice'')] (2, \<lambda>k. 0))
   = [Inr (), Inr (), Inl RateLimited]"
proof -
  have sep: "separate_budgets bucket_governor (\<lambda>(q, used) k. (q, used k))"
    by (auto simp: separate_budgets_def bucket_governor_def)
  show ?thesis unfolding limiter_isolates_keys [OF sep]
    by (simp add: limiter_check_def bucket_governor_def)
qed

end
