(* ===== verification/Secrets.thy ===== *)
theory Secrets
  imports Prelude
begin

unbundle bit_operations_syntax

text \<open>
  Sealed secrets: \<open>crates/secrets/src/lib.rs\<close>.  AES-256-GCM, base64, the random nonce and the
  file system are not part of the sources and are arguments: \<open>aead\<close> has the cipher's two
  operations on key, nonce and data, \<open>decode\<close> is base64 decoding.  A panic of an \<open>expect\<close> is
  the value \<open>None\<close> of an \<open>option\<close>; errors are \<open>secrets_error\<close> values.
\<close>

section \<open>Keys\<close>

definition NONCE_LEN :: nat where "NONCE_LEN = 12"
definition KEY_LEN :: nat where "KEY_LEN = 32"

datatype 'e secrets_error =
    Decrypt
  | Malformed string
  | KeyLength usize
  | Base64 'e
  | Io 'e

text \<open>A key is an array of \<open>KEY_LEN\<close> bytes; \<open>try_into\<close> is the only fallible way to one.\<close>

typedef sealing_key = "{k :: bytes. length k = KEY_LEN}"
  by (intro exI [of _ "replicate KEY_LEN 0"]) simp

definition key_bytes :: "sealing_key \<Rightarrow> bytes" where
  "key_bytes k = Rep_sealing_key k"

definition from_bytes :: "bytes \<Rightarrow> sealing_key" where
  "from_bytes b = Abs_sealing_key b"

lemma length_key_bytes [simp]: "length (key_bytes k) = KEY_LEN"
  using Rep_sealing_key [of k] by (simp add: key_bytes_def)

lemma key_bytes_from_bytes [simp]: "length b = KEY_LEN \<Longrightarrow> key_bytes (from_bytes b) = b"
  by (simp add: key_bytes_def from_bytes_def Abs_sealing_key_inverse)

lemma from_bytes_key_bytes [simp]: "from_bytes (key_bytes k) = k"
  by (simp add: key_bytes_def from_bytes_def Rep_sealing_key_inverse)

lemma key_bytes_inject: "key_bytes k = key_bytes k' \<longleftrightarrow> k = k'"
  by (simp add: key_bytes_def Rep_sealing_key_inject)

definition from_base64 :: "(string \<Rightarrow> 'e + bytes) \<Rightarrow> string \<Rightarrow> 'e secrets_error + sealing_key" where
  "from_base64 decode s =
     (case decode (trim s) of
        Inl e \<Rightarrow> Inl (Base64 e)
      | Inr b \<Rightarrow>
          (let len = length b
           in if len = KEY_LEN then Inr (from_bytes b) else Inl (KeyLength (of_nat len))))"

definition from_file ::
  "(string \<Rightarrow> 'e + bytes) \<Rightarrow> (string \<Rightarrow> 'e + string) \<Rightarrow> string \<Rightarrow> 'e secrets_error + sealing_key" where
  "from_file decode read path =
     (case read path of Inl e \<Rightarrow> Inl (Io e) | Inr contents \<Rightarrow> from_base64 decode contents)"

section \<open>Sealing and opening\<close>

record aead =
  encrypt :: "bytes \<Rightarrow> bytes \<Rightarrow> bytes \<Rightarrow> bytes option"
  decrypt :: "bytes \<Rightarrow> bytes \<Rightarrow> bytes \<Rightarrow> bytes option"

text \<open>\<open>nonce\<close> is the value of \<open>rand::random()\<close>, twelve bytes by its type.\<close>

definition seal :: "aead \<Rightarrow> bytes \<Rightarrow> sealing_key \<Rightarrow> bytes \<Rightarrow> bytes option" where
  "seal A nonce key plaintext =
     (case encrypt A (key_bytes key) nonce plaintext of
        None \<Rightarrow> None
      | Some ciphertext \<Rightarrow> Some (nonce @ ciphertext))"

definition open_sealed :: "aead \<Rightarrow> sealing_key \<Rightarrow> bytes \<Rightarrow> 'e secrets_error + bytes" where
  "open_sealed A key sealed =
     (if length sealed < NONCE_LEN then Inl (Malformed ''shorter than nonce'')
      else
        (let nonce = take NONCE_LEN sealed; ciphertext = drop NONCE_LEN sealed
         in if length nonce \<noteq> NONCE_LEN then Inl (Malformed ''nonce length'')
            else case decrypt A (key_bytes key) nonce ciphertext of
                   None \<Rightarrow> Inl Decrypt
                 | Some plaintext \<Rightarrow> Inr plaintext))"

section \<open>Constant-time comparison\<close>

definition constant_time_eq :: "bytes \<Rightarrow> bytes \<Rightarrow> bool" where
  "constant_time_eq a b =
     (if length a \<noteq> length b then False
      else fold (\<lambda>(x, y) diff. diff OR (x XOR y)) (zip a b) (0 :: u8) = 0)"

text \<open>The accumulator is zero at the end exactly when it was and no pair differs.\<close>

lemma diff_fold_zero:
  "fold (\<lambda>(x, y) diff. diff OR (x XOR y)) ps (d :: u8) = 0 \<longleftrightarrow> d = 0 \<and> (\<forall>(x, y) \<in> set ps. x = y)"
proof (induction ps arbitrary: d)
  case (Cons p ps)
  obtain x y where p: "p = (x, y)" by (cases p)
  have "d OR (x XOR y) = 0 \<longleftrightarrow> d = 0 \<and> x = y"
    by (auto simp: bit_eq_iff bit_simps)
  with Cons.IH [of "d OR (x XOR y)"] show ?case by (auto simp: p)
qed simp

lemma constant_time_eq_iff: "constant_time_eq a b \<longleftrightarrow> a = b"
proof (cases "length a = length b")
  case True
  then have "(\<forall>(x, y) \<in> set (zip a b). x = y) \<longleftrightarrow> a = b"
    by (auto simp: set_zip list_eq_iff_nth_eq)
  with True show ?thesis by (simp add: constant_time_eq_def diff_fold_zero)
qed (auto simp: constant_time_eq_def)

section \<open>Properties\<close>

text \<open>
  The laws of the cipher that the properties rest on.  \<open>decrypts_own\<close>: decryption undoes
  encryption under the same key and nonce.  \<open>tidy\<close>: it succeeds on nothing else, because
  the authentication tag is a function of key, nonce and data.
\<close>

definition decrypts_own :: "aead \<Rightarrow> bool" where
  "decrypts_own A \<longleftrightarrow> (\<forall>k n p c. encrypt A k n p = Some c \<longrightarrow> decrypt A k n c = Some p)"

definition tidy :: "aead \<Rightarrow> bool" where
  "tidy A \<longleftrightarrow> (\<forall>k n p c. decrypt A k n c = Some p \<longrightarrow> encrypt A k n p = Some c)"

text \<open>
  C29 \<open>open\<close> accepts exactly what \<open>seal\<close> can produce: it returns a plaintext if and only if the blob is
  the sealing of that plaintext under the same key with some nonce.  So sealing round-trips, and a
  blob that was tampered with or sealed under another key is refused (unless that key would have
  produced the same blob); a blob shorter than a nonce is \<open>Malformed\<close>, every other refusal is
  \<open>Decrypt\<close>, and the second length check never fires.
\<close>

theorem open_iff_seal:
  assumes "decrypts_own A" "tidy A"
  shows "(open_sealed A key sealed = Inr plaintext) =
      (\<exists>nonce. length nonce = NONCE_LEN \<and> seal A nonce key plaintext = Some sealed) \<and>
    (open_sealed A key sealed = Inl e) =
      (e = (if length sealed < NONCE_LEN then Malformed ''shorter than nonce'' else Decrypt) \<and>
       (\<nexists>nonce p. length nonce = NONCE_LEN \<and> seal A nonce key p = Some sealed))"
proof -
  have sealed: "(\<exists>nonce. length nonce = NONCE_LEN \<and> seal A nonce key p = Some sealed) \<longleftrightarrow>
      NONCE_LEN \<le> length sealed \<and>
      decrypt A (key_bytes key) (take NONCE_LEN sealed) (drop NONCE_LEN sealed) = Some p" for p
  proof
    assume "\<exists>nonce. length nonce = NONCE_LEN \<and> seal A nonce key p = Some sealed"
    then show "NONCE_LEN \<le> length sealed \<and>
        decrypt A (key_bytes key) (take NONCE_LEN sealed) (drop NONCE_LEN sealed) = Some p"
      using assms(1) by (auto simp: seal_def decrypts_own_def split: option.splits)
  next
    assume "NONCE_LEN \<le> length sealed \<and>
        decrypt A (key_bytes key) (take NONCE_LEN sealed) (drop NONCE_LEN sealed) = Some p"
    then show "\<exists>nonce. length nonce = NONCE_LEN \<and> seal A nonce key p = Some sealed"
      using assms(2) by (intro exI [of _ "take NONCE_LEN sealed"]) (auto simp: seal_def tidy_def)
  qed
  have opened: "open_sealed A key sealed =
      (if length sealed < NONCE_LEN then Inl (Malformed ''shorter than nonce'')
       else case decrypt A (key_bytes key) (take NONCE_LEN sealed) (drop NONCE_LEN sealed) of
         None \<Rightarrow> Inl Decrypt | Some p \<Rightarrow> Inr p)"
    by (simp add: open_sealed_def Let_def)
  have "(\<nexists>nonce p. length nonce = NONCE_LEN \<and> seal A nonce key p = Some sealed) \<longleftrightarrow>
      (\<forall>p. \<not> (\<exists>nonce. length nonce = NONCE_LEN \<and> seal A nonce key p = Some sealed))" by blast
  then show ?thesis unfolding opened sealed by (auto split: option.splits)
qed

text \<open>A cipher for examples: one tag byte, computed from key and nonce, in front of the data.\<close>

definition toy_aead :: aead where
  "toy_aead =
     \<lparr>encrypt = (\<lambda>k n p. Some (sum_list (k @ n) # p)),
      decrypt = (\<lambda>k n c. case c of [] \<Rightarrow> None | t # p \<Rightarrow> if t = sum_list (k @ n) then Some p else None)\<rparr>"

theorem open_iff_seal_witness:
  "(open_sealed toy_aead (from_bytes (replicate 32 1)) (replicate 12 2 @ [56, 1, 2]) :: unit secrets_error + bytes)
     = Inr [1, 2] \<and>
   (open_sealed toy_aead (from_bytes (replicate 32 1)) [1, 2] :: unit secrets_error + bytes)
     \<noteq> Inr []"
proof -
  have laws: "decrypts_own toy_aead" "tidy toy_aead"
    by (auto simp: decrypts_own_def tidy_def toy_aead_def split: list.splits if_splits)
  let ?key = "from_bytes (replicate 32 1)"
  have "key_bytes ?key = replicate 32 1" by (simp add: KEY_LEN_def)
  then have "seal toy_aead (replicate 12 2) ?key [1, 2] = Some (replicate 12 2 @ [56, 1, 2])"
    by (simp add: seal_def toy_aead_def numeral_eq_Suc)
  then have "\<exists>nonce. length nonce = NONCE_LEN \<and> seal toy_aead nonce ?key [1, 2] = Some (replicate 12 2 @ [56, 1, 2])"
    by (intro exI [of _ "replicate 12 2"]) (simp add: NONCE_LEN_def)
  moreover have "\<nexists>nonce. length nonce = NONCE_LEN \<and> seal toy_aead nonce ?key [] = Some [1, 2]"
    by (auto simp: seal_def toy_aead_def NONCE_LEN_def dest: arg_cong [of _ _ length])
  ultimately show ?thesis using open_iff_seal [OF laws, THEN conjunct1] by blast
qed

text \<open>
  A key file loads: if the file holds the base64 form of a key, with any ASCII white space before
  and after it (a trailing newline), and decoding undoes encoding into visible ASCII text, then
  \<open>from_file\<close> gives that key; and it gives a key only from a file that decodes to exactly its 32
  bytes.
\<close>

theorem key_file_loads:
  assumes "\<forall>b. decode (encode b) = Inr b" "\<forall>c \<in> set (encode (key_bytes key)). ascii_visible c"
    and "encode (key_bytes key) \<noteq> []"
    and "read path = Inr (p @ encode (key_bytes key) @ q)"
    and "\<forall>c \<in> set p. ascii_space c" "\<forall>c \<in> set q. ascii_space c"
  shows "from_file decode read path = Inr key \<and>
    (\<forall>path' key'. from_file decode read path' = Inr key' \<longrightarrow>
      (\<exists>s. read path' = Inr s \<and> decode (trim s) = Inr (key_bytes key')))"
proof -
  have "trim (p @ encode (key_bytes key) @ q) = encode (key_bytes key)"
    using assms(2,3,5,6) by (intro trim_visible)
  then show ?thesis
    using assms(1,4) by (auto simp: from_file_def from_base64_def Let_def split: sum.splits if_splits)
qed

text \<open>Hexadecimal text stands in for base64 in the example.\<close>

definition toy_encode :: "bytes \<Rightarrow> string" where
  "toy_encode b = concat (map (\<lambda>w. [CHR ''x'', char_of (48 + unat w div 16), char_of (48 + unat w mod 16)]) b)"

fun toy_decode :: "string \<Rightarrow> unit + bytes" where
  "toy_decode (x # h # l # s) =
     (case toy_decode s of
        Inr b \<Rightarrow> Inr (of_nat (16 * (of_char h - 48) + (of_char l - 48)) # b)
      | Inl e \<Rightarrow> Inl e)"
| "toy_decode [] = Inr []"
| "toy_decode s = Inl ()"

lemma toy_decode_encode: "toy_decode (toy_encode b) = Inr b"
proof (induction b)
  case (Cons w b)
  have w: "unat w < 256" using unsigned_less [of w] by simp
  then have "48 + unat w div 16 < 256" "48 + unat w mod 16 < 256" by simp_all
  moreover have "(of_nat (16 * (unat w div 16) + unat w mod 16) :: u8) = w" by simp
  ultimately show ?case using Cons by (simp add: toy_encode_def del: of_nat_add of_nat_mult)
qed (simp add: toy_encode_def)

theorem key_file_loads_witness:
  "from_file toy_decode (\<lambda>p. Inr (toy_encode (replicate 32 7) @ [char_of (10 :: nat)])) ''key''
     = Inr (from_bytes (replicate 32 7))"
proof -
  have k: "key_bytes (from_bytes (replicate 32 7)) = replicate 32 7" by (simp add: KEY_LEN_def)
  have "from_file toy_decode (\<lambda>p. Inr ([] @ toy_encode (key_bytes (from_bytes (replicate 32 7))) @ [char_of (10 :: nat)]))
      ''key'' = Inr (from_bytes (replicate 32 7))"
    by (rule key_file_loads [where encode = toy_encode and p = "[]" and q = "[char_of (10 :: nat)]", THEN conjunct1])
      (simp_all add: k toy_decode_encode toy_encode_def [of "replicate 32 7"] ascii_visible_def ascii_space_def)
  then show ?thesis by (simp add: k)
qed

end
