(* ===== verification/Ping.thy ===== *)
theory Ping
  imports Httpx_Server Ratelimit Secrets
begin

text \<open>
  The ping service: \<open>crates/ping/src/lib.rs\<close> and the options of \<open>main.rs\<close>.  The handlers are
  handlers of the shared server whose world is the limiter's state; a request carries the clock
  the limiter reads when it is checked.  The router is \<open>axum\<close>'s, the argument described in
  \<open>Http_Answer\<close>.
\<close>

section \<open>Options\<close>

record ping_options =
  rate_limit_rps :: u32
  api_key :: "string option"

definition ping_options_default :: ping_options where
  "ping_options_default = \<lparr>rate_limit_rps = 0, api_key = None\<rparr>"

text \<open>\<open>main\<close>: \<open>env\<close> is \<open>std::env::var(..).ok()\<close>.\<close>

definition options_from_env :: "(string \<Rightarrow> string option) \<Rightarrow> ping_options" where
  "options_from_env env =
     \<lparr>rate_limit_rps =
        (case Option.bind (env ''PING_RATE_LIMIT_RPS'') parse_u32 of Some n \<Rightarrow> n | None \<Rightarrow> 0),
      api_key =
        (case env ''PING_API_KEY'' of Some s \<Rightarrow> if s = [] then None else Some s | None \<Rightarrow> None)\<rparr>"

section \<open>Handlers\<close>

record pong_response =
  message :: string
  echo :: "string option"

definition pong_json :: "pong_response \<Rightarrow> json" where
  "pong_json r =
     jobj ((''message'', JString (message r)) #
       (case echo r of None \<Rightarrow> [] | Some e \<Rightarrow> [(''echo'', JString e)]))"

record ping_query =
  q_msg :: "string option"

definition pong :: "ping_query \<Rightarrow> answer" where
  "pong q =
     JsonAnswer 200 (pong_json
       \<lparr>message = ''pong'',
        echo = (case q_msg q of Some s \<Rightarrow> if s = [] then None else Some s | None \<Rightarrow> None)\<rparr>)"

record version_response =
  vr_service :: string
  vr_version :: string
  vr_build :: string

definition version_json :: "version_response \<Rightarrow> json" where
  "version_json r =
     jobj [(''service'', JString (vr_service r)), (''version'', JString (vr_version r)), (''build'', JString (vr_build r))]"

text \<open>The crate version and the build's \<open>GIT_SHA\<close> are compile-time values.\<close>

definition version :: "string \<Rightarrow> string option \<Rightarrow> answer" where
  "version pkg_version git_sha =
     JsonAnswer 200 (version_json
       \<lparr>vr_service = ''ping'', vr_version = pkg_version,
        vr_build = (case git_sha of Some s \<Rightarrow> s | None \<Rightarrow> ''unknown'')\<rparr>)"

definition bearer :: "header_map \<Rightarrow> string option" where
  "bearer headers =
     Option.bind (Option.bind (header_get headers ''authorization'') header_to_str)
       (strip_prefix ''Bearer '')"

definition secure :: "string \<Rightarrow> header_map \<Rightarrow> answer" where
  "secure key headers =
     (case bearer headers of
        Some tok \<Rightarrow>
          (if constant_time_eq (as_bytes tok) (as_bytes key)
           then JsonAnswer 200 (jobj [(''status'', JString ''authorized'')])
           else JsonAnswer 401 (jobj [(''status'', JString ''unauthorized'')]))
      | None \<Rightarrow> JsonAnswer 401 (jobj [(''status'', JString ''unauthorized'')]))"

definition client_key :: "header_map \<Rightarrow> string" where
  "client_key headers =
     (case Option.bind (header_get headers ''x-forwarded-for'') header_to_str of
        Some s \<Rightarrow> trim (split_first (CHR '','') s)
      | None \<Rightarrow>
          (case Option.bind (header_get headers ''x-real-ip'') header_to_str of
             Some s \<Rightarrow> s
           | None \<Rightarrow> ''global''))"

text \<open>
  \<open>rq_query\<close> is what the \<open>Query\<close> extractor makes of the query string; a query it cannot deserialise (\<open>msg\<close>
  given twice) is rejected with 400 before the handler runs.
\<close>

record ping_request = http_request +
  rq_query :: "string + ping_query"
  rq_clock :: nat

type_synonym 's ping_handler = "ping_request \<Rightarrow> 's app_state \<Rightarrow> answer \<times> 's app_state"

definition pong_handler :: "'s ping_handler" where
  "pong_handler rq s =
     (case rq_query rq of Inl rejection \<Rightarrow> (RejectionAnswer 400 rejection, s) | Inr q \<Rightarrow> (pong q, s))"

definition version_handler :: "string \<Rightarrow> string option \<Rightarrow> 's ping_handler" where
  "version_handler pkg_version git_sha rq s = (version pkg_version git_sha, s)"

definition secure_handler :: "string \<Rightarrow> 's ping_handler" where
  "secure_handler key rq s = (secure key (rq_headers rq), s)"

definition too_many_requests :: answer where
  "too_many_requests = JsonAnswer 429 (jobj [(''error'', JString ''rate limited'')])"

definition rate_limit :: "('q, string, 's) keyed_governor \<Rightarrow> 's ping_handler \<Rightarrow> 's ping_handler" where
  "rate_limit G next rq s =
     (let key = client_key (rq_headers rq);
          (r, l) = limiter_check G (rq_clock rq) key (as_world s);
          s = s\<lparr>as_world := l\<rparr>
      in case r of Inl _ \<Rightarrow> (too_many_requests, s) | Inr _ \<Rightarrow> next rq s)"

section \<open>Routes\<close>

text \<open>
  The limiter's initial state is created with the routes; a panic of its construction is \<open>None\<close>.
  The extension layer that carries the key is what gives \<open>secure\<close> its argument.
\<close>

definition base_routes ::
  "('r, 's ping_handler) axum \<Rightarrow> string \<Rightarrow> string option \<Rightarrow> 'r" where
  "base_routes A pkg_version git_sha =
     ax_route A ''/version'' ''GET'' (version_handler pkg_version git_sha)
       (ax_route A ''/ping'' ''GET'' pong_handler (ax_new A))"

definition ping_routes ::
  "('r, 's ping_handler) axum \<Rightarrow> ('q, string, 's) keyed_governor \<Rightarrow> string \<Rightarrow> string option \<Rightarrow>
   ping_options \<Rightarrow> ('r \<times> 's option) option" where
  "ping_routes A G pkg_version git_sha opts =
     (let router = base_routes A pkg_version git_sha;
          router =
            (case api_key opts of
               Some key \<Rightarrow>
                 ax_layer A (\<lambda>h. h) (ax_route A ''/secure'' ''GET'' (secure_handler key) router)
             | None \<Rightarrow> router)
      in if rate_limit_rps opts > 0
         then (case per_second G (rate_limit_rps opts) of
                 None \<Rightarrow> None
               | Some l \<Rightarrow> Some (ax_route_layer A (rate_limit G) router, Some l))
         else Some (router, None))"

section \<open>Facts about the handlers\<close>

lemma header_to_str_Some: "header_to_str v = Some w \<longleftrightarrow> w = v \<and> header_to_str v \<noteq> None"
  by (auto simp: header_to_str_def)

lemma bearer_iff:
  "bearer headers = Some tok \<longleftrightarrow>
     header_get headers ''authorization'' = Some (''Bearer '' @ tok) \<and> header_to_str (''Bearer '' @ tok) \<noteq> None"
  unfolding bearer_def Option.bind_eq_Some_conv strip_prefix_iff using header_to_str_Some by metis

lemma secure_status: "answer_status (secure key headers) = (if bearer headers = Some key then 200 else 401)"
  by (auto simp: secure_def constant_time_eq_iff inj_as_bytes split: option.split)

lemma rate_limit_eq:
  "rate_limit G h rq s =
     (case limiter_check G (rq_clock rq) (client_key (rq_headers rq)) (as_world s) of
        (Inl _, l) \<Rightarrow> (too_many_requests, s\<lparr>as_world := l\<rparr>) | (Inr _, l) \<Rightarrow> h rq (s\<lparr>as_world := l\<rparr>))"
  by (simp add: rate_limit_def Let_def split_beta)

lemma per_second_total: "\<exists>l. per_second G n = Some l"
  using nonzero_total [of n] by (auto simp: per_second_def)

text \<open>The handler of a route behind the limit, if there is one.\<close>

definition limited :: "('q, string, 's) keyed_governor \<Rightarrow> ping_options \<Rightarrow> 's ping_handler \<Rightarrow> 's ping_handler" where
  "limited G opts h = (if rate_limit_rps opts > 0 then rate_limit G h else h)"

lemma base_routes_handlers:
  assumes "axum_laws A" "m \<noteq> ''HEAD''"
  shows "ax_handler A (base_routes A v sha) p m =
    (if p = ''/ping'' \<and> m = ''GET'' then Some pong_handler
     else if p = ''/version'' \<and> m = ''GET'' then Some (version_handler v sha) else None)"
proof -
  let ?rs = "[((''/ping'', ''GET''), pong_handler), ((''/version'', ''GET''), version_handler v sha)]"
  have base: "base_routes A v sha = ax_routes A ?rs (ax_new A)" by (simp add: base_routes_def ax_routes_def)
  have "ax_handler A (ax_routes A ?rs (ax_new A)) p m = route_lookup ?rs p m (ax_handler A (ax_new A) p m)"
    by (intro ax_routes_handler [OF assms]) (simp_all add: axum_lawsD(1) [OF assms(1)])
  then show ?thesis by (simp only: base route_lookup.simps axum_lawsD(1) [OF assms(1)])
qed

lemma ping_routes_handlers:
  assumes "axum_laws A" "per_second G (rate_limit_rps opts) = Some l0"
  shows "\<exists>r. ping_routes A G v sha opts = Some (r, if rate_limit_rps opts > 0 then Some l0 else None) \<and>
    (\<forall>p m. m \<noteq> ''HEAD'' \<longrightarrow> ax_handler A r p m = map_option (limited G opts)
      (if p = ''/secure'' \<and> m = ''GET'' then map_option secure_handler (api_key opts)
       else if p = ''/ping'' \<and> m = ''GET'' then Some pong_handler
       else if p = ''/version'' \<and> m = ''GET'' then Some (version_handler v sha) else None))"
proof -
  let ?base = "base_routes A v sha"
  define r where "r = (case api_key opts of
      Some key \<Rightarrow> ax_layer A (\<lambda>h. h) (ax_route A ''/secure'' ''GET'' (secure_handler key) ?base)
    | None \<Rightarrow> ?base)"
  note base = base_routes_handlers [OF assms(1), where v = v and sha = sha]
  have free: "ax_handler A ?base ''/secure'' ''GET'' = None" by (subst base) simp_all
  note route = axum_lawsD(2) [OF assms(1) free]
  have sec: "ax_handler A r p m =
      (if p = ''/secure'' \<and> m = ''GET'' then map_option secure_handler (api_key opts) else ax_handler A ?base p m)"
    if "m \<noteq> ''HEAD''" for p m
    using free route [OF that] by (cases "api_key opts") (simp_all add: r_def axum_lawsD(4) [OF assms(1)] option.map_ident)
  have r: "ax_handler A r p m =
      (if p = ''/secure'' \<and> m = ''GET'' then map_option secure_handler (api_key opts)
       else if p = ''/ping'' \<and> m = ''GET'' then Some pong_handler
       else if p = ''/version'' \<and> m = ''GET'' then Some (version_handler v sha) else None)"
    if "m \<noteq> ''HEAD''" for p m
    unfolding sec [OF that] base [OF that] by (rule refl)
  show ?thesis
  proof (cases "rate_limit_rps opts > 0")
    case True
    then have "ping_routes A G v sha opts = Some (ax_route_layer A (rate_limit G) r, Some l0)"
      using assms(2) by (simp add: ping_routes_def r_def Let_def)
    then show ?thesis using True r by (simp add: axum_lawsD(3) [OF assms(1)] limited_def [abs_def])
  next
    case False
    then have "ping_routes A G v sha opts = Some (r, None)" by (simp add: ping_routes_def r_def Let_def)
    then show ?thesis using False r by (auto simp: limited_def [abs_def] option.map_ident)
  qed
qed

section \<open>Properties\<close>

text \<open>
  C31 The bearer gate: \<open>/secure\<close> answers 200 exactly when the first \<open>Authorization\<close> value is visible
  text and equals \<open>Bearer \<close> followed by the configured key, byte for byte, and 401 in every other
  case; the constant-time comparison decides exactly equality.
\<close>

theorem secure_iff:
  "answer_status (secure key headers) =
     (if header_get headers ''authorization'' = Some (''Bearer '' @ key) \<and> header_to_str (''Bearer '' @ key) \<noteq> None
      then 200 else 401) \<and>
   constant_time_eq a b = (a = b)"
  by (simp add: secure_status bearer_iff constant_time_eq_iff)

end
