(* ===== verification/Consumer_Worker.thy ===== *)
theory Consumer_Worker
  imports Tasks_Service Metric_Log
begin

text \<open>
  The consumer worker: \<open>crates/consumer/src/lib.rs\<close>.  Parsing bytes to JSON is an argument; the
  derived deserialiser of the worker's event copy is modelled on the JSON value: from an object the
  \<open>id\<close> member must be a string, \<open>title\<close> defaults to the empty string, other members are ignored,
  and from an array the fields are taken by position.
\<close>

section \<open>The worker\<close>

record consumed_event =
  ce_id :: string
  ce_title :: string

definition event_de :: "json \<Rightarrow> consumed_event option" where
  "event_de j =
     (case j of
        JObject m \<Rightarrow>
          (case (btree_get m ''id'', btree_get m ''title'') of
             (Some (JString i), None) \<Rightarrow> Some \<lparr>ce_id = i, ce_title = []\<rparr>
           | (Some (JString i), Some (JString t)) \<Rightarrow> Some \<lparr>ce_id = i, ce_title = t\<rparr>
           | _ \<Rightarrow> None)
      | JArray [JString i] \<Rightarrow> Some \<lparr>ce_id = i, ce_title = []\<rparr>
      | JArray [JString i, JString t] \<Rightarrow> Some \<lparr>ce_id = i, ce_title = t\<rparr>
      | _ \<Rightarrow> None)"

definition consumer_metrics :: "metric_desc list" where
  "consumer_metrics =
     [\<lparr>d_name = ''consumer_tasks_consumed_total'', d_kind = CounterKind, d_labels = []\<rparr>,
      \<lparr>d_name = ''consumer_tasks_skipped_total'', d_kind = CounterKind, d_labels = []\<rparr>]"

text \<open>\<open>Worker::new\<close>: the two registrations on the given registry; the result is the registry with both.\<close>

definition worker_new :: "'e registry_op \<Rightarrow> metric_desc list \<Rightarrow> 'e + metric_desc list" where
  "worker_new reg rs = registrations reg consumer_metrics rs"

definition worker_handler ::
  "(bytes \<Rightarrow> json option) \<Rightarrow> message \<Rightarrow> metric_update list \<Rightarrow> ('e + unit) \<times> metric_update list" where
  "worker_handler parse msg us =
     (case Option.bind (parse (msg_payload msg)) event_de of
        Some ev \<Rightarrow> (Inr (), us @ [Inc ''consumer_tasks_consumed_total'' []])
      | None \<Rightarrow> (Inr (), us @ [Inc ''consumer_tasks_skipped_total'' []]))"

definition worker_run ::
  "(bytes \<Rightarrow> json option) \<Rightarrow> (borrowed_message \<Rightarrow> 'e option) \<Rightarrow> ('p + borrowed_message) list \<Rightarrow>
   metric_update list \<Rightarrow> 'e loop_state \<times> metric_update list \<times> borrowed_message list" where
  "worker_run parse commit polls us = consumer_run (worker_handler parse) commit polls us"

section \<open>What a run counts\<close>

definition decodable :: "(bytes \<Rightarrow> json option) \<Rightarrow> borrowed_message \<Rightarrow> bool" where
  "decodable parse b \<longleftrightarrow> Option.bind (parse (msg_payload (to_message b))) event_de \<noteq> None"

definition count_of :: "(bytes \<Rightarrow> json option) \<Rightarrow> borrowed_message \<Rightarrow> metric_update" where
  "count_of parse b =
     (if decodable parse b then Inc ''consumer_tasks_consumed_total'' [] else Inc ''consumer_tasks_skipped_total'' [])"

lemma worker_handler_eq: "worker_handler parse (to_message b) us = (Inr (), us @ [count_of parse b])"
  by (auto simp: worker_handler_def count_of_def decodable_def split: option.split)

lemma worker_run_all_committed:
  assumes "\<forall>b \<in> set (polled polls). commit b = None"
  shows "worker_run parse commit polls us = (Polling, us @ map (count_of parse) (polled polls), polled polls)"
  using assms
proof (induction polls arbitrary: us)
  case Nil
  then show ?case by (simp add: worker_run_def)
next
  case (Cons p polls)
  then show ?case by (cases p) (simp_all add: worker_run_def worker_handler_eq)
qed

lemma count_of_totals:
  "counter_total ''consumer_tasks_consumed_total'' (map (count_of parse) bs) = length (filter (decodable parse) bs) \<and>
   counter_total ''consumer_tasks_skipped_total'' (map (count_of parse) bs) = length (filter (\<lambda>b. \<not> decodable parse b) bs)"
  by (induction bs) (auto simp: count_of_def)

lemma event_json_decodes: "event_de (event_json (event_of_task t)) = Some \<lparr>ce_id = t_id t, ce_title = t_title t\<rparr>"
proof -
  obtain m where m: "event_json (event_of_task t) = JObject m"
    unfolding event_json_def using jobj_wf by blast
  have "member (JObject m) ''id'' = Some (JString (t_id t))" "member (JObject m) ''title'' = Some (JString (t_title t))"
    unfolding m [symmetric] by (simp_all add: event_json_def member_jobj event_of_task_def)
  then show ?thesis by (simp add: m event_de_def)
qed

section \<open>Properties\<close>

text \<open>
  C35 A poison record does not wedge the worker: whatever the records are, as long as their commits are
  accepted the loop keeps polling, every record polled is committed, and it is counted once, as
  consumed when it decodes and as skipped otherwise.
\<close>

theorem worker_never_wedges:
  assumes "\<forall>b \<in> set (polled polls). commit b = None" "worker_run parse commit polls us = (st, us', bs)"
  shows "st = Polling \<and> bs = polled polls \<and>
    counter_total ''consumer_tasks_consumed_total'' us' =
      counter_total ''consumer_tasks_consumed_total'' us + length (filter (decodable parse) (polled polls)) \<and>
    counter_total ''consumer_tasks_skipped_total'' us' =
      counter_total ''consumer_tasks_skipped_total'' us + length (filter (\<lambda>b. \<not> decodable parse b) (polled polls))"
  using assms(2) worker_run_all_committed [OF assms(1), of parse us] count_of_totals [of parse "polled polls"]
  by auto

theorem worker_never_wedges_witness:
  "counter_total ''consumer_tasks_skipped_total'' (fst (snd (worker_run (\<lambda>b. None) (\<lambda>b. None :: unit option)
     [Inr \<lparr>bm_topic = ''t'', bm_key = None, bm_payload = None, bm_partition = 0, bm_offset = 0\<rparr>, Inl ()] []))) = 1"
proof -
  let ?polls = "[Inr \<lparr>bm_topic = ''t'', bm_key = None, bm_payload = None, bm_partition = 0, bm_offset = 0\<rparr>, Inl ()]"
  obtain st us' bs where r: "worker_run (\<lambda>b. None) (\<lambda>b. None :: unit option) ?polls [] = (st, us', bs)"
    by (metis prod_cases3)
  from worker_never_wedges [OF _ r] r show ?thesis by (simp add: decodable_def)
qed

text \<open>
  The services agree on the wire: the event the tasks service publishes for a created task, printed
  and parsed back, is decoded by the consumer to the task's id and title, so it is counted as consumed
  and never as skipped.
\<close>

theorem published_event_consumed:
  assumes "\<forall>j payload. app_to_vec A j = Inr payload \<longrightarrow> parse payload = Some j"
    and "app_to_vec A (event_json (event_of_task t)) = Inr payload"
    and "bm_payload b = Some payload"
  shows "Option.bind (parse (msg_payload (to_message b))) event_de = Some \<lparr>ce_id = t_id t, ce_title = t_title t\<rparr> \<and>
    worker_handler parse (to_message b) us = (Inr (), us @ [Inc ''consumer_tasks_consumed_total'' []])"
proof -
  have "parse (msg_payload (to_message b)) = Some (event_json (event_of_task t))"
    using assms by (simp add: to_message_def)
  then show ?thesis by (simp add: event_json_decodes worker_handler_def)
qed

theorem published_event_consumed_witness:
  "worker_handler (\<lambda>b. if b = [7] then Some (event_json (event_of_task (sample_task ''a'' 1))) else None)
     (to_message \<lparr>bm_topic = ''t'', bm_key = None, bm_payload = Some [7], bm_partition = 0, bm_offset = 0\<rparr>) []
   = (Inr () :: unit + unit, [Inc ''consumer_tasks_consumed_total'' []])"
proof -
  let ?j = "event_json (event_of_task (sample_task ''a'' 1))"
  let ?A = "mem_app\<lparr>app_to_vec := (\<lambda>j. if j = ?j then Inr [7] else Inl ''unsupported'')\<rparr>"
  let ?parse = "\<lambda>b. if b = [7] then Some ?j else None"
  let ?b = "\<lparr>bm_topic = ''t'', bm_key = None, bm_payload = Some [7], bm_partition = 0, bm_offset = 0\<rparr>"
  have "\<forall>j payload. app_to_vec ?A j = Inr payload \<longrightarrow> ?parse payload = Some j" by auto
  moreover have "app_to_vec ?A ?j = Inr [7]" by simp
  ultimately show ?thesis
    using published_event_consumed [of ?A ?parse "sample_task ''a'' 1" "[7]" ?b "[]", THEN conjunct2] by simp
qed

end
