(* ===== verification/Target_Policy.thy ===== *)
theory Target_Policy
  imports Resilient_Client
begin

text \<open>
  Sequences of sends to one target (\<open>crates/resilient-client/src/client.rs\<close>), where the
  breaker, the limiter and the retry loop act together: the configuration of a target never
  changes once its policy exists, and an outage of the target opens its circuit.
\<close>

section \<open>The configuration of a target\<close>

definition config_of :: "string \<Rightarrow> 'l http_client \<Rightarrow> outbound_target_config option" where
  "config_of k c = map_option ps_config (policies c k)"

text \<open>\<open>keeps_configs f\<close>: what other tasks do to the client does not touch configurations.\<close>

definition keeps_configs :: "('l http_client \<Rightarrow> 'l http_client) \<Rightarrow> bool" where
  "keeps_configs f \<longleftrightarrow> (\<forall>c k. config_of k c \<noteq> None \<longrightarrow> config_of k (f c) = config_of k c)"

lemma config_of_simps [simp]:
  "config_of k (emit u c) = config_of k c" "config_of k (c\<lparr>metrics := us\<rparr>) = config_of k c"
  "config_of k (c\<lparr>in_flight := n\<rparr>) = config_of k c" "config_of k (finish_in_flight c) = config_of k c"
  "config_of k (c\<lparr>policies := m\<rparr>) = map_option ps_config (m k)"
  by (simp_all add: config_of_def)

lemma policy_for_config:
  "config_of k (snd (policy_for G t key c)) =
     (if config_of k c = None \<and> k = key then Some (target_fallback key) else config_of k c)"
  by (auto simp: config_of_def policy_for_def policy_from_config_def Let_def split: option.split)

lemma policy_for_policies:
  "policies (snd (policy_for G t k c)) = (policies c)(k \<mapsto> fst (policy_for G t k c))"
  by (auto simp: policy_for_def Let_def map_upd_triv split: option.split)

lemma policy_for_config_fst:
  "Some (ps_config (fst (policy_for G t key c))) = config_of key (snd (policy_for G t key c))"
  using policy_for_stored [of G t key c] by (simp add: config_of_def)

lemma send_gates_keeps: "keeps_configs (\<lambda>c. snd (send_gates G e req c))"
proof -
  have "config_of k (snd (send_gates G e req c)) = config_of k (snd (policy_for G (env_created e) (req_target req) c))"
    for c :: "'a http_client" and k
    using policy_for_config_fst [of G "env_created e" "req_target req" c]
    by (cases rule: send_gates_cases [where G = G and e = e and req = req and c = c])
      (simp_all add: config_of_def policy_for_policies)
  then show ?thesis by (simp add: keeps_configs_def policy_for_config)
qed

lemma send_record_keeps: "keeps_configs (\<lambda>c. snd (send_record e req p0 limit outcome c))"
proof -
  have "config_of k (snd (send_record e req p0 limit outcome c)) = config_of k c" if "config_of k c \<noteq> None"
    for c :: "'a http_client" and k
  proof -
    obtain r c' where rec: "send_record e req p0 limit outcome c = (r, c')" by fastforce
    show ?thesis
    proof (rule send_record_cases [OF rec])
      fix p cb d
      assume p: "p = (case policies c (req_target req) of Some p \<Rightarrow> p | None \<Rightarrow> p0)"
        and cl: "classify (env_record e) (env_open e) (req_target req) (req_method req) limit outcome (ps_breaker p)
          (emit (Observe ''outbound_request_duration_seconds'' [req_target req, req_method req] (env_elapsed e)) c)
          = (r, cb, d)"
        and c': "c' = set_cb_state (req_target req) (cb_state_of cb)
          (put_policy (req_target req) (p\<lparr>ps_breaker := cb\<rparr>) d)"
      have "policies d = policies c" by (rule classify_client [OF cl]) (simp add: count_request_def)
      then show ?thesis using that p by (auto simp: rec c' set_cb_state_def config_of_def)
    qed
  qed
  then show ?thesis by (simp add: keeps_configs_def)
qed

lemma keeps_configs_compose: "keeps_configs f \<Longrightarrow> keeps_configs g \<Longrightarrow> keeps_configs (\<lambda>c. g (f c))"
  by (simp add: keeps_configs_def)

lemma send_keeps:
  assumes "keeps_configs (env_others e)"
  shows "keeps_configs (\<lambda>c. snd (send G e req c))"
  unfolding keeps_configs_def
proof (intro allI impI)
  fix c :: "'a http_client" and k
  assume cfg: "config_of k c \<noteq> None"
  note gates = send_gates_keeps [unfolded keeps_configs_def, rule_format, OF cfg, of G e req]
  show "config_of k (snd (send G e req c)) = config_of k c"
  proof (cases "is_shutting_down c")
    case True
    then show ?thesis by (simp add: send_def send_admit_def)
  next
    case False
    obtain a c1 where a: "send_gates G e req c = (a, c1)" by fastforce
    show ?thesis
    proof (cases a)
      case (Inl err)
      with False a gates show ?thesis by (simp add: send_def send_admit_def)
    next
      case (Inr p)
      let ?limit = "target_timeout (ps_config p) (default_timeout c1)"
      have c1: "config_of k (env_others e c1) = config_of k c"
        using assms gates a cfg by (simp add: keeps_configs_def)
      then have "config_of k (snd (send_record e req p ?limit (execute (env_transport e) req ?limit) (env_others e c1)))
          = config_of k c"
        using send_record_keeps [unfolded keeps_configs_def, rule_format] cfg by metis
      then show ?thesis using False a Inr
        by (simp add: send_def send_admit_def send_complete_def Let_def split_beta)
    qed
  qed
qed

definition quiet_retries :: "(nat \<Rightarrow> 'l retry_env) \<Rightarrow> bool" where
  "quiet_retries E \<longleftrightarrow> (\<forall>n. keeps_configs (env_others (re_send (E n))) \<and> keeps_configs (re_others (E n)))"

lemma attempt_state_keeps:
  assumes "quiet_retries E"
  shows "keeps_configs (\<lambda>c. attempt_state G E req c n)"
proof (induction n)
  case 0
  then show ?case by (simp add: keeps_configs_def)
next
  case (Suc n)
  have "keeps_configs (\<lambda>c. snd (send G (re_send (E n)) req c))" "keeps_configs (re_others (E n))"
    using assms send_keeps by (auto simp: quiet_retries_def)
  with Suc show ?case by (simp add: keeps_configs_def)
qed

lemma send_with_retry_keeps:
  assumes "quiet_retries E"
  shows "keeps_configs (\<lambda>c. snd (snd (send_with_retry G t E req c)))"
  unfolding keeps_configs_def
proof (intro allI impI)
  fix c :: "'a http_client" and k
  assume cfg: "config_of k c \<noteq> None"
  let ?c0 = "retry_start G t req c"
  obtain n where n: "snd (snd (send_with_retry G t E req c)) = snd (attempt_result G E req ?c0 n)"
    by (rule retry_outcome [of G E req t c]) (auto simp: loop_spec_def)
  have c0: "config_of k ?c0 = config_of k c" using cfg policy_for_config [of k G t "req_target req" c] by auto
  then have "config_of k (attempt_state G E req ?c0 n) = config_of k c"
    using attempt_state_keeps [OF assms] cfg by (metis keeps_configs_def)
  moreover have "keeps_configs (\<lambda>c. snd (send G (re_send (E n)) req c))"
    using assms send_keeps by (auto simp: quiet_retries_def)
  ultimately show "config_of k (snd (snd (send_with_retry G t E req c))) = config_of k c"
    unfolding n using cfg by (simp add: keeps_configs_def)
qed

section \<open>An outage\<close>

text \<open>Sends one after the other, in the order of their environments.\<close>

definition send_all ::
  "'l direct_limiter \<Rightarrow> 'l send_env list \<Rightarrow> outbound_request \<Rightarrow> 'l http_client \<Rightarrow> 'l http_client" where
  "send_all G es req c = fold (\<lambda>e c. snd (send G e req c)) es c"

text \<open>
  A send during an outage: no response arrives, no other task uses the client meanwhile, and
  the outcome is recorded within the window that began at \<open>start\<close>.
\<close>

definition no_reply :: "reply \<Rightarrow> bool" where
  "no_reply r \<longleftrightarrow> (case r of Reply resp \<Rightarrow> False | _ \<Rightarrow> True)"

definition outage_env :: "nat \<Rightarrow> nat \<Rightarrow> 'l send_env \<Rightarrow> bool" where
  "outage_env start window e \<longleftrightarrow>
     (\<forall>w d. no_reply (env_transport e w d)) \<and> (\<forall>c. env_others e c = c) \<and>
     unat (now_ms (env_record e)) - start < window"

text \<open>The limiter admits a check at each of these times, one after the other.\<close>

fun limiter_admits :: "'l direct_limiter \<Rightarrow> nat list \<Rightarrow> 'l \<Rightarrow> bool" where
  "limiter_admits G [] l \<longleftrightarrow> True"
| "limiter_admits G (t # ts) l \<longleftrightarrow> (case rl_check G t l of (ok, l) \<Rightarrow> ok \<and> limiter_admits G ts l)"

lemma limiter_admits_take: "limiter_admits G ts l \<Longrightarrow> limiter_admits G (take j ts) l"
  by (induction G ts l arbitrary: j rule: limiter_admits.induct) (auto simp: take_Cons split: nat.split prod.splits)

lemma execute_no_reply:
  assumes "\<forall>w d. no_reply (transport w d)"
  obtains x where "execute transport req limit = Inl x"
proof -
  let ?w = "\<lparr>wire_method = req_method req, wire_url = req_url req, wire_headers = req_headers req,
    wire_body = req_body req\<rparr>"
  have "no_reply (transport ?w limit)" using assms by blast
  then show thesis
    by (cases "execute transport req limit")
      (auto simp: no_reply_def execute_def Let_def split: reply.splits if_splits intro: that)
qed

text \<open>A failed send to a closed target records exactly one failure with its breaker.\<close>

lemma failed_send:
  assumes "policies c (req_target req) = Some p" "\<not> is_shutting_down c"
    and "cb_state_of (ps_breaker p) = Closed" "rl_check G (env_limiter e) (ps_limiter p) = (True, l)"
    and "\<forall>w d. no_reply (env_transport e w d)" "\<forall>c. env_others e c = c"
  shows "\<exists>p'. policies (snd (send G e req c)) (req_target req) = Some p' \<and>
    ps_breaker p' = record_failure (env_record e) (env_open e) (ps_breaker p) \<and> ps_limiter p' = l \<and>
    \<not> is_shutting_down (snd (send G e req c))"
proof -
  let ?key = "req_target req"
  have allow: "allow_request (env_allow e) (ps_breaker p) = (True, ps_breaker p)"
    using assms(3) by (simp add: allow_request_def)
  have pol: "fst (policy_for G (env_created e) ?key c) = p" using assms(1) by (simp add: policy_for_def)
  note check = assms(4)
  define q where "q = p\<lparr>ps_limiter := l\<rparr>"
  define c1 where "c1 = c\<lparr>policies := (policies c)(?key \<mapsto> q), in_flight := in_flight c + 1\<rparr>"
  have upd: "p\<lparr>ps_breaker := ps_breaker p, ps_limiter := l\<rparr> = q" by (simp add: q_def)
  have gates: "send_gates G e req c = (Inr q, c1)"
    by (cases rule: send_gates_cases [where G = G and e = e and req = req and c = c])
      (use upd in \<open>auto simp: pol allow check q_def c1_def\<close>)
  let ?limit = "target_timeout (ps_config q) (default_timeout c1)"
  obtain x where x: "execute (env_transport e) req ?limit = Inl x" using assms(5) by (rule execute_no_reply)
  obtain r c2 where rec: "send_record e req q ?limit (Inl x) c1 = (r, c2)" by fastforce
  have "policies c2 ?key = Some (q\<lparr>ps_breaker := record_failure (env_record e) (env_open e) (ps_breaker p)\<rparr>) \<and>
      \<not> is_shutting_down c2"
    using rec assms(2)
    by (cases x) (auto simp: send_record_def classify_def Let_def c1_def q_def count_request_def set_cb_state_def)
  moreover have "send G e req c = (r, finish_in_flight c2)"
    using assms(2,6) gates x rec by (simp add: send_def send_admit_def send_complete_def Let_def)
  ultimately show ?thesis by (simp add: q_def)
qed

text \<open>One such send: the failure is recorded and the breaker opens exactly when it is the last one needed.\<close>

lemma outage_send:
  assumes "policies c (req_target req) = Some p" "\<not> is_shutting_down c"
    and "cb_abs (ps_breaker p) = AClosed i i start"
    and "failure_threshold (ps_breaker p) = f64_round (fraction a b)" "0 < b" "b \<le> 2 ^ 20" "a \<le> b"
    and "rl_check G (env_limiter e) (ps_limiter p) = (True, l)"
    and "outage_env start (unat (window_duration_ms (ps_breaker p))) e"
    and "Suc i \<le> unat (min_requests (ps_breaker p))"
  obtains p' where "policies (snd (send G e req c)) (req_target req) = Some p'" "\<not> is_shutting_down (snd (send G e req c))"
    "cb_settings (ps_breaker p') = cb_settings (ps_breaker p)" "ps_limiter p' = l"
    "cb_abs (ps_breaker p') =
      (if Suc i = unat (min_requests (ps_breaker p)) then AOpen (unat (now_ms (env_open e))) else AClosed (Suc i) (Suc i) start)"
proof -
  let ?cb = "ps_breaker p" and ?c = "snd (send G e req c)"
  have counts: "cb_state_of ?cb = Closed" "cb_counts i ?cb" "unat (window_start_ms ?cb) = start"
    using assms(3) by (auto simp: cb_abs_def cb_counts_def split: cb_state.splits)
  have "unat (min_requests ?cb) < 2 ^ 32" using unsigned_less [of "min_requests ?cb"] by simp
  then have small: "Suc i < 2 ^ 32" using assms(10) by simp
  have env: "\<forall>w d. no_reply (env_transport e w d)" "\<forall>c. env_others e c = c"
    "unat (now_ms (env_record e)) - start < unat (window_duration_ms ?cb)"
    using assms(9) by (simp_all add: outage_env_def)
  obtain p1 where p1: "policies ?c (req_target req) = Some p1" "\<not> is_shutting_down ?c"
    "ps_breaker p1 = record_failure (env_record e) (env_open e) ?cb" "ps_limiter p1 = l"
    using failed_send [OF assms(1,2) counts(1) assms(8) env(1,2)] by blast
  have settings: "cb_settings (ps_breaker p1) = cb_settings ?cb"
    using cb_settings_apply [of "Failure (env_record e) (env_open e)" ?cb] by (simp add: p1)
  have "fraction a b \<le> of_nat (Suc i) / of_nat (Suc i)" using assms(5,7) by (simp add: fraction_def)
  then have "cb_abs (ps_breaker p1) =
      (if unat (min_requests ?cb) \<le> Suc i then AOpen (unat (now_ms (env_open e))) else AClosed (Suc i) (Suc i) start)"
    unfolding p1(3) using cb_abs_failure [OF counts(2) small assms(4-7)] env(3)
    by (simp add: assms(3) spec_window_def cb_policy_def)
  with p1 settings assms(10) show thesis by (intro that [of p1]) (auto split: if_splits)
qed

lemma outage_run:
  assumes "policies c (req_target req) = Some p" "\<not> is_shutting_down c"
    and "cb_abs (ps_breaker p) = AClosed i i start"
    and "failure_threshold (ps_breaker p) = f64_round (fraction a b)" "0 < b" "b \<le> 2 ^ 20" "a \<le> b"
    and "limiter_admits G (map env_limiter es) (ps_limiter p)"
    and "\<forall>e \<in> set es. outage_env start (unat (window_duration_ms (ps_breaker p))) e"
    and "i + length es \<le> unat (min_requests (ps_breaker p))"
  shows "\<exists>p'. policies (send_all G es req c) (req_target req) = Some p' \<and>
    \<not> is_shutting_down (send_all G es req c) \<and> cb_settings (ps_breaker p') = cb_settings (ps_breaker p) \<and>
    cb_abs (ps_breaker p') =
      (if es \<noteq> [] \<and> i + length es = unat (min_requests (ps_breaker p))
       then AOpen (unat (now_ms (env_open (last es)))) else AClosed (i + length es) (i + length es) start)"
  using assms(1-4,8-10)
proof (induction es arbitrary: c p i)
  case Nil
  then show ?case by (simp add: send_all_def)
next
  case (Cons e es)
  let ?c = "snd (send G e req c)"
  have "outage_env start (unat (window_duration_ms (ps_breaker p))) e" "Suc i \<le> unat (min_requests (ps_breaker p))"
    using Cons.prems(6,7) by simp_all
  moreover obtain l where l: "rl_check G (env_limiter e) (ps_limiter p) = (True, l)" "limiter_admits G (map env_limiter es) l"
    using Cons.prems(5) by auto
  ultimately obtain p1 where
    p1: "policies ?c (req_target req) = Some p1" "\<not> is_shutting_down ?c" "cb_settings (ps_breaker p1) = cb_settings (ps_breaker p)"
    "ps_limiter p1 = l" "cb_abs (ps_breaker p1) = (if Suc i = unat (min_requests (ps_breaker p))
      then AOpen (unat (now_ms (env_open e))) else AClosed (Suc i) (Suc i) start)"
    using outage_send [OF Cons.prems(1-4) assms(5-7) l(1)] by blast
  then have kept: "failure_threshold (ps_breaker p1) = failure_threshold (ps_breaker p)"
    "window_duration_ms (ps_breaker p1) = window_duration_ms (ps_breaker p)"
    "min_requests (ps_breaker p1) = min_requests (ps_breaker p)"
    by (simp_all add: cb_settings_def)
  show ?case
  proof (cases es)
    case Nil
    then show ?thesis using p1 by (auto simp: send_all_def)
  next
    case more: (Cons e' es')
    then have "cb_abs (ps_breaker p1) = AClosed (Suc i) (Suc i) start" using p1(5) Cons.prems(7) by simp
    from Cons.IH [OF p1(1,2) this] show ?thesis
      using Cons.prems(4-7) more kept p1(3,4) l(2) by (auto simp: send_all_def)
  qed
qed

text \<open>
  C2 An outage is cut off after exactly \<open>cb_min_requests\<close> requests: while a target whose window is
  empty answers nothing, the breaker stays closed for every shorter sequence of sends, opens at
  the last one, and every further send before the half-open timeout fails fast without touching the
  transport.  The sends follow one another, are recorded within one window and are admitted by the
  rate limiter; the threshold is the double nearest to a fraction \<open>a / b \<le> 1\<close> with \<open>b \<le> 2^20\<close>, such as the
  default one half.
\<close>

theorem outage_opens_circuit:
  assumes "policies c (req_target req) = Some p" "\<not> is_shutting_down c"
    and "cb_abs (ps_breaker p) = AClosed 0 0 start"
    and "failure_threshold (ps_breaker p) = f64_round (fraction a b)" "0 < b" "b \<le> 2 ^ 20" "a \<le> b"
    and "limiter_admits G (map env_limiter es) (ps_limiter p)"
    and "\<forall>e \<in> set es. outage_env start (unat (window_duration_ms (ps_breaker p))) e"
    and "length es = unat (min_requests (ps_breaker p))" "es \<noteq> []"
    and "unat (now_ms (env_allow e')) - unat (now_ms (env_open (last es))) < unat (half_open_timeout_ms (ps_breaker p))"
  shows "(\<forall>j < length es. \<exists>p'. policies (send_all G (take j es) req c) (req_target req) = Some p' \<and>
      cb_abs (ps_breaker p') = AClosed j j start) \<and>
    fst (send G e' req (send_all G es req c)) = Inl (Transient (''circuit breaker open for '' @ req_target req)) \<and>
    send G (e'\<lparr>env_transport := tr\<rparr>) req (send_all G es req c) = send G e' req (send_all G es req c)"
proof -
  have "\<exists>p'. policies (send_all G (take j es) req c) (req_target req) = Some p' \<and>
      cb_abs (ps_breaker p') = AClosed j j start" if "j < length es" for j
    using outage_run [OF assms(1-7), where es = "take j es" and G = G] limiter_admits_take [OF assms(8)] assms(9,10) that
    by (auto dest: in_set_takeD simp: take_map)
  moreover obtain p' where p': "policies (send_all G es req c) (req_target req) = Some p'"
    "\<not> is_shutting_down (send_all G es req c)" "cb_settings (ps_breaker p') = cb_settings (ps_breaker p)"
    "cb_abs (ps_breaker p') = AOpen (unat (now_ms (env_open (last es))))"
    using outage_run [OF assms(1-9)] assms(10,11) by auto
  then have "cb_state_of (ps_breaker p') = Open"
    "unat (now_ms (env_allow e')) - unat (opened_at_ms (ps_breaker p')) < unat (half_open_timeout_ms (ps_breaker p'))"
    using assms(12) by (auto simp: cb_abs_def cb_settings_def split: cb_state.splits)
  from allow_request_open [OF this] p' have
    "fst (send G e' req (send_all G es req c)) = Inl (Transient (''circuit breaker open for '' @ req_target req)) \<and>
     send G (e'\<lparr>env_transport := tr\<rparr>) req (send_all G es req c) = send G e' req (send_all G es req c)"
    by (simp add: send_def send_admit_def send_gates_def policy_for_def Let_def)
  ultimately show ?thesis by blast
qed

text \<open>A bucket of two tokens that is not refilled meanwhile: it admits the two sends and would refuse a third.\<close>

definition bucket_limiter :: "nat direct_limiter" where
  "bucket_limiter = \<lparr>rl_direct = (\<lambda>n. unat n), rl_check = (\<lambda>t l. (0 < l, l - 1))\<rparr>"

definition bucket_env :: "nat send_env" where
  "bucket_env =
     \<lparr>env_created = 0, env_allow = 0, env_limiter = 0, env_transport = (\<lambda>w t. Elapsed),
      env_others = (\<lambda>c. c), env_elapsed = Fin 0, env_record = 0, env_open = 0\<rparr>"

definition bucket_policy :: "nat policy_set" where
  "bucket_policy = \<lparr>ps_limiter = 2, ps_breaker = sample_breaker, ps_config = target_fallback ''api''\<rparr>"

definition bucket_client :: "nat http_client" where
  "bucket_client =
     \<lparr>policies = [''api'' \<mapsto> bucket_policy], default_timeout = duration_from_millis 5000, metrics = [],
      is_shutting_down = False, in_flight = 0, wakeups = 0\<rparr>"

theorem outage_opens_circuit_witness:
  "fst (send bucket_limiter bucket_env sample_request
     (send_all bucket_limiter [bucket_env, bucket_env] sample_request bucket_client))
   = Inl (Transient ''circuit breaker open for api'') \<and> \<not> limiter_admits bucket_limiter [0, 0, 0] 2"
proof
  have half: "Fin (1 / 2) = f64_round (fraction (Suc 0) 2)" using fraction_half by simp
  have "fst (send bucket_limiter bucket_env sample_request
     (send_all bucket_limiter [bucket_env, bucket_env] sample_request bucket_client))
   = Inl (Transient (''circuit breaker open for '' @ req_target sample_request))"
    by (rule outage_opens_circuit [where p = bucket_policy and start = 0 and a = 1 and b = 2, THEN conjunct2, THEN conjunct1])
      (simp_all add: bucket_limiter_def bucket_env_def bucket_policy_def bucket_client_def sample_defs sample_breaker_def
        cb_new_def cb_abs_def cb_state_of_def cb_state_from_def client_defaults half outage_env_def no_reply_def
        now_ms_def since_epoch_def as_millis_u64_def duration_from_secs_def)
  then show "fst (send bucket_limiter bucket_env sample_request
     (send_all bucket_limiter [bucket_env, bucket_env] sample_request bucket_client))
   = Inl (Transient ''circuit breaker open for api'')" by (simp add: sample_defs)
  show "\<not> limiter_admits bucket_limiter [0, 0, 0] 2" by (simp add: bucket_limiter_def)
qed

end
