(* ===== verification/Heartbeat.thy ===== *)
theory Heartbeat
  imports Target_Policy Service_Configs
begin

text \<open>
  The heartbeat worker: \<open>crates/heartbeat/src/worker.rs\<close>.  Its upstream check is a
  \<open>send_with_retry\<close> of the resilient client; the environment of every tick (clock readings, replies,
  random numbers) is an argument.  A run is modelled tick by tick; the source's loop runs until its
  task is dropped.
\<close>

section \<open>Construction\<close>

record 'l upstream =
  up_client :: "'l http_client"
  up_url :: string

record 'l worker =
  wk_interval :: duration
  wk_count :: u64
  wk_metrics :: "metric_update list"
  wk_upstream :: "'l upstream option"

definition beats_metric :: metric_desc where
  "beats_metric = \<lparr>d_name = ''heartbeat_beats_total'', d_kind = CounterKind, d_labels = []\<rparr>"

definition checks_metric :: metric_desc where
  "checks_metric =
     \<lparr>d_name = ''heartbeat_upstream_checks_total'', d_kind = CounterKind, d_labels = [''result'']\<rparr>"

definition upstream_target :: outbound_target_config where
  "upstream_target =
     outbound_target_config_default\<lparr>otc_name := ''upstream'', otc_rate_limit := 1000,
       otc_retry_max_attempts := 2, otc_retry_base_ms := 50, otc_retry_cap_ms := 500\<rparr>"

definition upstream_client_config :: client_config where
  "upstream_client_config =
     client_config_default\<lparr>cc_default_timeout_ms := 1000, cc_outbound_targets := [upstream_target]\<rparr>"

datatype worker_error = RegistryError string | ClientError outbound_error

text \<open>
  \<open>rs\<close> is the registry the worker is given, \<open>build\<close> the transport builder; the client's own metrics go
  to a registry of their own.
\<close>

definition heartbeat_new ::
  "string registry_op \<Rightarrow> metric_desc list \<Rightarrow> 'l direct_limiter \<Rightarrow> (http_builder \<Rightarrow> string option) \<Rightarrow>
   (nat \<Rightarrow> sys_time) \<Rightarrow> duration \<Rightarrow> string option \<Rightarrow> worker_error + 'l worker \<times> metric_desc list" where
  "heartbeat_new reg rs G build ts interval upstream_url =
     (case registrations reg [beats_metric] rs of
        Inl e \<Rightarrow> Inl (RegistryError e)
      | Inr rs \<Rightarrow>
          (case upstream_url of
             None \<Rightarrow> Inr (\<lparr>wk_interval = interval, wk_count = 0, wk_metrics = [], wk_upstream = None\<rparr>, rs)
           | Some url \<Rightarrow>
               (case registrations reg [checks_metric] rs of
                  Inl e \<Rightarrow> Inl (RegistryError e)
                | Inr rs \<Rightarrow>
                    (case registrations reg client_metrics [] of
                       Inl e \<Rightarrow> Inl (RegistryError e)
                     | Inr _ \<Rightarrow>
                         (case client_new G build ts upstream_client_config of
                            Inl e \<Rightarrow> Inl (ClientError e)
                          | Inr c \<Rightarrow>
                              Inr (\<lparr>wk_interval = interval, wk_count = 0, wk_metrics = [],
                                wk_upstream = Some \<lparr>up_client = c, up_url = url\<rparr>\<rparr>, rs))))))"

section \<open>Ticking\<close>

text \<open>The environment of one tick: the clock at \<open>policy_for\<close> and the environments of the attempts.\<close>

record 'l tick_env =
  te_clock :: sys_time
  te_attempts :: "nat \<Rightarrow> 'l retry_env"

definition tick :: "'l direct_limiter \<Rightarrow> 'l tick_env \<Rightarrow> 'l worker \<Rightarrow> 'l worker" where
  "tick G e w =
     (let w = w\<lparr>wk_count := wk_count w + 1, wk_metrics := wk_metrics w @ [Inc ''heartbeat_beats_total'' []]\<rparr>
      in case wk_upstream w of
           None \<Rightarrow> w
         | Some up \<Rightarrow>
             (let req = outbound_request_get ''upstream'' (up_url up);
                  (r, ds, c) = send_with_retry G (te_clock e) (te_attempts e) req (up_client up);
                  result = (case r of Inr _ \<Rightarrow> ''ok'' | Inl _ \<Rightarrow> ''err'')
              in w\<lparr>wk_metrics := wk_metrics w @ [Inc ''heartbeat_upstream_checks_total'' [result]],
                   wk_upstream := Some (up\<lparr>up_client := c\<rparr>)\<rparr>))"

text \<open>
  \<open>interval_ok\<close> is whether \<open>tokio::time::interval\<close> accepts the period; it panics on a zero one, and
  \<open>None\<close> is that panic.  The first tick, which fires at once, is consumed without a beat.
\<close>

definition heartbeat_run ::
  "(duration \<Rightarrow> bool) \<Rightarrow> 'l direct_limiter \<Rightarrow> 'l tick_env list \<Rightarrow> 'l worker \<Rightarrow> 'l worker option" where
  "heartbeat_run interval_ok G es w =
     (if interval_ok (wk_interval w) then Some (fold (tick G) es w) else None)"

section \<open>Facts about a tick\<close>

lemma tick_metrics:
  obtains us where "wk_metrics (tick G e w) = wk_metrics w @ Inc ''heartbeat_beats_total'' [] # us"
    "us = (case wk_upstream w of None \<Rightarrow> [] | Some up \<Rightarrow>
      [Inc ''heartbeat_upstream_checks_total'' [if \<exists>resp. fst (send_with_retry G (te_clock e) (te_attempts e)
        (outbound_request_get ''upstream'' (up_url up)) (up_client up)) = Inr resp then ''ok'' else ''err'']])"
    "(wk_upstream (tick G e w) = None) = (wk_upstream w = None)" "wk_count (tick G e w) = wk_count w + 1"
proof (cases "wk_upstream w")
  case None
  then show ?thesis by (intro that [of "[]"]) (simp_all add: tick_def Let_def)
next
  case (Some up)
  obtain r ds c where s: "send_with_retry G (te_clock e) (te_attempts e)
      (outbound_request_get ''upstream'' (up_url up)) (up_client up) = (r, ds, c)" by (metis prod_cases3)
  show ?thesis
    by (rule that [of "[Inc ''heartbeat_upstream_checks_total'' [case r of Inr _ \<Rightarrow> ''ok'' | Inl _ \<Rightarrow> ''err'']]"])
      (simp_all add: tick_def Let_def Some s split: sum.split)
qed

lemma run_counts:
  "counter_total ''heartbeat_beats_total'' (wk_metrics (fold (tick G) es w)) =
     counter_total ''heartbeat_beats_total'' (wk_metrics w) + length es \<and>
   counter_value ''heartbeat_upstream_checks_total'' [''ok''] (wk_metrics (fold (tick G) es w)) +
   counter_value ''heartbeat_upstream_checks_total'' [''err''] (wk_metrics (fold (tick G) es w)) =
     counter_value ''heartbeat_upstream_checks_total'' [''ok''] (wk_metrics w) +
     counter_value ''heartbeat_upstream_checks_total'' [''err''] (wk_metrics w) +
     (if wk_upstream w = None then 0 else length es) \<and>
   wk_count (fold (tick G) es w) = wk_count w + of_nat (length es)"
proof (induction es arbitrary: w)
  case (Cons e es)
  show ?case
    by (rule tick_metrics [of G e w]) (use Cons.IH [of "tick G e w"] in \<open>auto split: option.splits if_splits\<close>)
qed simp

lemma heartbeat_new_fields:
  assumes "heartbeat_new reg rs G build ts interval url = Inr (w, rs')"
  shows "wk_interval w = interval" "wk_count w = 0" "wk_metrics w = []" "map_option up_url (wk_upstream w) = url"
  using assms by (auto simp: heartbeat_new_def simp del: registrations.simps split: option.splits sum.splits)

text \<open>The upstream target keeps the policy the worker configured.\<close>

definition upstream_ok :: "string option \<Rightarrow> 'l worker \<Rightarrow> bool" where
  "upstream_ok url w \<longleftrightarrow>
     map_option up_url (wk_upstream w) = url \<and>
     (\<forall>up. wk_upstream w = Some up \<longrightarrow> config_of ''upstream'' (up_client up) = Some upstream_target)"

lemma new_upstream_ok:
  assumes "heartbeat_new reg rs G build ts interval url = Inr (w, rs')"
  shows "upstream_ok url w"
proof -
  have "config_of ''upstream'' (up_client up) = Some upstream_target" if "wk_upstream w = Some up" for up
  proof -
    have "client_new G build ts upstream_client_config = Inr (up_client up)"
      using assms that by (auto simp: heartbeat_new_def simp del: registrations.simps split: option.splits sum.splits)
    then have "policies (up_client up) = client_policies G ts [upstream_target]"
      using client_new_policies by (force simp: upstream_client_config_def)
    moreover have "otc_name upstream_target = ''upstream''" by (simp add: upstream_target_def)
    ultimately show ?thesis by (simp add: client_policies_get config_of_def policy_from_config_def)
  qed
  then show ?thesis using heartbeat_new_fields(4) [OF assms] by (simp add: upstream_ok_def)
qed

lemma tick_upstream_ok:
  assumes "upstream_ok url w" "quiet_retries (te_attempts e)"
  shows "upstream_ok url (tick G e w)"
proof (cases "wk_upstream w")
  case None
  with assms(1) show ?thesis by (simp add: upstream_ok_def tick_def Let_def)
next
  case (Some up)
  obtain r ds c where s: "send_with_retry G (te_clock e) (te_attempts e)
      (outbound_request_get ''upstream'' (up_url up)) (up_client up) = (r, ds, c)" by (metis prod_cases3)
  have "config_of ''upstream'' c = config_of ''upstream'' (up_client up)"
    using send_with_retry_keeps [OF assms(2), unfolded keeps_configs_def, rule_format, of "''upstream''" "up_client up"
        G "te_clock e" "outbound_request_get ''upstream'' (up_url up)"] assms(1) Some
    by (simp add: s upstream_ok_def)
  with assms(1) Some show ?thesis by (simp add: upstream_ok_def tick_def Let_def s)
qed

lemma run_upstream_ok:
  "upstream_ok url w \<Longrightarrow> \<forall>e \<in> set es. quiet_retries (te_attempts e) \<Longrightarrow> upstream_ok url (fold (tick G) es w)"
  by (induction es arbitrary: w) (simp_all add: tick_upstream_ok)

section \<open>Properties\<close>

text \<open>
  After \<open>n\<close> ticks of a new worker the beat counter is \<open>n\<close>; with an upstream URL exactly \<open>n\<close> checks
  were recorded, each as \<open>ok\<close> or \<open>err\<close>, and without one none.  The run gets that far whenever the
  configured interval is not zero, which is what \<open>tokio::time::interval\<close> accepts.
\<close>

theorem heartbeat_counts:
  assumes "heartbeat_new reg rs G build ts (heartbeat_interval cfg) url = Inr (w, rs')"
    and "\<forall>d. interval_ok d = (d \<noteq> 0)" "hb_interval_ms cfg \<noteq> 0"
  shows "\<exists>w'. heartbeat_run interval_ok G es w = Some w' \<and>
    counter_total ''heartbeat_beats_total'' (wk_metrics w') = length es \<and>
    counter_value ''heartbeat_upstream_checks_total'' [''ok''] (wk_metrics w') +
    counter_value ''heartbeat_upstream_checks_total'' [''err''] (wk_metrics w') =
      (if url = None then 0 else length es)"
proof -
  note w = heartbeat_new_fields [OF assms(1)]
  have "wk_interval w \<noteq> 0"
    using assms(3) by (simp add: w heartbeat_interval_def duration_from_millis_def unat_eq_zero)
  moreover have "(wk_upstream w = None) = (url = None)" using w(4) by auto
  ultimately show ?thesis
    using run_counts [of G es w] w(3) assms(2) by (simp add: heartbeat_run_def)
qed

definition sample_heartbeat :: heartbeat_config where
  "sample_heartbeat =
     \<lparr>hb_addr = heartbeat_default_addr, hb_shutdown_timeout_secs = default_shutdown_secs,
      hb_log_level = default_log_level, hb_log_format = default_log_format,
      hb_interval_ms = default_interval_ms, hb_upstream_url = Some ''http://up.local/''\<rparr>"

lemma sample_worker:
  obtains w rs where "heartbeat_new name_registry [] sample_limiter (\<lambda>b. None) (\<lambda>i. 0) (heartbeat_interval sample_heartbeat)
    (hb_upstream_url sample_heartbeat) = Inr (w, rs)"
proof -
  have "registrations name_registry [beats_metric] [] = Inr [beats_metric]"
    "registrations name_registry [checks_metric] [beats_metric] = Inr [beats_metric, checks_metric]"
    "registrations name_registry client_metrics [] = Inr client_metrics"
    by (simp_all add: registrations_fresh [OF name_registry_laws] beats_metric_def checks_metric_def client_metrics_def
        del: registrations.simps)
  then show thesis
    by (intro that) (simp add: heartbeat_new_def client_new_def sample_heartbeat_def del: registrations.simps)
qed

theorem heartbeat_counts_witness:
  "\<exists>w w' rs. heartbeat_new name_registry [] sample_limiter (\<lambda>b. None) (\<lambda>i. 0) (heartbeat_interval sample_heartbeat)
      (hb_upstream_url sample_heartbeat) = Inr (w, rs) \<and>
    heartbeat_run (\<lambda>d. d \<noteq> 0) sample_limiter (replicate 3 \<lparr>te_clock = 0, te_attempts = sample_retries Elapsed\<rparr>) w = Some w' \<and>
    counter_total ''heartbeat_beats_total'' (wk_metrics w') = 3"
proof (rule sample_worker)
  fix w rs
  assume w: "heartbeat_new name_registry [] sample_limiter (\<lambda>b. None) (\<lambda>i. 0) (heartbeat_interval sample_heartbeat)
      (hb_upstream_url sample_heartbeat) = Inr (w, rs)"
  have "hb_interval_ms sample_heartbeat \<noteq> 0" by (simp add: sample_heartbeat_def default_interval_ms_def)
  from heartbeat_counts [OF w, of "\<lambda>d. d \<noteq> 0" "replicate 3 \<lparr>te_clock = 0, te_attempts = sample_retries Elapsed\<rparr>"] this w
  show ?thesis by auto
qed

text \<open>
  C22 No tick can stall the worker: at every tick of every run the upstream check retries at most
  twice and sleeps at most one second altogether, because the policy the worker configured for its
  upstream is still in force, whatever happened in the ticks before.
\<close>

theorem heartbeat_tick_bounded:
  assumes "heartbeat_new reg rs G build ts interval url = Inr (w, rs')"
    and "\<forall>e \<in> set es. quiet_retries (te_attempts e)"
    and "wk_upstream (fold (tick G) es w) = Some up" "\<forall>n. in_range (re_rng (te_attempts e n))"
  shows "url = Some (up_url up) \<and>
    length (fst (snd (send_with_retry G (te_clock e) (te_attempts e)
      (outbound_request_get ''upstream'' (up_url up)) (up_client up)))) \<le> 2 \<and>
    sum_list (fst (snd (send_with_retry G (te_clock e) (te_attempts e)
      (outbound_request_get ''upstream'' (up_url up)) (up_client up)))) \<le> duration_from_secs 1"
proof -
  let ?req = "outbound_request_get ''upstream'' (up_url up)"
  have ok: "upstream_ok url (fold (tick G) es w)"
    using new_upstream_ok [OF assms(1)] assms(2) by (rule run_upstream_ok)
  then have "config_of ''upstream'' (up_client up) = Some upstream_target"
    using assms(3) by (simp add: upstream_ok_def)
  then have cfg: "retry_config G (te_clock e) ?req (up_client up) = upstream_target"
    by (auto simp: config_of_def policy_for_def outbound_request_get_def outbound_request_new_def)
  have t: "unat (otc_retry_max_attempts upstream_target) = 2" "unat (otc_retry_cap_ms upstream_target) = 500"
    by (simp_all add: upstream_target_def)
  show ?thesis
    using retry_sleep_le [OF assms(4), of G "te_clock e" ?req "up_client up"] ok assms(3)
    by (auto simp: cfg t upstream_ok_def duration_from_millis_def duration_from_secs_def)
qed

lemma sample_retries_quiet: "quiet_retries (sample_retries r)"
  by (simp add: quiet_retries_def sample_retries_def sample_env_def keeps_configs_def)

theorem heartbeat_tick_bounded_witness:
  "\<exists>w up rs. heartbeat_new name_registry [] sample_limiter (\<lambda>b. None) (\<lambda>i. 0) (heartbeat_interval sample_heartbeat)
      (hb_upstream_url sample_heartbeat) = Inr (w, rs) \<and>
    wk_upstream (fold (tick sample_limiter) [\<lparr>te_clock = 0, te_attempts = sample_retries Elapsed\<rparr>] w) = Some up \<and>
    length (fst (snd (send_with_retry sample_limiter 0 (sample_retries Elapsed)
      (outbound_request_get ''upstream'' (up_url up)) (up_client up)))) \<le> 2"
proof (rule sample_worker)
  fix w rs
  let ?e = "\<lparr>te_clock = 0, te_attempts = sample_retries Elapsed\<rparr>"
  assume w: "heartbeat_new name_registry [] sample_limiter (\<lambda>b. None) (\<lambda>i. 0) (heartbeat_interval sample_heartbeat)
      (hb_upstream_url sample_heartbeat) = Inr (w, rs)"
  have q: "\<forall>e \<in> set [?e]. quiet_retries (te_attempts e)" by (simp add: sample_retries_quiet)
  have some: "wk_upstream w \<noteq> None" using heartbeat_new_fields(4) [OF w] by (auto simp: sample_heartbeat_def)
  have "wk_upstream (tick sample_limiter ?e w) \<noteq> None"
    by (rule tick_metrics [of sample_limiter ?e w]) (use some in simp)
  then obtain up where up: "wk_upstream (fold (tick sample_limiter) [?e] w) = Some up" by auto
  have rng: "\<forall>n. in_range (re_rng (te_attempts ?e n))"
    by (simp add: sample_retries_def in_range_def word_le_nat_alt unat_div)
  from heartbeat_tick_bounded [OF w q up rng] w up show ?thesis by auto
qed

end
