(* ===== verification/Otelx.thy ===== *)
theory Otelx
  imports Service_Configs Httpx_Server
begin

text \<open>
  Tracing setup: \<open>crates/otelx/src/lib.rs\<close>.  The process-wide registrations are the state; the span
  exporter and the provider are the SDK's: building the exporter may fail, and the rest is recorded
  as the settings it was built with.
\<close>

datatype sampler = ParentBasedRatio f64

record provider =
  prov_endpoint :: string
  prov_sampler :: sampler
  prov_attributes :: "(string \<times> string) list"

record telemetry =
  tel_propagator :: bool
  tel_subscriber :: "(subscriber \<times> provider option) option"
  tel_provider :: "provider option"
  tel_shut_down :: "provider list"

record tracing_guard =
  guard_provider :: "provider option"

definition guard_drop :: "tracing_guard \<Rightarrow> telemetry \<Rightarrow> telemetry" where
  "guard_drop g tel =
     (case guard_provider g of None \<Rightarrow> tel | Some p \<Rightarrow> tel\<lparr>tel_shut_down := tel_shut_down tel @ [p]\<rparr>)"

text \<open>\<open>try_init\<close>: the first subscriber stays.\<close>

definition install :: "subscriber \<Rightarrow> provider option \<Rightarrow> telemetry \<Rightarrow> telemetry" where
  "install sub p tel =
     (case tel_subscriber tel of Some _ \<Rightarrow> tel | None \<Rightarrow> tel\<lparr>tel_subscriber := Some (sub, p)\<rparr>)"

definition otelx_init ::
  "(string \<Rightarrow> bool) \<Rightarrow> string option \<Rightarrow> (string \<Rightarrow> 'e option) \<Rightarrow> string \<Rightarrow> otelx_config \<Rightarrow> string \<Rightarrow> string \<Rightarrow>
   telemetry \<Rightarrow> ('e + tracing_guard) \<times> telemetry" where
  "otelx_init valid rust_log build_exporter pkg_version cfg log_level log_format tel =
     (let tel = tel\<lparr>tel_propagator := True\<rparr>;
          sub = log_subscriber valid rust_log log_level log_format
      in if \<not> oc_enabled cfg then (Inr \<lparr>guard_provider = None\<rparr>, install sub None tel)
         else
           (case build_exporter (oc_endpoint cfg) of
              Some e \<Rightarrow> (Inl e, tel)
            | None \<Rightarrow>
                (let p = \<lparr>prov_endpoint = oc_endpoint cfg,
                          prov_sampler = ParentBasedRatio (oc_sampler_ratio cfg),
                          prov_attributes = [(''service.name'', oc_service_name cfg),
                            (''service.version'', pkg_version)]\<rparr>;
                     tel = tel\<lparr>tel_provider := Some p\<rparr>
                 in (Inr \<lparr>guard_provider = Some p\<rparr>, install sub (Some p) tel))))"

text \<open>
  Export is opt-in and the propagator is not: in every outcome the trace-context propagator is
  installed; with export disabled no provider exists, the guard is empty and its drop changes nothing;
  with export enabled and the exporter built, the guard holds the provider with the configured
  endpoint and ratio and its drop shuts exactly that one down; a subscriber installed before stays.
\<close>

theorem otelx_init_outcomes:
  assumes "otelx_init valid rust_log build_exporter v cfg lvl fmt tel = (r, tel')"
  shows "tel_propagator tel' \<and>
    (tel_subscriber tel \<noteq> None \<longrightarrow> tel_subscriber tel' = tel_subscriber tel) \<and>
    (\<not> oc_enabled cfg \<longrightarrow> tel_provider tel' = tel_provider tel \<and>
      (\<exists>g. r = Inr g \<and> guard_provider g = None \<and> guard_drop g tel' = tel')) \<and>
    (oc_enabled cfg \<and> build_exporter (oc_endpoint cfg) = None \<longrightarrow>
      (\<exists>g p. r = Inr g \<and> guard_provider g = Some p \<and> tel_provider tel' = Some p \<and>
        prov_endpoint p = oc_endpoint cfg \<and> prov_sampler p = ParentBasedRatio (oc_sampler_ratio cfg) \<and>
        tel_shut_down (guard_drop g tel') = tel_shut_down tel @ [p])) \<and>
    (\<forall>e. oc_enabled cfg \<and> build_exporter (oc_endpoint cfg) = Some e \<longrightarrow> r = Inl e)"
proof (cases "oc_enabled cfg")
  case False
  with assms show ?thesis
    by (cases "tel_subscriber tel") (auto simp: otelx_init_def Let_def install_def guard_drop_def)
next
  case True
  show ?thesis
  proof (cases "build_exporter (oc_endpoint cfg)")
    case None
    with assms True show ?thesis
      by (cases "tel_subscriber tel") (auto simp: otelx_init_def Let_def install_def guard_drop_def)
  next
    case (Some e)
    with assms True show ?thesis by (auto simp: otelx_init_def Let_def)
  qed
qed

theorem otelx_init_outcomes_witness:
  "\<exists>tel'. otelx_init (\<lambda>s. True) None (\<lambda>e. None :: unit option) ''1'' otelx_config_default ''info'' ''json''
      \<lparr>tel_propagator = False, tel_subscriber = None, tel_provider = None, tel_shut_down = []\<rparr>
    = (Inr \<lparr>guard_provider = None\<rparr>, tel') \<and> tel_propagator tel'"
proof -
  let ?tel = "\<lparr>tel_propagator = False, tel_subscriber = None, tel_provider = None, tel_shut_down = []\<rparr>"
  obtain r tel' where r: "otelx_init (\<lambda>s. True) None (\<lambda>e. None :: unit option) ''1'' otelx_config_default ''info'' ''json''
      ?tel = (r, tel')" by fastforce
  from otelx_init_outcomes [OF r] r show ?thesis by (auto simp: otelx_config_default_def)
qed

end
