(* ===== verification/Service_Mains.thy ===== *)
theory Service_Mains
  imports Tasks_Api Ping Consumer_Worker Heartbeat Otelx
begin

text \<open>
  The four binaries: \<open>crates/{ping,tasks,consumer,heartbeat}/src/main.rs\<close>, each from its configuration to
  the value \<open>main\<close> returns.  What a process meets outside (the environment, the socket, the brokers,
  the Valkey server) is in the argument records; a panic is \<open>None\<close> where one can happen.
\<close>

section \<open>The process\<close>

record ('a, 'e) process_env =
  pe_envy :: "string \<Rightarrow> string source"
  pe_scalars :: "string scalars"
  pe_de_f64 :: "string \<Rightarrow> f64 option"
  pe_var :: "string \<Rightarrow> string option"
  pe_filter_ok :: "string \<Rightarrow> bool"
  pe_exporter :: "string \<Rightarrow> 'e option"
  pe_otelx_version :: string
  pe_parse_addr :: "string \<Rightarrow> 'e + 'a"
  pe_bind :: "'a \<Rightarrow> 'e + unit"
  pe_bind_now :: "'a \<Rightarrow> bool"
  pe_serve :: "'e + os_signal"

datatype ('a, 'e) main_error =
    EnvError
  | LoadFailed "'e load_error"
  | TracingFailed 'e
  | ValkeyFailed 'e
  | KafkaFailed 'e
  | WorkerFailed worker_error
  | ConsumeFailed 'e
  | RunFailed "('a, 'e) run_error"

definition httpx_from_env :: "('a, 'e) process_env \<Rightarrow> string \<Rightarrow> httpx_config option" where
  "httpx_from_env E prefix = httpx_config_de (pe_scalars E) (pe_envy E prefix)"

definition valkey_from_env :: "('a, 'e) process_env \<Rightarrow> string \<Rightarrow> valkey_config option" where
  "valkey_from_env E prefix = valkey_config_de (pe_scalars E) (pe_envy E prefix)"

definition kafka_from_env :: "('a, 'e) process_env \<Rightarrow> string \<Rightarrow> kafka_config option" where
  "kafka_from_env E prefix = kafka_config_de (pe_scalars E) (pe_envy E prefix)"

definition otelx_from_env :: "('a, 'e) process_env \<Rightarrow> string \<Rightarrow> otelx_config option" where
  "otelx_from_env E prefix = otelx_config_de (pe_scalars E) (pe_de_f64 E) (pe_envy E prefix)"

definition consumer_from_env :: "('a, 'e) process_env \<Rightarrow> consumer_config option" where
  "consumer_from_env E = consumer_config_de (pe_scalars E) (pe_de_f64 E) (pe_envy E ''CONSUMER_'')"

definition heartbeat_from_env :: "('a, 'e) process_env \<Rightarrow> heartbeat_config option" where
  "heartbeat_from_env E = heartbeat_config_de (pe_scalars E) (pe_envy E ''HEARTBEAT_'')"

text \<open>\<open>server.run().await?\<close>; \<open>pe_bind_now\<close> is whether binding an address completes without suspending.\<close>

definition listen :: "('a, 'e) process_env \<Rightarrow> ('r, 'w) server \<Rightarrow> ('a, 'e) main_error + unit" where
  "listen E sv =
     (case server_run (pe_parse_addr E) (pe_bind E) (pe_serve E) sv of
        (Inl e, _) \<Rightarrow> Inl (RunFailed e)
      | (Inr _, _) \<Rightarrow> Inr ())"

record 'e kafka_driver =
  kd_create :: "(string \<times> string) list \<Rightarrow> 'e option"
  kd_subscribe :: "string list \<Rightarrow> 'e option"
  kd_metadata :: "duration \<Rightarrow> 'e option"

section \<open>ping\<close>

definition ping_boot ::
  "('r, 's ping_handler) axum \<Rightarrow> ('q, string, 's) keyed_governor \<Rightarrow> string \<Rightarrow> string option \<Rightarrow> httpx_config \<Rightarrow>
   ping_options \<Rightarrow> (('r, 's) server \<times> 's option) option" where
  "ping_boot X G pkg_version git_sha cfg opts =
     map_option (\<lambda>(r, l). (with_routes X r (server_new X cfg), l)) (ping_routes X G pkg_version git_sha opts)"

definition ping_main ::
  "('r, 's ping_handler) axum \<Rightarrow> ('q, string, 's) keyed_governor \<Rightarrow> string \<Rightarrow> string option \<Rightarrow>
   ('a, 'e) process_env \<Rightarrow> subscriber option \<Rightarrow> (('a, 'e) main_error + unit) option \<times> subscriber option" where
  "ping_main X G pkg_version git_sha E sub =
     (case httpx_from_env E ''PING_'' of
        None \<Rightarrow> (Some (Inl EnvError), sub)
      | Some cfg \<Rightarrow>
          (let sub = init_tracing (pe_filter_ok E) (pe_var E ''RUST_LOG'') (hc_log_level cfg) (hc_log_format cfg) sub;
               opts = options_from_env (pe_var E)
           in (map_option (\<lambda>(sv, l). listen E sv) (ping_boot X G pkg_version git_sha cfg opts), sub)))"

section \<open>tasks\<close>

record 'e load_env =
  le_parse :: "string \<Rightarrow> 'e + yaml"
  le_exists :: "string \<Rightarrow> bool"
  le_read :: "string \<Rightarrow> 'e + string"
  le_lower :: "string \<Rightarrow> string"
  le_from_value :: "yaml \<Rightarrow> 'e + tasks_config"
  le_vars :: "(string \<times> string) list"

record ('s, 'e, 'k) tasks_deps =
  td_redis :: "('s, 'e) redis"
  td_open :: "string \<Rightarrow> 'e option"
  td_manager :: "string \<Rightarrow> 'e + 's"
  td_codec :: "(task, 'e) codec"
  td_kafka :: "'e kafka_driver"
  td_broker :: 'k
  td_deliver :: "record_out \<Rightarrow> duration \<Rightarrow> 'k \<Rightarrow> ('e + unit) \<times> 'k"
  td_to_vec :: "json \<Rightarrow> 'e + bytes"

text \<open>
  The connections, the readiness checks and the routes; the result is the server about to run, the
  state the handlers share, the world they act on and the periods of the two background probes.
\<close>

definition tasks_boot ::
  "('r, ('x, 's, 'k) task_handler) axum \<Rightarrow> ('s, 'e, 'k) tasks_deps \<Rightarrow> tasks_config \<Rightarrow>
   ('a, 'e) main_error + ('r, ('s, 'k) tasks_world) server \<times> ('s, 'e, 'k) app \<times> ('s, 'k) tasks_world \<times> duration list" where
  "tasks_boot X D cfg =
     (case vk_connect (td_redis D) (td_open D) (td_manager D) (tasks_valkey cfg) of
        Inl e \<Rightarrow> Inl (ValkeyFailed e)
      | Inr (conn, valkey_ok, valkey_period) \<Rightarrow>
          (case producer_connect (kd_create (td_kafka D)) (kd_metadata (td_kafka D)) (tasks_kafka cfg) of
             Inl e \<Rightarrow> Inl (KafkaFailed e)
           | Inr (producer, kafka_period) \<Rightarrow>
               (let sv = server_new X (tasks_httpx cfg);
                    sv = sv\<lparr>sv_health := register ''valkey'' (\<lambda>w. vk_readiness_check (tw_valkey_ok w)) (sv_health sv)\<rparr>;
                    sv = sv\<lparr>sv_health := register ''kafka'' (\<lambda>w. kafka_readiness (tw_kafka_ok w)) (sv_health sv)\<rparr>;
                    state = \<lparr>app_redis = td_redis D, app_codec = td_codec D, app_deliver = td_deliver D,
                      app_producer = producer, app_topic = tc_kafka_topic cfg, app_to_vec = td_to_vec D\<rparr>
                in Inr (with_routes X (tasks_routes X state) sv, state,
                     \<lparr>tw_store = conn, tw_broker = td_broker D, tw_valkey_ok = valkey_ok,
                      tw_kafka_ok = pr_healthy producer\<rparr>, [valkey_period, kafka_period]))))"

text \<open>The tracing guard is a local of \<open>main\<close>: every return after it was made drops it.\<close>

definition tasks_main ::
  "('r, ('x, 's, 'k) task_handler) axum \<Rightarrow> ('s, 'e, 'k) tasks_deps \<Rightarrow> 'e load_env \<Rightarrow> ('a, 'e) process_env \<Rightarrow>
   telemetry \<Rightarrow> (('a, 'e) main_error + unit) \<times> telemetry" where
  "tasks_main X D L E tel =
     (case tasks_load (le_parse L) (le_exists L) (le_read L) (le_lower L) (le_from_value L) (le_vars L) of
        Inl e \<Rightarrow> (Inl (LoadFailed e), tel)
      | Inr cfg \<Rightarrow>
          (case otelx_init (pe_filter_ok E) (pe_var E ''RUST_LOG'') (pe_exporter E) (pe_otelx_version E)
                  (tasks_otelx cfg) (tc_log_level cfg) (tc_log_format cfg) tel of
             (Inl e, tel) \<Rightarrow> (Inl (TracingFailed e), tel)
           | (Inr guard, tel) \<Rightarrow>
               (case tasks_boot X D cfg of
                  Inl e \<Rightarrow> (Inl e, guard_drop guard tel)
                | Inr (sv, state, w, periods) \<Rightarrow>
                    (case listen E sv of
                       Inl e \<Rightarrow> (Inl e, guard_drop guard tel)
                     | Inr _ \<Rightarrow> (Inr (), guard_drop guard tel)))))"

section \<open>consumer\<close>

text \<open>
  \<open>select!\<close> takes the branch whose future completes first; \<open>server_first\<close> is that choice when both would
  complete.  A branch that does not complete cannot be chosen.
\<close>

definition select_server ::
  "bool \<Rightarrow> ('a, 'e) main_error + unit \<Rightarrow> 'e loop_state \<Rightarrow> ('a, 'e) main_error + unit" where
  "select_server server_first served st =
     (case st of Stopped e \<Rightarrow> if server_first then served else Inl (ConsumeFailed e) | Polling \<Rightarrow> served)"

text \<open>The world of the consumer's server is the health flag the broker probe writes.\<close>

definition consumer_boot ::
  "('r, ('z, bool) handler) axum \<Rightarrow> string registry_op \<Rightarrow> 'e kafka_driver \<Rightarrow> consumer_config \<Rightarrow>
   ('a, 'e) main_error + ('r, bool) server \<times> bool \<times> duration" where
  "consumer_boot X reg K cfg =
     (case consumer_connect (kd_create K) (kd_subscribe K) (kd_metadata K) (consumer_kafka cfg) of
        Inl e \<Rightarrow> Inl (KafkaFailed e)
      | Inr (kafka_ok, period) \<Rightarrow>
          (let sv = server_new X (consumer_httpx cfg)
           in case worker_new reg (sv_registry sv) of
                Inl e \<Rightarrow> Inl (WorkerFailed (RegistryError e))
              | Inr rs \<Rightarrow>
                  Inr (sv\<lparr>sv_registry := rs, sv_health := register ''kafka'' kafka_readiness (sv_health sv)\<rparr>,
                       kafka_ok, period)))"

text \<open>\<open>polls\<close> are the results of \<open>recv\<close>, \<open>commit\<close> the broker's answers to the commits, \<open>parse\<close> the JSON parser.\<close>

definition consumer_main ::
  "('r, ('z, bool) handler) axum \<Rightarrow> string registry_op \<Rightarrow> 'e kafka_driver \<Rightarrow> (bytes \<Rightarrow> json option) \<Rightarrow>
   (borrowed_message \<Rightarrow> 'e option) \<Rightarrow> ('p + borrowed_message) list \<Rightarrow> bool \<Rightarrow> ('a, 'e) process_env \<Rightarrow>
   telemetry \<Rightarrow> (('a, 'e) main_error + unit) \<times> telemetry" where
  "consumer_main X reg K parse commit polls server_first E tel =
     (case consumer_from_env E of
        None \<Rightarrow> (Inl EnvError, tel)
      | Some cfg \<Rightarrow>
          (case otelx_init (pe_filter_ok E) (pe_var E ''RUST_LOG'') (pe_exporter E) (pe_otelx_version E)
                  (consumer_otelx cfg) (con_log_level cfg) (con_log_format cfg) tel of
             (Inl e, tel) \<Rightarrow> (Inl (TracingFailed e), tel)
           | (Inr guard, tel) \<Rightarrow>
               (case consumer_boot X reg K cfg of
                  Inl e \<Rightarrow> (Inl e, guard_drop guard tel)
                | Inr (sv, kafka_ok, period) \<Rightarrow>
                    (case select_server server_first (listen E sv) (fst (worker_run parse commit polls [])) of
                       Inl e \<Rightarrow> (Inl e, guard_drop guard tel)
                     | Inr _ \<Rightarrow> (Inr (), guard_drop guard tel)))))"

section \<open>heartbeat\<close>

text \<open>
  \<open>run\<close> is complete when it is first polled only if it fails before it serves: a listen address that does
  not parse, or a bind that fails without suspending.  A server that listens waits for its signal.
\<close>

definition fails_at_once :: "('a, 'e) process_env \<Rightarrow> ('r, 'w) server \<Rightarrow> bool" where
  "fails_at_once E sv =
     (case pe_parse_addr E (hc_addr (sv_config sv)) of
        Inl _ \<Rightarrow> True
      | Inr addr \<Rightarrow> pe_bind_now E addr \<and> (case pe_bind E addr of Inl _ \<Rightarrow> True | Inr _ \<Rightarrow> False))"

text \<open>
  The worker's branch of \<open>select!\<close> never completes; with an interval that \<open>tokio\<close> refuses it panics when it
  is polled.  \<open>select!\<close> polls its branches in a random order, \<open>server_first\<close>, and the worker's is not
  polled only when the server's was polled first and was complete.
\<close>

definition heartbeat_main ::
  "('r, ('z, 'w) handler) axum \<Rightarrow> string registry_op \<Rightarrow> 'l direct_limiter \<Rightarrow> (http_builder \<Rightarrow> string option) \<Rightarrow>
   (nat \<Rightarrow> sys_time) \<Rightarrow> (duration \<Rightarrow> bool) \<Rightarrow> 'l tick_env list \<Rightarrow> bool \<Rightarrow> ('a, 'e) process_env \<Rightarrow>
   subscriber option \<Rightarrow> (('a, 'e) main_error + unit) option \<times> subscriber option" where
  "heartbeat_main X reg G build ts interval_ok ticks server_first E sub =
     (case heartbeat_from_env E of
        None \<Rightarrow> (Some (Inl EnvError), sub)
      | Some cfg \<Rightarrow>
          (let sub = init_tracing (pe_filter_ok E) (pe_var E ''RUST_LOG'') (hb_log_level cfg) (hb_log_format cfg) sub;
               sv = server_new X (heartbeat_httpx cfg)
           in case heartbeat_new reg (sv_registry sv) G build ts (heartbeat_interval cfg) (hb_upstream_url cfg) of
                Inl e \<Rightarrow> (Some (Inl (WorkerFailed e)), sub)
              | Inr (w, rs) \<Rightarrow>
                  (let sv = sv\<lparr>sv_registry := rs\<rparr>; served = listen E sv
                   in if server_first \<and> fails_at_once E sv then (Some served, sub)
                      else (map_option (\<lambda>_. served) (heartbeat_run interval_ok G ticks w), sub))))"

section \<open>Facts about starting\<close>

definition flushed :: "('a, 'e) process_env \<Rightarrow> otelx_config \<Rightarrow> provider list" where
  "flushed E ocfg =
     (if oc_enabled ocfg \<and> pe_exporter E (oc_endpoint ocfg) = None
      then [\<lparr>prov_endpoint = oc_endpoint ocfg, prov_sampler = ParentBasedRatio (oc_sampler_ratio ocfg),
             prov_attributes = [(''service.name'', oc_service_name ocfg), (''service.version'', pe_otelx_version E)]\<rparr>]
      else [])"

lemma install_keeps [simp]: "tel_shut_down (install sub p tel) = tel_shut_down tel"
  by (simp add: install_def split: option.split)

text \<open>A tracing set-up that succeeds gives a guard whose drop shuts down the provider that was built, if any.\<close>

lemma otelx_guard:
  assumes "oc_enabled ocfg \<longrightarrow> pe_exporter E (oc_endpoint ocfg) = None"
  obtains guard tel1 where
    "otelx_init (pe_filter_ok E) (pe_var E ''RUST_LOG'') (pe_exporter E) (pe_otelx_version E) ocfg level fmt tel = (Inr guard, tel1)"
    "tel_shut_down (guard_drop guard tel1) = tel_shut_down tel @ flushed E ocfg"
  using assms by (cases "oc_enabled ocfg") (simp_all add: otelx_init_def Let_def guard_drop_def flushed_def)

lemma listen_cases:
  obtains "listen E sv = Inr ()" "fst (server_run (pe_parse_addr E) (pe_bind E) (pe_serve E) sv) = Inr ()"
  | e where "listen E sv = Inl (RunFailed e)" "fst (server_run (pe_parse_addr E) (pe_bind E) (pe_serve E) sv) = Inl e"
  by (cases "server_run (pe_parse_addr E) (pe_bind E) (pe_serve E) sv"; cases "fst (server_run (pe_parse_addr E) (pe_bind E) (pe_serve E) sv)")
    (auto simp: listen_def)

text \<open>The workers' metrics are new on the server's registry.\<close>

lemma consumer_registers:
  "registry_laws reg \<Longrightarrow> worker_new reg http_metrics = Inr (http_metrics @ consumer_metrics)"
  unfolding worker_new_def
  by (intro registrations_fresh) (simp_all add: consumer_metrics_def http_metrics_def)

lemma heartbeat_registers:
  assumes "registry_laws reg" "build (client_builder upstream_client_config) = None"
  shows "\<exists>w rs. heartbeat_new reg http_metrics G build ts interval url = Inr (w, rs) \<and> wk_interval w = interval"
proof -
  have "registrations reg [beats_metric] http_metrics = Inr (http_metrics @ [beats_metric])"
    by (intro registrations_fresh [OF assms(1)]) (simp_all add: beats_metric_def http_metrics_def)
  moreover have "registrations reg [checks_metric] (http_metrics @ [beats_metric]) =
      Inr ((http_metrics @ [beats_metric]) @ [checks_metric])"
    by (intro registrations_fresh [OF assms(1)]) (simp_all add: beats_metric_def checks_metric_def http_metrics_def)
  moreover have "registrations reg client_metrics [] = Inr ([] @ client_metrics)"
    by (intro registrations_fresh [OF assms(1)]) (simp_all add: client_metrics_def)
  ultimately show ?thesis
    by (simp add: heartbeat_new_def client_new_def assms(2) del: registrations.simps split: option.split)
qed

text \<open>What \<open>tasks_boot\<close> builds when both connections succeed.\<close>

lemma tasks_bootE:
  assumes "tasks_boot X D cfg = Inr (sv, A, w, periods)"
  obtains sv0 where "sv = tasks_server X A sv0" "sv_routes sv0 = ax_new X"
    "sv_health sv = fold (\<lambda>(n, c). register n c)
       [(''valkey'', \<lambda>w. vk_readiness_check (tw_valkey_ok w)), (''kafka'', \<lambda>w. kafka_readiness (tw_kafka_ok w))] health_new"
    "app_redis A = td_redis D" "app_codec A = td_codec D" "app_topic A = tc_kafka_topic cfg"
    "tw_valkey_ok w" "tw_kafka_ok w"
    "periods = [duration_from_secs (max (tc_valkey_probe_secs cfg) 1), duration_from_secs (max (tc_kafka_probe_secs cfg) 1)]"
proof (rule that [of "(server_new X (tasks_httpx cfg))\<lparr>sv_health := register ''kafka'' (\<lambda>w. kafka_readiness (tw_kafka_ok w))
    (register ''valkey'' (\<lambda>w. vk_readiness_check (tw_valkey_ok w)) health_new)\<rparr>"])
qed (use assms in \<open>auto simp: tasks_boot_def vk_connect_def producer_connect_def Let_def server_new_def with_routes_def
      tasks_valkey_def tasks_kafka_def split: sum.splits prod.splits option.splits\<close>)

section \<open>The running tasks service\<close>

text \<open>
  What happens to an assembled tasks service: \<open>run\<close> has bound the listener and opens the gate, a request is
  served, one of the two background probes takes a turn (\<open>spawn_health_probe\<close> in \<open>valkey/src/lib.rs\<close>, \<open>spawn_probe\<close> in
  \<open>kafka/src/lib.rs\<close>, whose argument is the result of the joined blocking task), or a signal begins the
  drain.  A request no route matches is answered by \<open>axum\<close>.
\<close>

datatype 'x tasks_event =
    Listening
  | Request f64 "'x task_request"
  | ValkeyProbe
  | KafkaProbe "bool option"
  | Signal os_signal

fun tasks_step ::
  "('r, ('x, 's, 'k) task_handler) axum \<Rightarrow> (metric_update list \<Rightarrow> string) \<Rightarrow>
   (('x, 's, 'k) task_handler \<Rightarrow> ('x, 's, 'k) task_handler) \<Rightarrow> ('s, 'e) redis \<Rightarrow> ('r, ('s, 'k) tasks_world) server \<Rightarrow>
   'x tasks_event \<Rightarrow> ('s, 'k) tasks_world app_state \<Rightarrow> ('s, 'k) tasks_world app_state" where
  "tasks_step X render trace R sv (Request elapsed rq) s =
     (case serve_one X render trace sv elapsed rq s of None \<Rightarrow> s | Some (a, s') \<Rightarrow> s')"
| "tasks_step X render trace R sv ValkeyProbe s =
     (let (ok, st) = vk_probe R (tw_store (as_world s))
      in s\<lparr>as_world := (as_world s)\<lparr>tw_store := st, tw_valkey_ok := ok\<rparr>\<rparr>)"
| "tasks_step X render trace R sv (KafkaProbe joined) s =
     s\<lparr>as_world := (as_world s)\<lparr>tw_kafka_ok := probe_turn joined\<rparr>\<rparr>"
| "tasks_step X render trace R sv Listening s = s\<lparr>as_health := set_ready True (as_health s)\<rparr>"
| "tasks_step X render trace R sv (Signal sig) s = s\<lparr>as_health := shutdown_signal sig (as_health s)\<rparr>"

definition tasks_run ::
  "('r, ('x, 's, 'k) task_handler) axum \<Rightarrow> (metric_update list \<Rightarrow> string) \<Rightarrow>
   (('x, 's, 'k) task_handler \<Rightarrow> ('x, 's, 'k) task_handler) \<Rightarrow> ('s, 'e) redis \<Rightarrow> ('r, ('s, 'k) tasks_world) server \<Rightarrow>
   ('s, 'k) tasks_world app_state \<Rightarrow> 'x tasks_event list \<Rightarrow> ('s, 'k) tasks_world app_state" where
  "tasks_run X render trace R sv s es = fold (tasks_step X render trace R sv) es s"

text \<open>Whether the service accepts traffic: closed at the start, open from listening on, closed by a signal.\<close>

definition gate_step :: "'x tasks_event \<Rightarrow> bool \<Rightarrow> bool" where
  "gate_step e open_now = (case e of Listening \<Rightarrow> True | Signal sig \<Rightarrow> False | _ \<Rightarrow> open_now)"

definition gate_after :: "'x tasks_event list \<Rightarrow> bool" where
  "gate_after es = fold gate_step es False"

lemma gate_after_snoc: "gate_after [] = False" "gate_after (es @ [e]) = gate_step e (gate_after es)"
  by (simp_all add: gate_after_def)

text \<open>The result of the last turn of a probe, or that of the connection when there was none yet.\<close>

fun is_kafka :: "'x tasks_event \<Rightarrow> bool" where
  "is_kafka (KafkaProbe j) = True" | "is_kafka _ = False"

definition last_valkey ::
  "('s, 'e) redis \<Rightarrow> ('x tasks_event list \<Rightarrow> ('s, 'k) tasks_world app_state) \<Rightarrow> 'x tasks_event list \<Rightarrow> bool" where
  "last_valkey R run es =
     (case dropWhile (\<lambda>e. e \<noteq> ValkeyProbe) (rev es) of
        [] \<Rightarrow> True
      | e # before \<Rightarrow> (\<exists>pong. fst (rd_ping R (store_state (run (rev before)))) = Inr pong))"

definition last_kafka :: "'x tasks_event list \<Rightarrow> bool" where
  "last_kafka es = (case filter is_kafka (rev es) of KafkaProbe joined # _ \<Rightarrow> joined = Some True | _ \<Rightarrow> True)"

lemma last_valkey_snoc:
  "last_valkey R run [] = True"
  "last_valkey R run (es @ [e]) =
     (if e = ValkeyProbe then \<exists>pong. fst (rd_ping R (store_state (run es))) = Inr pong else last_valkey R run es)"
  by (simp_all add: last_valkey_def)

lemma last_kafka_snoc:
  "last_kafka [] = True"
  "last_kafka (es @ [KafkaProbe j]) = (j = Some True)"
  "\<not> is_kafka e \<Longrightarrow> last_kafka (es @ [e]) = last_kafka es"
  by (simp_all add: last_kafka_def)

text \<open>No handler touches the readiness registry or the flags.\<close>

definition keeps_flags :: "('x, 's, 'k) task_handler \<Rightarrow> bool" where
  "keeps_flags h \<longleftrightarrow> (\<forall>rq s. as_health (snd (h rq s)) = as_health s \<and>
     tw_valkey_ok (as_world (snd (h rq s))) = tw_valkey_ok (as_world s) \<and>
     tw_kafka_ok (as_world (snd (h rq s))) = tw_kafka_ok (as_world s))"

lemma handlers_keep_flags:
  "keeps_flags live_handler" "keeps_flags ready_handler" "keeps_flags (metrics_handler render)"
  "keeps_flags (list_handler A)" "keeps_flags (create_handler A)" "keeps_flags (get_one_handler A)"
  "keeps_flags (delete_one_handler A)" "keeps_flags h \<Longrightarrow> keeps_flags (track_metrics e h)"
  by (simp_all add: keeps_flags_def live_handler_def ready_handler_def metrics_handler_def list_handler_def
      create_handler_def get_one_handler_def delete_one_handler_def with_store_def track_metrics_def Let_def split_beta)

lemma if_SomeE:
  assumes "(if b then Some x else y) = Some z"
  obtains "z = x" | "y = Some z"
proof (cases b)
  case True
  with assms have "z = x" by simp
  then show thesis by (rule that(1))
next
  case False
  with assms have "y = Some z" by simp
  then show thesis by (rule that(2))
qed

lemma tasks_inner_keeps:
  assumes "axum_laws X" "sv_routes sv = ax_new X" "m \<noteq> ''HEAD''"
    and "inner_handler X render (tasks_server X A sv) p m = Some h"
  shows "keeps_flags h"
  using assms(4)
  unfolding inner_handler_def tasks_server_routes [OF assms(1,2)] tasks_routes_handlers [OF assms(1,3)]
  by (elim if_SomeE) (simp_all only: handlers_keep_flags(1-7) option.distinct)

lemma tasks_request_keeps:
  assumes "axum_laws X" "\<forall>h. trace h = h" "sv_routes sv = ax_new X" "rq_method rq \<noteq> ''HEAD''"
    and "serve_one X render trace (tasks_server X A sv) elapsed rq s = Some (a, s')"
  shows "as_health s' = as_health s \<and> tw_valkey_ok (as_world s') = tw_valkey_ok (as_world s) \<and>
    tw_kafka_ok (as_world s') = tw_kafka_ok (as_world s)"
proof -
  obtain p where p: "rq_matched rq = Some p"
    using assms(5) by (cases "rq_matched rq") (simp_all add: serve_one_def)
  obtain h where h: "inner_handler X render (tasks_server X A sv) p (rq_method rq) = Some h"
    "track_metrics elapsed h rq s = (a, s')"
    using assms(5) serve_one_eq [OF assms(1,2) tasks_leave_builtin [OF assms(1,3), of A] assms(4) p, of render elapsed s]
    by (auto simp: map_option_eq_Some)
  have "keeps_flags (track_metrics elapsed h)"
    by (intro handlers_keep_flags tasks_inner_keeps [OF assms(1,3,4) h(1)])
  then show ?thesis using h(2) by (metis keeps_flags_def snd_conv)
qed

fun plain_event :: "'x tasks_event \<Rightarrow> bool" where
  "plain_event (Request e rq) = (rq_method rq \<noteq> ''HEAD'')" | "plain_event _ = True"

lemma tasks_step_flags:
  assumes "axum_laws X" "\<forall>h. trace h = h" "sv_routes sv = ax_new X" "plain_event e"
  shows "as_health (tasks_step X render trace R (tasks_server X A sv) e s) =
       set_ready (gate_step e (is_ready (as_health s))) (as_health s)"
    "tw_valkey_ok (as_world (tasks_step X render trace R (tasks_server X A sv) e s)) =
       (if e = ValkeyProbe then \<exists>pong. fst (rd_ping R (store_state s)) = Inr pong else tw_valkey_ok (as_world s))"
    "tw_kafka_ok (as_world (tasks_step X render trace R (tasks_server X A sv) e s)) =
       (case e of KafkaProbe j \<Rightarrow> j = Some True | _ \<Rightarrow> tw_kafka_ok (as_world s))"
proof -
  have "as_health (tasks_step X render trace R (tasks_server X A sv) e s) =
      set_ready (gate_step e (is_ready (as_health s))) (as_health s) \<and>
    tw_valkey_ok (as_world (tasks_step X render trace R (tasks_server X A sv) e s)) =
      (if e = ValkeyProbe then \<exists>pong. fst (rd_ping R (store_state s)) = Inr pong else tw_valkey_ok (as_world s)) \<and>
    tw_kafka_ok (as_world (tasks_step X render trace R (tasks_server X A sv) e s)) =
      (case e of KafkaProbe j \<Rightarrow> j = Some True | _ \<Rightarrow> tw_kafka_ok (as_world s))" (is "?P e")
  proof (cases e)
    case (Request el rq)
    then have rq: "rq_method rq \<noteq> ''HEAD''" using assms(4) by simp
    show ?thesis
    proof (cases "serve_one X render trace (tasks_server X A sv) el rq s")
      case (Some x)
      obtain a s' where x: "x = (a, s')" by (cases x)
      from tasks_request_keeps [OF assms(1-3) rq Some [unfolded x]] show ?thesis by (simp add: Request Some x gate_step_def)
    qed (simp add: Request gate_step_def)
  next
    case ValkeyProbe
    then show ?thesis
      by (cases "rd_ping R (store_state s)"; cases "fst (rd_ping R (store_state s))") (simp_all add: vk_probe_def gate_step_def)
  next
    case (KafkaProbe j)
    then show ?thesis by (cases j) (simp_all add: probe_turn_def gate_step_def)
  qed (simp_all add: gate_step_def shutdown_signal_eq)
  then show "as_health (tasks_step X render trace R (tasks_server X A sv) e s) =
       set_ready (gate_step e (is_ready (as_health s))) (as_health s)"
    "tw_valkey_ok (as_world (tasks_step X render trace R (tasks_server X A sv) e s)) =
       (if e = ValkeyProbe then \<exists>pong. fst (rd_ping R (store_state s)) = Inr pong else tw_valkey_ok (as_world s))"
    "tw_kafka_ok (as_world (tasks_step X render trace R (tasks_server X A sv) e s)) =
       (case e of KafkaProbe j \<Rightarrow> j = Some True | _ \<Rightarrow> tw_kafka_ok (as_world s))" by blast+
qed

lemma tasks_flags:
  assumes "axum_laws X" "\<forall>h. trace h = h" "sv_routes sv = ax_new X" "list_all plain_event es"
    and "tw_valkey_ok (as_world s)" "tw_kafka_ok (as_world s)" "\<not> is_ready (as_health s)"
  shows "as_health (tasks_run X render trace R (tasks_server X A sv) s es) = set_ready (gate_after es) (as_health s)"
    "tw_valkey_ok (as_world (tasks_run X render trace R (tasks_server X A sv) s es)) =
       last_valkey R (tasks_run X render trace R (tasks_server X A sv) s) es"
    "tw_kafka_ok (as_world (tasks_run X render trace R (tasks_server X A sv) s es)) = last_kafka es"
proof -
  let ?run = "tasks_run X render trace R (tasks_server X A sv) s"
  have "as_health (?run es) = set_ready (gate_after es) (as_health s) \<and> tw_valkey_ok (as_world (?run es)) = last_valkey R ?run es \<and>
      tw_kafka_ok (as_world (?run es)) = last_kafka es"
    using assms(4)
  proof (induction es rule: rev_induct)
    case Nil
    then show ?case
      using assms(5-7) set_ready_same [of "as_health s"]
      by (simp add: tasks_run_def last_valkey_snoc last_kafka_snoc gate_after_snoc)
  next
    case (snoc e es)
    have step: "?run (es @ [e]) = tasks_step X render trace R (tasks_server X A sv) e (?run es)"
      by (simp add: tasks_run_def)
    have "last_kafka (es @ [e]) = (case e of KafkaProbe j \<Rightarrow> j = Some True | _ \<Rightarrow> last_kafka es)"
      by (cases e) (simp_all add: last_kafka_snoc)
    with snoc show ?case
      unfolding step last_valkey_snoc gate_after_snoc
      by (simp add: tasks_step_flags [OF assms(1-3)] split: tasks_event.split)
  qed
  then show "as_health (?run es) = set_ready (gate_after es) (as_health s)" "tw_valkey_ok (as_world (?run es)) = last_valkey R ?run es"
    "tw_kafka_ok (as_world (?run es)) = last_kafka es" by auto
qed

section \<open>Properties\<close>

text \<open>
  C24 The tasks service reports its dependencies: after any sequence of requests, probe turns and signals
  its readiness endpoint, asked through the assembled server, answers 200 exactly when the server has
  begun to listen and no signal has come since, the last Valkey probe got a reply and the last Kafka
  probe succeeded (a probe that has not had a turn yet counts as the successful connection), and 503
  otherwise; no request changes that.  It probes at least a second apart and publishes to the
  configured topic.
\<close>

theorem tasks_ready_tracks_probes:
  fixes s :: "('s, 'k) tasks_world app_state"
  assumes "axum_laws X" "\<forall>h. trace h = h" "tasks_boot X D cfg = Inr (sv, A, w, periods)"
    and "as_world s = w" "as_health s = sv_health sv" "list_all plain_event es"
    and "rq_matched rq = Some ''/readyz''" "rq_method rq = ''GET''"
  shows "\<exists>a s'. serve_one X render trace sv elapsed rq (tasks_run X render trace (td_redis D) sv s es) = Some (a, s') \<and>
    answer_status a =
      (if gate_after es \<and> last_valkey (td_redis D) (tasks_run X render trace (td_redis D) sv s) es \<and> last_kafka es then 200 else 503) \<and>
    (\<forall>d \<in> set periods. d \<ge> duration_from_secs 1) \<and> app_topic A = tc_kafka_topic cfg"
  using assms(3)
proof (rule tasks_bootE)
  fix sv0
  let ?run = "tasks_run X render trace (td_redis D) sv s"
  let ?cs = "[(''valkey'', \<lambda>w. vk_readiness_check (tw_valkey_ok w)), (''kafka'', \<lambda>w. kafka_readiness (tw_kafka_ok w))]"
  assume sv: "sv = tasks_server X A sv0" "sv_routes sv0 = ax_new X"
    and health: "sv_health sv = fold (\<lambda>(n, c). register n c) ?cs health_new"
    and rest: "app_topic A = tc_kafka_topic cfg" "tw_valkey_ok w" "tw_kafka_ok w"
      "periods = [duration_from_secs (max (tc_valkey_probe_secs cfg) 1), duration_from_secs (max (tc_kafka_probe_secs cfg) 1)]"
  have "tw_valkey_ok (as_world s)" "tw_kafka_ok (as_world s)" "\<not> is_ready (as_health s)"
    using rest(2,3) assms(4,5) health by simp_all
  note flags = tasks_flags [OF assms(1,2) sv(2) assms(6) this, of render "td_redis D" A, folded sv(1)]
  have "leaves_builtin X (sv_routes sv)" unfolding sv(1) by (rule tasks_leave_builtin [OF assms(1) sv(2)])
  from serve_one_eq [OF assms(1,2) this _ assms(7)] assms(8)
  have serve: "serve_one X render trace sv elapsed rq (?run es) = Some (track_metrics elapsed ready_handler rq (?run es))"
    by (simp add: inner_handler_def)
  have "answer_status (ready (as_world (?run es)) (as_health (?run es))) =
      (if gate_after es \<and> tw_valkey_ok (as_world (?run es)) \<and> tw_kafka_ok (as_world (?run es)) then 200 else 503)"
    unfolding flags(1) assms(5) health
    by (subst ready_distinct) (simp_all add: vk_readiness_check_def kafka_readiness_def)
  then show ?thesis
    using serve rest probe_period_positive flags track_metrics_facts(1) [of elapsed ready_handler rq "?run es"]
    by (cases "track_metrics elapsed ready_handler rq (?run es)") (simp add: ready_handler_def)
qed

text \<open>
  C25 \<open>tasks\<close> fails fast and flushes its spans: \<open>main\<close> returns success exactly when the configuration loads,
  tracing is set up, Valkey and then Kafka are reached and the server ends cleanly; a dependency that
  is not reached ends it before the server listens, with that dependency's error, Valkey's first; and
  on every way out the span provider that was built, if one was, has been shut down once.
\<close>

theorem tasks_main_outcomes:
  fixes E :: "('a, 'e) process_env"
  assumes "tasks_main X D L E tel = (r, tel')"
    and "tasks_load (le_parse L) (le_exists L) (le_read L) (le_lower L) (le_from_value L) (le_vars L) = Inr cfg"
    and "oc_enabled (tasks_otelx cfg) \<longrightarrow> pe_exporter E (oc_endpoint (tasks_otelx cfg)) = None"
  shows "tel_shut_down tel' = tel_shut_down tel @ flushed E (tasks_otelx cfg) \<and>
    (\<forall>e. vk_connect (td_redis D) (td_open D) (td_manager D) (tasks_valkey cfg) = Inl e \<longrightarrow> r = Inl (ValkeyFailed e)) \<and>
    (\<forall>c e. vk_connect (td_redis D) (td_open D) (td_manager D) (tasks_valkey cfg) = Inr c \<and>
      producer_connect (kd_create (td_kafka D)) (kd_metadata (td_kafka D)) (tasks_kafka cfg) = Inl e \<longrightarrow>
      r = Inl (KafkaFailed e)) \<and>
    (r = Inr () \<longleftrightarrow> (\<exists>sv A w periods. tasks_boot X D cfg = (Inr (sv, A, w, periods) :: ('a, 'e) main_error + _) \<and>
      fst (server_run (pe_parse_addr E) (pe_bind E) (pe_serve E) sv) = Inr ()))"
proof -
  obtain guard tel1 where g: "otelx_init (pe_filter_ok E) (pe_var E ''RUST_LOG'') (pe_exporter E) (pe_otelx_version E)
      (tasks_otelx cfg) (tc_log_level cfg) (tc_log_format cfg) tel = (Inr guard, tel1)"
    "tel_shut_down (guard_drop guard tel1) = tel_shut_down tel @ flushed E (tasks_otelx cfg)"
    by (rule otelx_guard [OF assms(3)])
  have r: "r = (case tasks_boot X D cfg of Inl e \<Rightarrow> Inl e | Inr (sv, state, w, periods) \<Rightarrow> listen E sv)"
    and "tel' = guard_drop guard tel1"
    using assms(1,2) g(1) by (auto simp: tasks_main_def split: sum.splits prod.splits)
  then have tel: "tel_shut_down tel' = tel_shut_down tel @ flushed E (tasks_otelx cfg)" using g(2) by simp
  have listen: "listen E sv = Inr () \<longleftrightarrow> fst (server_run (pe_parse_addr E) (pe_bind E) (pe_serve E) sv) = Inr ()" for sv
    by (rule listen_cases [of E sv]) auto
  have "r = Inr () \<longleftrightarrow> (\<exists>sv A w periods. tasks_boot X D cfg = (Inr (sv, A, w, periods) :: ('a, 'e) main_error + _) \<and>
      fst (server_run (pe_parse_addr E) (pe_bind E) (pe_serve E) sv) = Inr ())"
    unfolding r by (auto simp: listen split: sum.splits prod.splits)
  moreover have "\<forall>e. vk_connect (td_redis D) (td_open D) (td_manager D) (tasks_valkey cfg) = Inl e \<longrightarrow> r = Inl (ValkeyFailed e)"
    unfolding r by (simp add: tasks_boot_def)
  moreover have "\<forall>c e. vk_connect (td_redis D) (td_open D) (td_manager D) (tasks_valkey cfg) = Inr c \<and>
      producer_connect (kd_create (td_kafka D)) (kd_metadata (td_kafka D)) (tasks_kafka cfg) = Inl e \<longrightarrow>
      r = Inl (KafkaFailed e)"
    unfolding r by (auto simp: tasks_boot_def split_beta)
  ultimately show ?thesis using tel by blast
qed

text \<open>
  C26 \<open>consumer\<close> lives and dies with its server: when it is configured, tracing is set up, the broker is
  reached and commits are accepted, \<open>main\<close> returns what the server's run returns, whatever the records
  are, however many there are and whichever branch of \<open>select!\<close> is looked at first (its counters never
  clash with the server's metrics); a refused commit that ends the loop first is the error \<open>main\<close>
  returns; and on every way out the span provider has been shut down once.
\<close>

theorem consumer_main_outcomes:
  fixes E :: "('a, 'e) process_env"
  assumes "consumer_main X reg K parse commit polls server_first E tel = (r, tel')" "registry_laws reg"
    and "consumer_from_env E = Some cfg"
    and "oc_enabled (consumer_otelx cfg) \<longrightarrow> pe_exporter E (oc_endpoint (consumer_otelx cfg)) = None"
    and "consumer_connect (kd_create K) (kd_subscribe K) (kd_metadata K) (consumer_kafka cfg) = Inr (kafka_ok, period)"
  shows "tel_shut_down tel' = tel_shut_down tel @ flushed E (consumer_otelx cfg) \<and>
    (\<exists>sv. consumer_boot X reg K cfg = (Inr (sv, kafka_ok, period) :: ('a, 'e) main_error + _) \<and>
      sv_registry sv = http_metrics @ consumer_metrics \<and>
      ((\<forall>b. commit b = None) \<longrightarrow> r = listen E sv) \<and>
      (\<forall>e. fst (worker_run parse commit polls []) = Stopped e \<and> \<not> server_first \<longrightarrow> r = Inl (ConsumeFailed e)) \<and>
      (r = Inr () \<longrightarrow> fst (server_run (pe_parse_addr E) (pe_bind E) (pe_serve E) sv) = Inr ()))"
proof -
  define sv where "sv = (server_new X (consumer_httpx cfg))\<lparr>sv_registry := http_metrics @ consumer_metrics,
    sv_health := register ''kafka'' kafka_readiness health_new\<rparr>"
  have boot: "consumer_boot X reg K cfg = Inr (sv, kafka_ok, period)"
    using assms(5) by (simp add: consumer_boot_def server_new_def consumer_registers [OF assms(2)] sv_def)
  let ?st = "fst (worker_run parse commit polls [])"
  obtain guard tel1 where g: "otelx_init (pe_filter_ok E) (pe_var E ''RUST_LOG'') (pe_exporter E) (pe_otelx_version E)
      (consumer_otelx cfg) (con_log_level cfg) (con_log_format cfg) tel = (Inr guard, tel1)"
    "tel_shut_down (guard_drop guard tel1) = tel_shut_down tel @ flushed E (consumer_otelx cfg)"
    by (rule otelx_guard [OF assms(4)])
  have r: "r = select_server server_first (listen E sv) ?st" and "tel' = guard_drop guard tel1"
    using assms(1,3) g(1) by (auto simp: consumer_main_def boot split: sum.splits)
  then have tel: "tel_shut_down tel' = tel_shut_down tel @ flushed E (consumer_otelx cfg)" using g(2) by simp
  have "r = listen E sv" if "\<forall>b. commit b = None"
    using worker_run_all_committed [of polls commit parse "[]"] that by (simp add: r select_server_def)
  moreover have "fst (server_run (pe_parse_addr E) (pe_bind E) (pe_serve E) sv) = Inr ()" if "r = Inr ()"
    by (rule listen_cases [of E sv]) (use that r in \<open>auto simp: select_server_def split: loop_state.splits if_splits\<close>)
  moreover have "sv_registry sv = http_metrics @ consumer_metrics" by (simp add: sv_def)
  ultimately show ?thesis using tel boot r by (auto simp: select_server_def)
qed

text \<open>
  C27 \<open>heartbeat\<close> lives and dies with its server unless its interval is zero: its metrics never clash with the
  server's, so once it is configured and the transport can be built, \<open>main\<close> returns what the server's
  run returns, however long it ticks; with \<open>HEARTBEAT_INTERVAL_MS=0\<close> it panics as soon as the worker is
  polled, that is, unless the server's branch was polled first and failed at once.
\<close>

theorem heartbeat_main_outcomes:
  fixes E :: "('a, 'e) process_env"
  assumes "registry_laws reg" "build (client_builder upstream_client_config) = None" "heartbeat_from_env E = Some cfg" "\<forall>d. interval_ok d = (d \<noteq> 0)"
  shows "\<exists>rs. fst (heartbeat_main X reg G build ts interval_ok ticks server_first E sub) =
    (let sv = (server_new X (heartbeat_httpx cfg))\<lparr>sv_registry := rs\<rparr>
     in if hb_interval_ms cfg = 0 \<and> \<not> (server_first \<and> fails_at_once E sv) then None else Some (listen E sv))"
proof -
  obtain w rs where w: "heartbeat_new reg http_metrics G build ts (heartbeat_interval cfg) (hb_upstream_url cfg) = Inr (w, rs)"
      "wk_interval w = heartbeat_interval cfg"
    using heartbeat_registers [where build = build, OF assms(1,2)] by blast
  have ok: "interval_ok (wk_interval w) \<longleftrightarrow> hb_interval_ms cfg \<noteq> 0"
    by (simp add: assms(4) w(2) heartbeat_interval_def duration_from_millis_def unat_eq_zero)
  show ?thesis
    by (intro exI [of _ rs]) (simp add: heartbeat_main_def Let_def server_new_def heartbeat_run_def assms(3) w(1) ok)
qed

text \<open>The service routes of \<open>ping\<close>, before the limit.\<close>

definition ping_route :: "string \<Rightarrow> string option \<Rightarrow> ping_options \<Rightarrow> string \<Rightarrow> 's ping_handler option" where
  "ping_route v sha opts p =
     (if p = ''/secure'' then map_option secure_handler (api_key opts)
      else if p = ''/ping'' then Some pong_handler
      else if p = ''/version'' then Some (version_handler v sha) else None)"

lemma ping_boot_routes:
  assumes "axum_laws X" "rate_limit_rps opts > 0"
  shows "\<exists>sv l. ping_boot X G v sha cfg opts = Some (sv, Some l) \<and> leaves_builtin X (sv_routes sv) \<and>
    (\<forall>p. ax_handler X (sv_routes sv) p ''GET'' = map_option (rate_limit G) (ping_route v sha opts p))"
proof -
  obtain l where l: "per_second G (rate_limit_rps opts) = Some l" using per_second_total [of G "rate_limit_rps opts"] by blast
  have lim: "limited G opts = rate_limit G" using assms(2) by (simp add: limited_def [abs_def])
  from ping_routes_handlers [OF assms(1) l, of v sha] obtain r where
    r: "ping_routes X G v sha opts = Some (r, if rate_limit_rps opts > 0 then Some l else None)"
    and get: "\<forall>p m. m \<noteq> ''HEAD'' \<longrightarrow> ax_handler X r p m = map_option (limited G opts)
      (if p = ''/secure'' \<and> m = ''GET'' then map_option secure_handler (api_key opts)
       else if p = ''/ping'' \<and> m = ''GET'' then Some pong_handler
       else if p = ''/version'' \<and> m = ''GET'' then Some (version_handler v sha) else None)"
    by (elim exE conjE) (rule that)
  have h: "ax_handler X r p ''GET'' = map_option (rate_limit G) (ping_route v sha opts p)" for p
    using get [rule_format, of "''GET''" p] by (simp add: lim ping_route_def)
  define sv where "sv = with_routes X r (server_new X cfg)"
  have routes: "ax_handler X (sv_routes sv) p m = ax_handler X r p m" for p m
    using merge_into_new [OF assms(1)] by (simp add: sv_def with_routes_def server_new_def)
  have "leaves_builtin X (sv_routes sv)" by (simp add: leaves_builtin_def routes h ping_route_def)
  moreover have "ping_boot X G v sha cfg opts = Some (sv, Some l)"
    using assms(2) by (simp add: ping_boot_def r sv_def)
  ultimately show ?thesis using routes h by auto
qed

text \<open>The service handlers read the request only.\<close>

lemma ping_route_stateless:
  "ping_route v sha opts p = Some h \<Longrightarrow> h rq s = (fst (h rq s'), s)"
  by (auto simp: ping_route_def pong_handler_def version_handler_def secure_handler_def split: if_splits sum.splits)

text \<open>
  C32 The ping service behind the assembled server: with a rate limit, building it never panics; a request to
  a service route asks the limiter first, under the client's key, and a refusal is the 429 the client
  sees and the status it is counted under, while an admitted request gets the route's own answer; the
  built-in endpoints leave the limiter as it is.
\<close>

theorem ping_served:
  fixes s :: "'s app_state"
  assumes "axum_laws X" "\<forall>h. trace h = h" "rq_matched rq = Some p" "rq_method rq = ''GET''" "rate_limit_rps opts > 0"
  shows "\<exists>sv l. ping_boot X G v sha cfg opts = Some (sv, Some l) \<and>
    (\<forall>h ok l'. ping_route v sha opts p = Some h \<and>
        limiter_check G (rq_clock rq) (client_key (rq_headers rq)) (as_world s) = (ok, l') \<longrightarrow>
      (\<exists>a. a = (if ok = Inr () then fst (h rq s) else too_many_requests) \<and>
        serve_one X render trace sv elapsed rq s =
          Some (a, s\<lparr>as_world := l', as_metrics := http_record ''GET'' p (answer_status a) elapsed (as_metrics s)\<rparr>))) \<and>
    (p \<in> {''/healthz'', ''/readyz'', ''/metrics''} \<longrightarrow>
      (\<exists>a s'. serve_one X render trace sv elapsed rq s = Some (a, s') \<and> a \<noteq> too_many_requests \<and> as_world s' = as_world s))"
proof -
  obtain sv l where boot: "ping_boot X G v sha cfg opts = Some (sv, Some l)" "leaves_builtin X (sv_routes sv)"
    "\<forall>p. ax_handler X (sv_routes sv) p ''GET'' = map_option (rate_limit G) (ping_route v sha opts p)"
    using ping_boot_routes [OF assms(1,5)] by blast
  have get: "rq_method rq \<noteq> ''HEAD''" using assms(4) by simp
  note serve = serve_one_eq [OF assms(1,2) boot(2) get assms(3), of render elapsed s]
  have inner: "inner_handler X render sv p ''GET'' = Some (rate_limit G h)" if "ping_route v sha opts p = Some h" for h
    using that boot(3) by (auto simp: inner_handler_def ping_route_def split: if_splits)
  have route: "serve_one X render trace sv elapsed rq s =
      Some (a, s\<lparr>as_world := l', as_metrics := http_record ''GET'' p (answer_status a) elapsed (as_metrics s)\<rparr>)"
    if "ping_route v sha opts p = Some h" "a = (if ok = Inr () then fst (h rq s) else too_many_requests)"
      "limiter_check G (rq_clock rq) (client_key (rq_headers rq)) (as_world s) = (ok, l')" for h ok l' a
  proof -
    have "rate_limit G h rq s = (a, s\<lparr>as_world := l'\<rparr>)"
      using that(2,3) ping_route_stateless [OF that(1), of rq "s\<lparr>as_world := l'\<rparr>" s]
      by (cases ok) (auto simp: rate_limit_eq)
    then show ?thesis
      using serve inner [OF that(1)] by (simp add: assms(3,4) track_metrics_def Let_def)
  qed
  have "\<exists>a s'. serve_one X render trace sv elapsed rq s = Some (a, s') \<and> a \<noteq> too_many_requests \<and> as_world s' = as_world s"
    if "inner_handler X render sv p ''GET'' = Some h" "fst (h rq s) \<noteq> too_many_requests" "snd (h rq s) = s" for h
    using serve that track_metrics_facts(1,2) [of elapsed h rq s]
    by (cases "track_metrics elapsed h rq s") (simp add: assms(4))
  note builtin = this [of live_handler] this [of ready_handler] this [of "metrics_handler render"]
  have "\<exists>a s'. serve_one X render trace sv elapsed rq s = Some (a, s') \<and> a \<noteq> too_many_requests \<and> as_world s' = as_world s"
    if "p \<in> {''/healthz'', ''/readyz'', ''/metrics''}"
    using that builtin
    by (auto simp: inner_handler_def live_handler_def live_def ready_handler_def ready_def metrics_handler_def
        too_many_requests_def Let_def split_beta)
  then show ?thesis using boot(1) route by blast
qed

section \<open>Examples\<close>

text \<open>A process with an empty environment whose server stops cleanly, and reachable dependencies.\<close>

definition quiet_process :: "(unit, string) process_env" where
  "quiet_process =
     \<lparr>pe_envy = (\<lambda>prefix. Map.empty), pe_scalars = string_scalars, pe_de_f64 = (\<lambda>s. None), pe_var = Map.empty,
      pe_filter_ok = (\<lambda>s. True), pe_exporter = (\<lambda>s. None), pe_otelx_version = ''0'',
      pe_parse_addr = (\<lambda>s. Inr ()), pe_bind = (\<lambda>a. Inr ()), pe_bind_now = (\<lambda>a. True), pe_serve = Inr CtrlC\<rparr>"

definition kafka_up :: "string kafka_driver" where
  "kafka_up = \<lparr>kd_create = (\<lambda>c. None), kd_subscribe = (\<lambda>t. None), kd_metadata = (\<lambda>d. None)\<rparr>"

definition mem_deps :: "(mem_server, string, record_out list) tasks_deps" where
  "mem_deps =
     \<lparr>td_redis = mem_redis, td_open = (\<lambda>u. None), td_manager = (\<lambda>u. Inr empty_server), td_codec = toy_codec,
      td_kafka = kafka_up, td_broker = [], td_deliver = (\<lambda>r d k. (Inr (), k @ [r])), td_to_vec = (\<lambda>j. Inr [1])\<rparr>"

definition default_tasks_config :: tasks_config where
  "default_tasks_config =
     \<lparr>tc_addr = tasks_default_addr, tc_shutdown_timeout_secs = tasks_default_shutdown_secs,
      tc_log_level = tasks_default_log_level, tc_log_format = tasks_default_log_format,
      tc_valkey_url = tasks_default_valkey_url, tc_valkey_probe_secs = tasks_default_probe_secs,
      tc_kafka_brokers = tasks_default_brokers, tc_kafka_topic = tasks_default_topic,
      tc_kafka_client_id = tasks_default_client_id, tc_kafka_probe_secs = tasks_default_probe_secs,
      tc_otel_enabled = False, tc_otel_service_name = tasks_default_service,
      tc_otel_endpoint = tasks_default_endpoint, tc_otel_sampler_ratio = tasks_default_ratio\<rparr>"

definition default_tasks_load :: "string load_env" where
  "default_tasks_load =
     \<lparr>le_parse = (\<lambda>s. Inl []), le_exists = (\<lambda>p. False), le_read = (\<lambda>p. Inl []), le_lower = (\<lambda>s. s),
      le_from_value = (\<lambda>y. Inr default_tasks_config), le_vars = []\<rparr>"

definition no_telemetry :: telemetry where
  "no_telemetry = \<lparr>tel_propagator = False, tel_subscriber = None, tel_provider = None, tel_shut_down = []\<rparr>"

lemma mem_connects:
  "vk_connect (td_redis mem_deps) (td_open mem_deps) (td_manager mem_deps) cfg =
     Inr (empty_server, True, duration_from_secs (max (vc_probe_secs cfg) 1))"
  by (simp add: vk_connect_def mem_deps_def mem_redis_def)

lemma default_tasks_loads:
  "tasks_load (le_parse default_tasks_load) (le_exists default_tasks_load) (le_read default_tasks_load)
     (le_lower default_tasks_load) (le_from_value default_tasks_load) (le_vars default_tasks_load) = Inr default_tasks_config"
  by (simp add: default_tasks_load_def tasks_load_def load_yaml_def load_root_def)

theorem tasks_ready_tracks_probes_witness:
  "\<exists>sv A w ps a s'. tasks_boot (table_axum :: (_, (unit, _, _) task_handler) axum) mem_deps default_tasks_config =
       (Inr (sv, A, w, ps) :: (unit, string) main_error + _) \<and>
     serve_one table_axum (\<lambda>us. []) (\<lambda>h. h) sv (Fin 0) (sample_task_request ''/readyz'' ''GET'')
       (tasks_run table_axum (\<lambda>us. []) (\<lambda>h. h) mem_redis sv
         \<lparr>as_metrics = [], as_health = sv_health sv, as_world = w\<rparr>
         [Listening, KafkaProbe (Some True), ValkeyProbe, KafkaProbe None, Request (Fin 0) (sample_task_request ''/tasks'' ''POST'')]) =
       Some (a, s') \<and> answer_status a = 503"
proof -
  let ?es = "[Listening, KafkaProbe (Some True), ValkeyProbe, KafkaProbe None, Request (Fin 0) (sample_task_request ''/tasks'' ''POST'')]"
  obtain sv A w ps where boot: "tasks_boot (table_axum :: (_, (unit, _, _) task_handler) axum) mem_deps default_tasks_config =
      (Inr (sv, A, w, ps) :: (unit, string) main_error + _)"
    by (simp add: tasks_boot_def vk_connect_def producer_connect_def mem_deps_def mem_redis_def kafka_up_def Let_def)
  let ?s = "\<lparr>as_metrics = [], as_health = sv_health sv, as_world = w\<rparr>"
  have rq: "rq_matched (sample_task_request p m) = Some p" "rq_method (sample_task_request p m) = m" for p m
    by (simp_all add: sample_task_request_def)
  have "list_all plain_event ?es" by (simp add: rq)
  moreover have "\<not> last_kafka ?es" by (simp add: last_kafka_def)
  moreover have "td_redis mem_deps = mem_redis" by (simp add: mem_deps_def)
  ultimately show ?thesis
    using tasks_ready_tracks_probes [OF table_axum_laws allI [OF refl] boot _ _ _ rq, of ?s ?es "\<lambda>us. []" "Fin 0"] boot
    by auto
qed

theorem tasks_main_outcomes_witness:
  "fst (tasks_main (table_axum :: (_, (unit, _, _) task_handler) axum)
     (mem_deps\<lparr>td_kafka := kafka_up\<lparr>kd_metadata := (\<lambda>d. Some ''timed out'')\<rparr>\<rparr>) default_tasks_load quiet_process no_telemetry) =
   Inl (KafkaFailed ''timed out'')"
proof -
  let ?D = "mem_deps\<lparr>td_kafka := kafka_up\<lparr>kd_metadata := (\<lambda>d. Some ''timed out'')\<rparr>\<rparr>"
  obtain r tel' where r: "tasks_main (table_axum :: (_, (unit, _, _) task_handler) axum) ?D default_tasks_load quiet_process
      no_telemetry = (r, tel')" by fastforce
  have "\<not> oc_enabled (tasks_otelx default_tasks_config)" by (simp add: tasks_otelx_def default_tasks_config_def)
  moreover have "\<exists>c. vk_connect (td_redis ?D) (td_open ?D) (td_manager ?D) (tasks_valkey default_tasks_config) = Inr c"
    using mem_connects [of "tasks_valkey default_tasks_config"] by (intro exI) simp
  moreover have "producer_connect (kd_create (td_kafka ?D)) (kd_metadata (td_kafka ?D)) (tasks_kafka default_tasks_config) =
      Inl ''timed out''"
    by (simp add: producer_connect_def kafka_up_def)
  ultimately show ?thesis using tasks_main_outcomes [OF r default_tasks_loads] r by auto
qed

theorem consumer_main_outcomes_witness:
  "fst (consumer_main (table_axum :: (_, (unit, bool) handler) axum) name_registry kafka_up (\<lambda>b. None) (\<lambda>b. None)
     [Inr \<lparr>bm_topic = ''t'', bm_key = None, bm_payload = None, bm_partition = 0, bm_offset = 0\<rparr>, Inl ()] False
     quiet_process no_telemetry) = Inr ()"
proof -
  let ?polls = "[Inr \<lparr>bm_topic = ''t'', bm_key = None, bm_payload = None, bm_partition = 0, bm_offset = 0\<rparr>, Inl ()]"
  obtain r tel' where r: "consumer_main (table_axum :: (_, (unit, bool) handler) axum) name_registry kafka_up (\<lambda>b. None)
      (\<lambda>b. None) ?polls False quiet_process no_telemetry = (r, tel')" by fastforce
  obtain cfg where cfg: "consumer_from_env quiet_process = Some cfg" "\<not> oc_enabled (consumer_otelx cfg)"
    by (simp add: consumer_from_env_def quiet_process_def consumer_config_de_def consumer_otelx_def)
  have "\<exists>p. consumer_connect (kd_create kafka_up) (kd_subscribe kafka_up) (kd_metadata kafka_up) (consumer_kafka cfg) = Inr (True, p)"
    by (simp add: consumer_connect_def kafka_up_def)
  then obtain p where p: "consumer_connect (kd_create kafka_up) (kd_subscribe kafka_up) (kd_metadata kafka_up)
      (consumer_kafka cfg) = Inr (True, p)" by blast
  have "listen quiet_process sv = Inr ()" for sv :: "('r, 'w) server"
    by (simp add: listen_def server_run_def quiet_process_def Let_def)
  with consumer_main_outcomes [OF r name_registry_laws cfg(1) _ p] cfg(2) r show ?thesis by auto
qed

theorem heartbeat_main_outcomes_witness:
  "fst (heartbeat_main (table_axum :: (_, (unit, unit) handler) axum) name_registry sample_limiter (\<lambda>b. None) (\<lambda>i. 0)
     (\<lambda>d. d \<noteq> 0) [] False
     (quiet_process\<lparr>pe_envy := (\<lambda>prefix. [''interval_ms'' \<mapsto> ''0'']), pe_scalars := string_scalars\<lparr>de_u64 := (\<lambda>s. Some 0)\<rparr>\<rparr>)
     None) = None"
proof -
  let ?E = "quiet_process\<lparr>pe_envy := (\<lambda>prefix. [''interval_ms'' \<mapsto> ''0'']), pe_scalars := string_scalars\<lparr>de_u64 := (\<lambda>s. Some 0)\<rparr>\<rparr>"
  define cfg where "cfg = \<lparr>hb_addr = heartbeat_default_addr, hb_shutdown_timeout_secs = default_shutdown_secs,
    hb_log_level = default_log_level, hb_log_format = default_log_format, hb_interval_ms = 0, hb_upstream_url = None\<rparr>"
  have cfg: "heartbeat_from_env ?E = Some cfg"
    by (simp add: heartbeat_from_env_def quiet_process_def heartbeat_config_de_def service_defaults cfg_def)
  have "hb_interval_ms cfg = 0" by (simp add: cfg_def)
  with heartbeat_main_outcomes [OF name_registry_laws _ cfg, of "\<lambda>b. None" "\<lambda>d. d \<noteq> 0"
      "table_axum :: (_, (unit, unit) handler) axum" sample_limiter "\<lambda>i. 0" "[]" False None]
  show ?thesis by simp
qed

text \<open>A client that has used up its budget of five.\<close>

definition sample_ping_options :: ping_options where
  "sample_ping_options = \<lparr>rate_limit_rps = 5, api_key = Some ''k''\<rparr>"

definition sample_ping_request :: ping_request where
  "sample_ping_request =
     \<lparr>rq_method = ''GET'', rq_matched = Some ''/secure'', rq_headers = [(''x-real-ip'', ''a'')], rq_query = Inr \<lparr>q_msg = None\<rparr>, rq_clock = 0\<rparr>"

definition sample_ping_state :: "(u32 \<times> (string \<Rightarrow> nat)) app_state" where
  "sample_ping_state = \<lparr>as_metrics = [], as_health = health_new, as_world = (5, \<lambda>k. 5)\<rparr>"

theorem ping_served_witness:
  "\<exists>sv l s'. ping_boot table_axum bucket_governor ''1'' None (tasks_httpx default_tasks_config) sample_ping_options = Some (sv, Some l) \<and>
     serve_one table_axum (\<lambda>us. []) (\<lambda>h. h) sv (Fin 0) sample_ping_request sample_ping_state = Some (too_many_requests, s')"
proof -
  let ?cfg = "tasks_httpx default_tasks_config" and ?rq = sample_ping_request
  obtain ok l' where l': "limiter_check bucket_governor (rq_clock ?rq) (client_key (rq_headers ?rq)) (as_world sample_ping_state) = (ok, l')"
    by (metis surj_pair)
  have ok: "ok \<noteq> Inr ()" using l' by (auto simp: limiter_check_def bucket_governor_def sample_ping_state_def)
  have h: "ping_route ''1'' None sample_ping_options ''/secure'' = Some (secure_handler ''k'')"
    by (simp add: ping_route_def sample_ping_options_def)
  have rq: "rq_matched ?rq = Some ''/secure''" "rq_method ?rq = ''GET''" by (simp_all add: sample_ping_request_def)
  have "0 < rate_limit_rps sample_ping_options" by (simp add: sample_ping_options_def)
  note served = ping_served [OF table_axum_laws allI [OF refl] rq this, of bucket_governor "''1''" None ?cfg sample_ping_state
      "\<lambda>us. []" "Fin 0"]
  from served show ?thesis
  proof (elim exE conjE, goal_cases)
    case (1 sv l)
    from 1(2) [rule_format, OF conjI [OF h l']] 1(1) ok show ?case by auto
  qed
qed

end
