(* ===== verification/Store_Conc.thy ===== *)
theory Store_Conc
  imports Task_Store Transition_Systems
begin

text \<open>
  The task store under concurrent requests: \<open>crates/tasks/src/store.rs\<close> with every operation cut at its
  awaits.  Each step of an operation is one command of the cache handle, which Valkey executes
  atomically; between two steps any other operation may run.
\<close>

section \<open>Operations as tasks\<close>

text \<open>Where an operation stands, and what it has returned.\<close>

datatype 'e store_task =
    Creating task
  | Indexing task
  | Created task "'e + unit"
  | Getting string
  | Got string "'e + task option"
  | Deleting string
  | Removing string
  | Unindexing string
  | Deleted string "'e + bool"
  | Listing
  | Fetching "string list" "task list"
  | Listed "'e + task list"

fun store_op_step ::
  "('s, 'e) redis \<Rightarrow> (task, 'e) codec \<Rightarrow> 'e store_task \<Rightarrow> 's \<Rightarrow> ('e store_task \<times> 's) option" where
  "store_op_step R C (Creating t) s =
     (case vk_set_json R C (task_key (t_id t)) t None s of
        (Inl e, s) \<Rightarrow> Some (Created t (Inl e), s)
      | (Inr _, s) \<Rightarrow> Some (Indexing t, s))"
| "store_op_step R C (Indexing t) s =
     (let (r, s) = vk_set_add R INDEX_KEY (t_id t) s in Some (Created t r, s))"
| "store_op_step R C (Getting i) s =
     (let (r, s) = vk_get_json R C (task_key i) s in Some (Got i r, s))"
| "store_op_step R C (Deleting i) s =
     (case vk_get_json R C (task_key i) s of
        (Inl e, s) \<Rightarrow> Some (Deleted i (Inl e), s)
      | (Inr found, s) \<Rightarrow> Some (if found \<noteq> None then Removing i else Deleted i (Inr False), s))"
| "store_op_step R C (Removing i) s =
     (case vk_del R (task_key i) s of
        (Inl e, s) \<Rightarrow> Some (Deleted i (Inl e), s)
      | (Inr _, s) \<Rightarrow> Some (Unindexing i, s))"
| "store_op_step R C (Unindexing i) s =
     (case vk_set_remove R INDEX_KEY i s of
        (Inl e, s) \<Rightarrow> Some (Deleted i (Inl e), s)
      | (Inr _, s) \<Rightarrow> Some (Deleted i (Inr True), s))"
| "store_op_step R C Listing s =
     (case vk_set_members R INDEX_KEY s of
        (Inl e, s) \<Rightarrow> Some (Listed (Inl e), s)
      | (Inr ids, s) \<Rightarrow> Some (Fetching ids [], s))"
| "store_op_step R C (Fetching [] ts) s = Some (Listed (Inr (newest_first ts)), s)"
| "store_op_step R C (Fetching (i # ids) ts) s =
     (case vk_get_json R C (task_key i) s of
        (Inl e, s) \<Rightarrow> Some (Listed (Inl e), s)
      | (Inr found, s) \<Rightarrow> Some (Fetching ids (case found of Some t \<Rightarrow> ts @ [t] | None \<Rightarrow> ts), s))"
| "store_op_step R C (Created t r) s = None"
| "store_op_step R C (Got i v) s = None"
| "store_op_step R C (Deleted i b) s = None"
| "store_op_step R C (Listed l) s = None"

text \<open>The steps by the command they issue.\<close>

lemma store_op_step_cases [consumes 1, case_names set index get look remove unindex members sort fetch]:
  assumes "store_op_step R C q s = Some (p, s')"
  obtains
    t r where "q = Creating t" "vk_set_json R C (task_key (t_id t)) t None s = (r, s')"
      "p = (case r of Inl e \<Rightarrow> Created t (Inl e) | Inr _ \<Rightarrow> Indexing t)"
  | t r where "q = Indexing t" "vk_set_add R INDEX_KEY (t_id t) s = (r, s')" "p = Created t r"
  | i r where "q = Getting i" "vk_get_json R C (task_key i) s = (r, s')" "p = Got i r"
  | i r where "q = Deleting i" "vk_get_json R C (task_key i) s = (r, s')"
      "p = (case r of Inl e \<Rightarrow> Deleted i (Inl e) | Inr found \<Rightarrow> if found \<noteq> None then Removing i else Deleted i (Inr False))"
  | i r where "q = Removing i" "vk_del R (task_key i) s = (r, s')"
      "p = (case r of Inl e \<Rightarrow> Deleted i (Inl e) | Inr _ \<Rightarrow> Unindexing i)"
  | i r where "q = Unindexing i" "vk_set_remove R INDEX_KEY i s = (r, s')"
      "p = Deleted i (case r of Inl e \<Rightarrow> Inl e | Inr _ \<Rightarrow> Inr True)"
  | r where "q = Listing" "vk_set_members R INDEX_KEY s = (r, s')"
      "p = (case r of Inl e \<Rightarrow> Listed (Inl e) | Inr ids \<Rightarrow> Fetching ids [])"
  | ts where "q = Fetching [] ts" "s' = s" "p = Listed (Inr (newest_first ts))"
  | i ids ts r where "q = Fetching (i # ids) ts" "vk_get_json R C (task_key i) s = (r, s')"
      "p = (case r of Inl e \<Rightarrow> Listed (Inl e)
            | Inr found \<Rightarrow> Fetching ids (case found of Some t \<Rightarrow> ts @ [t] | None \<Rightarrow> ts))"
  using assms
  by (induction R C q s rule: store_op_step.induct) (auto simp: Let_def split: prod.splits sum.splits)

record ('s, 'e) store_system =
  sy_server :: 's
  sy_ops :: "'e store_task list"

inductive store_system_step ::
  "('s, 'e) redis \<Rightarrow> (task, 'e) codec \<Rightarrow> ('s, 'e) store_system \<Rightarrow> ('s, 'e) store_system \<Rightarrow> bool" for R C where
  op: "j < length (sy_ops y) \<Longrightarrow> store_op_step R C (sy_ops y ! j) (sy_server y) = Some (p, s) \<Longrightarrow>
    store_system_step R C y (y\<lparr>sy_server := s, sy_ops := (sy_ops y)[j := p]\<rparr>)"

text \<open>A schedule names the operation that runs next.\<close>

fun run_schedule ::
  "('s, 'e) redis \<Rightarrow> (task, 'e) codec \<Rightarrow> nat list \<Rightarrow> ('s, 'e) store_system \<Rightarrow> ('s, 'e) store_system" where
  "run_schedule R C [] y = y"
| "run_schedule R C (j # js) y =
     run_schedule R C js
       (if j < length (sy_ops y)
        then (case store_op_step R C (sy_ops y ! j) (sy_server y) of
                None \<Rightarrow> y
              | Some (p, s) \<Rightarrow> y\<lparr>sy_server := s, sy_ops := (sy_ops y)[j := p]\<rparr>)
        else y)"

lemma run_schedule_steps: "(store_system_step R C)\<^sup>*\<^sup>* y (run_schedule R C js y)"
proof (induction js arbitrary: y)
  case (Cons j js)
  let ?y = "if j < length (sy_ops y)
    then (case store_op_step R C (sy_ops y ! j) (sy_server y) of
            None \<Rightarrow> y | Some (p, s) \<Rightarrow> y\<lparr>sy_server := s, sy_ops := (sy_ops y)[j := p]\<rparr>)
    else y"
  have "(store_system_step R C)\<^sup>*\<^sup>* y ?y"
    by (auto intro: store_system_step.op split: option.split)
  with Cons.IH [of ?y] show ?case by (simp only: run_schedule.simps)
qed simp

section \<open>Without interference\<close>

text \<open>An operation run to its end, for as many steps as it needs.\<close>

fun run_op :: "nat \<Rightarrow> ('s, 'e) redis \<Rightarrow> (task, 'e) codec \<Rightarrow> 'e store_task \<Rightarrow> 's \<Rightarrow> 'e store_task \<times> 's" where
  "run_op 0 R C p s = (p, s)"
| "run_op (Suc n) R C p s =
     (case store_op_step R C p s of None \<Rightarrow> (p, s) | Some (p, s) \<Rightarrow> run_op n R C p s)"

lemma run_op_done [simp]: "store_op_step R C p s = None \<Longrightarrow> run_op n R C p s = (p, s)"
  by (cases n) simp_all

lemma run_fetching:
  "run_op (Suc (length ids)) R C (Fetching ids ts) s =
     (case fetch_all R C ids s of
        (Inl e, s) \<Rightarrow> (Listed (Inl e), s)
      | (Inr us, s) \<Rightarrow> (Listed (Inr (newest_first (ts @ us))), s))"
proof (induction ids arbitrary: ts s)
  case (Cons i ids)
  obtain g s1 where g: "vk_get_json R C (task_key i) s = (g, s1)" by fastforce
  show ?case
  proof (cases g)
    case (Inl e)
    then show ?thesis using g by simp
  next
    case (Inr found)
    have "run_op (Suc (length (i # ids))) R C (Fetching (i # ids) ts) s =
        run_op (Suc (length ids)) R C (Fetching ids (case found of Some t \<Rightarrow> ts @ [t] | None \<Rightarrow> ts)) s1"
      using g Inr by simp
    then show ?thesis
      unfolding Cons.IH using g Inr by (cases found) (auto split: prod.split sum.split)
  qed
qed simp

lemma solo_operations:
  "run_op 2 R C (Creating t) s = (case store_create R C t s of (r, s) \<Rightarrow> (Created t r, s))"
  "run_op 1 R C (Getting i) s = (case store_get R C i s of (r, s) \<Rightarrow> (Got i r, s))"
  "run_op 3 R C (Deleting i) s = (case store_delete R C i s of (r, s) \<Rightarrow> (Deleted i r, s))"
  "\<exists>n. run_op n R C Listing s = (case store_list R C s of (r, s) \<Rightarrow> (Listed r, s))"
proof -
  show "run_op 2 R C (Creating t) s = (case store_create R C t s of (r, s) \<Rightarrow> (Created t r, s))"
    by (auto simp: numeral_2_eq_2 store_create_def split: prod.splits sum.splits)
  show "run_op 1 R C (Getting i) s = (case store_get R C i s of (r, s) \<Rightarrow> (Got i r, s))"
    by (simp add: store_get_def split: prod.split)
  show "run_op 3 R C (Deleting i) s = (case store_delete R C i s of (r, s) \<Rightarrow> (Deleted i r, s))"
    by (auto simp: numeral_3_eq_3 store_delete_def store_get_def split: prod.splits sum.splits)
  obtain r s1 where m: "vk_set_members R INDEX_KEY s = (r, s1)" by fastforce
  show "\<exists>n. run_op n R C Listing s = (case store_list R C s of (r, s) \<Rightarrow> (Listed r, s))"
  proof (cases r)
    case (Inl e)
    then show ?thesis using m by (intro exI [of _ 1]) (simp add: store_list_def)
  next
    case (Inr ids)
    have "run_op (Suc (Suc (length ids))) R C Listing s = run_op (Suc (length ids)) R C (Fetching ids []) s1"
      using m Inr by simp
    then show ?thesis
      using m Inr unfolding run_fetching
      by (intro exI [of _ "Suc (Suc (length ids))"]) (auto simp: store_list_def split: prod.split sum.split)
  qed
qed

section \<open>What the operations have done so far\<close>

fun creates :: "'e store_task \<Rightarrow> task option" where
  "creates (Creating t) = Some t"
| "creates (Indexing t) = Some t"
| "creates (Created t r) = Some t"
| "creates _ = None"

text \<open>The id an operation keeps out of the dictionary: not stored yet, or deleted.\<close>

fun hides :: "'e store_task \<Rightarrow> string option" where
  "hides (Creating t) = Some (t_id t)"
| "hides (Unindexing i) = Some i"
| "hides (Deleted i (Inr True)) = Some i"
| "hides _ = None"

fun deletes :: "'e store_task \<Rightarrow> string option" where
  "deletes (Removing i) = Some i"
| "deletes (Unindexing i) = Some i"
| "deletes (Deleted i (Inr True)) = Some i"
| "deletes _ = None"

fun failed :: "'e store_task \<Rightarrow> bool" where
  "failed (Created t r) = (\<exists>e. r = Inl e)"
| "failed (Got i r) = (\<exists>e. r = Inl e)"
| "failed (Deleted i r) = (\<exists>e. r = Inl e)"
| "failed (Listed r) = (\<exists>e. r = Inl e)"
| "failed _ = False"

definition ever :: "(string \<rightharpoonup> task) \<Rightarrow> 'e store_task list \<Rightarrow> string \<rightharpoonup> task" where
  "ever m ops = m ++ map_of (map (\<lambda>t. (t_id t, t)) (List.map_filter creates ops))"

definition dict :: "(string \<rightharpoonup> task) \<Rightarrow> 'e store_task list \<Rightarrow> string \<rightharpoonup> task" where
  "dict m ops i = (if Some i \<in> hides ` set ops then None else ever m ops i)"

text \<open>Every create has an id of its own, new to the store.\<close>

definition fresh_ids :: "(string \<rightharpoonup> task) \<Rightarrow> 'e store_task list \<Rightarrow> bool" where
  "fresh_ids m ops \<longleftrightarrow>
     distinct (map t_id (List.map_filter creates ops)) \<and> (\<forall>t \<in> set (List.map_filter creates ops). m (t_id t) = None)"

lemma creates_step: "store_op_step R C p s = Some (p', s') \<Longrightarrow> creates p' = creates p"
  by (induction R C p s rule: store_op_step.induct) (auto split: prod.splits sum.splits if_splits)

lemma creates_unique_less:
  assumes "distinct (map t_id (List.map_filter creates ops))" "j < k" "k < length ops"
    and "creates (ops ! j) = Some t" "creates (ops ! k) = Some u"
  shows "t_id t \<noteq> t_id u"
proof -
  obtain xs q zs where ops: "ops = xs @ q # zs" "length xs = k"
    using id_take_nth_drop [OF assms(3)] assms(3) by (metis length_take min.absorb4)
  have "ops ! j \<in> set xs" using assms(2) ops by (simp add: nth_append)
  then have "t \<in> set (List.map_filter creates xs)" using assms(4) by (auto simp: set_map_filter)
  moreover have "creates q = Some u" using assms(5) unfolding ops(1) ops(2) [symmetric] by simp
  then have "distinct (map t_id (List.map_filter creates xs) @ t_id u # map t_id (List.map_filter creates zs))"
    using assms(1) by (simp add: ops(1) List.map_filter_def)
  ultimately have "t_id t \<in> t_id ` set (List.map_filter creates xs)"
    "t_id u \<notin> t_id ` set (List.map_filter creates xs)" by auto
  then show ?thesis by metis
qed

lemma creates_unique:
  assumes "distinct (map t_id (List.map_filter creates ops))" "j < length ops" "k < length ops" "j \<noteq> k"
    and "creates (ops ! j) = Some t" "creates (ops ! k) = Some u"
  shows "t_id t \<noteq> t_id u"
  using creates_unique_less [OF assms(1), of j k t u] creates_unique_less [OF assms(1), of k j u t] assms
  by (metis linorder_neqE_nat)

lemma ever_update: "creates p = creates (ops ! j) \<Longrightarrow> ever m (ops[j := p]) = ever m ops"
  by (simp add: ever_def map_filter_update)

lemma ever_created:
  assumes "fresh_ids m ops" "creates p = Some t" "p \<in> set ops"
  shows "ever m ops (t_id t) = Some t"
proof -
  have "t \<in> set (List.map_filter creates ops)" using assms(2,3) by (auto simp: set_map_filter)
  then have "map_of (map (\<lambda>t. (t_id t, t)) (List.map_filter creates ops)) (t_id t) = Some t"
    using assms(1) by (intro map_of_is_SomeI) (auto simp: fresh_ids_def comp_def)
  then show ?thesis by (simp add: ever_def)
qed

text \<open>The ids an operation keeps out, after the step of another one.\<close>

lemma hides_update:
  assumes "j < length ops" "hides p = hides (ops ! j)"
  shows "hides ` set (ops[j := p]) = hides ` set ops"
proof -
  have "map hides (ops[j := p]) = map hides ops"
    using assms by (simp add: map_update list_update_same_conv)
  then show ?thesis by (metis list.set_map)
qed

lemma hides_other:
  assumes "j < length ops" "hides p \<noteq> Some i" "hides (ops ! j) \<noteq> Some i"
  shows "Some i \<in> hides ` set (ops[j := p]) \<longleftrightarrow> Some i \<in> hides ` set ops"
proof
  assume "Some i \<in> hides ` set ops"
  then obtain k where "k < length ops" "hides (ops ! k) = Some i" by (force simp: in_set_conv_nth)
  moreover from this assms(3) have "k \<noteq> j" by auto
  ultimately have "ops ! k \<in> set (ops[j := p])" by (metis length_list_update nth_list_update_neq nth_mem)
  then show "Some i \<in> hides ` set (ops[j := p])" using \<open>hides (ops ! k) = Some i\<close> by force
next
  assume "Some i \<in> hides ` set (ops[j := p])"
  then obtain q where "q \<in> set (ops[j := p])" "hides q = Some i" by force
  then show "Some i \<in> hides ` set ops" using in_update [of q ops j p] assms(1,2) by (metis image_eqI nth_mem)
qed

lemma hides_cases: "hides q = Some i \<Longrightarrow> (\<exists>u. q = Creating u \<and> t_id u = i) \<or> deletes q = Some i"
  by (cases q rule: hides.cases) auto

section \<open>The invariant\<close>

definition consistent ::
  "('s, 'e) redis \<Rightarrow> (task, 'e) codec \<Rightarrow> ('s \<Rightarrow> string \<Rightarrow> string option) \<Rightarrow> ('s \<Rightarrow> string \<Rightarrow> string set) \<Rightarrow>
   (string \<rightharpoonup> task) \<Rightarrow> 's \<Rightarrow> 'e store_task list \<Rightarrow> bool" where
  "consistent R C kv sets m s ops \<longleftrightarrow>
     (\<forall>i. holds_entry C (kv s (task_key i)) i (dict m ops i)) \<and>
     (\<forall>i \<in> dom (dict m ops). i \<in> sets s INDEX_KEY \<or> (\<exists>t. Indexing t \<in> set ops \<and> t_id t = i)) \<and>
     (\<forall>t p. Creating t \<in> set ops \<longrightarrow> p \<in> set ops \<longrightarrow> deletes p \<noteq> Some (t_id t))"

lemma consistentD:
  assumes "consistent R C kv sets m s ops"
  shows "holds_entry C (kv s (task_key i)) i (dict m ops i)"
    "dict m ops i = Some u \<Longrightarrow> i \<in> sets s INDEX_KEY \<or> (\<exists>t. Indexing t \<in> set ops \<and> t_id t = i)"
    "Creating t \<in> set ops \<Longrightarrow> p \<in> set ops \<Longrightarrow> deletes p \<noteq> Some (t_id t)"
  using assms unfolding consistent_def by blast+

lemma consistentI:
  assumes "\<And>i. holds_entry C (kv s (task_key i)) i (dict m ops i)"
    and "\<And>i u. dict m ops i = Some u \<Longrightarrow> i \<in> sets s INDEX_KEY \<or> (\<exists>t. Indexing t \<in> set ops \<and> t_id t = i)"
    and "\<And>t p. Creating t \<in> set ops \<Longrightarrow> p \<in> set ops \<Longrightarrow> deletes p \<noteq> Some (t_id t)"
  shows "consistent R C kv sets m s ops"
  using assms unfolding consistent_def dom_def by blast

lemma indexing_update:
  assumes "Indexing t \<in> set ops" "\<And>u. ops ! j \<noteq> Indexing u"
  shows "Indexing t \<in> set (ops[j := p])"
  using assms by (metis in_set_conv_nth length_list_update nth_list_update_neq)

text \<open>A step that reads: the server is unchanged and the operation hides and deletes what it did.\<close>

lemma consistent_read:
  assumes "consistent R C kv sets m s ops" "j < length ops" "kv s' = kv s" "sets s' = sets s"
    and "creates p = creates (ops ! j)" "hides p = hides (ops ! j)"
    and "\<forall>t. p \<noteq> Creating t \<and> ops ! j \<noteq> Indexing t" "deletes p \<noteq> None \<longrightarrow> (\<exists>i u. deletes p = Some i \<and> dict m ops i = Some u)"
  shows "consistent R C kv sets m s' (ops[j := p])"
proof -
  have d: "dict m (ops[j := p]) = dict m ops"
    using assms(2,5,6) by (simp add: dict_def fun_eq_iff hides_update ever_update)
  have old: "Creating t \<in> set ops" if "Creating t \<in> set (ops[j := p])" for t
    using in_update [OF that assms(2)] assms(7) by auto
  have del: "deletes q \<noteq> Some (t_id t)" if "Creating t \<in> set (ops[j := p])" "q \<in> set (ops[j := p])" for t q
  proof
    assume q: "deletes q = Some (t_id t)"
    have "Some (t_id t) \<in> hides ` set ops" using old [OF that(1)] by force
    then have "dict m ops (t_id t) = None" by (simp add: dict_def)
    with in_update [OF that(2) assms(2)] q assms(8) consistentD(3) [OF assms(1) old [OF that(1)]] show False by force
  qed
  show ?thesis
  proof (rule consistentI)
    show "i \<in> sets s' INDEX_KEY \<or> (\<exists>t. Indexing t \<in> set (ops[j := p]) \<and> t_id t = i)"
      if "dict m (ops[j := p]) i = Some u" for i u
      using consistentD(2) [OF assms(1) that [unfolded d]] assms(4,7) indexing_update by metis
  qed (use consistentD(1) [OF assms(1)] del d assms(3) in simp_all)
qed

text \<open>The four steps that write.\<close>

lemma dict_set:
  assumes "consistent R C kv sets m s ops" "fresh_ids m ops" "j < length ops" "ops ! j = Creating t"
  shows "dict m (ops[j := Indexing t]) = (dict m ops)(t_id t \<mapsto> t)"
proof -
  have t: "Creating t \<in> set ops" using assms(3,4) by (metis nth_mem)
  have ever: "ever m (ops[j := Indexing t]) = ever m ops" using assms(4) by (intro ever_update) simp
  have "hides q \<noteq> Some (t_id t)" if "q \<in> set (ops[j := Indexing t])" for q
    using in_update [OF that assms(3)]
  proof (elim disjE exE conjE)
    fix k assume k: "k < length ops" "k \<noteq> j" "q = ops ! k"
    have "deletes q \<noteq> Some (t_id t)" using consistentD(3) [OF assms(1) t] nth_mem [OF k(1)] k(3) by simp
    moreover have "t_id u \<noteq> t_id t" if "q = Creating u" for u
    proof -
      have "creates (ops ! k) = Some u" using that k(3) by (metis creates.simps(1))
      then show ?thesis using creates_unique [of ops k j u t] assms(2,3,4) k by (simp add: fresh_ids_def)
    qed
    ultimately show ?thesis using hides_cases by metis
  qed simp
  then have shown: "Some (t_id t) \<notin> hides ` set (ops[j := Indexing t])" by force
  show ?thesis
  proof
    fix i
    show "dict m (ops[j := Indexing t]) i = ((dict m ops)(t_id t \<mapsto> t)) i"
      using shown ever_created [OF assms(2) _ t] hides_other [OF assms(3), of "Indexing t" i] assms(4)
      by (cases "i = t_id t") (simp_all add: dict_def ever)
  qed
qed

lemma consistent_set:
  assumes "consistent R C kv sets m s ops" "fresh_ids m ops" "j < length ops" "ops ! j = Creating t"
    and "kv s' = (kv s)(task_key (t_id t) \<mapsto> raw)" "dec C raw = Inr t" "sets s' INDEX_KEY = sets s INDEX_KEY"
  shows "consistent R C kv sets m s' (ops[j := Indexing t])"
proof (rule consistentI)
  note d = dict_set [OF assms(1-4)]
  show "holds_entry C (kv s' (task_key i)) i (dict m (ops[j := Indexing t]) i)" for i
    using consistentD(1) [OF assms(1), of i] assms(5,6) by (simp add: d)
  show "i \<in> sets s' INDEX_KEY \<or> (\<exists>u. Indexing u \<in> set (ops[j := Indexing t]) \<and> t_id u = i)"
    if "dict m (ops[j := Indexing t]) i = Some u" for i u
  proof (cases "i = t_id t")
    case True
    then show ?thesis using set_update_memI [OF assms(3)] by metis
  next
    case False
    then have "dict m ops i = Some u" using that by (simp add: d)
    from consistentD(2) [OF assms(1) this] assms(4,7) indexing_update show ?thesis by (metis store_task.distinct(1))
  qed
  show "deletes q \<noteq> Some (t_id u)" if "Creating u \<in> set (ops[j := Indexing t])" "q \<in> set (ops[j := Indexing t])" for u q
    using consistentD(3) [OF assms(1), of u q] in_update [OF that(1) assms(3)] in_update [OF that(2) assms(3)] by auto
qed

lemma consistent_sadd:
  assumes "consistent R C kv sets m s ops" "j < length ops" "ops ! j = Indexing t"
    and "kv s' = kv s" "sets s' INDEX_KEY = insert (t_id t) (sets s INDEX_KEY)"
  shows "consistent R C kv sets m s' (ops[j := Created t (Inr ())])"
proof -
  let ?ops = "ops[j := Created t (Inr ())]"
  have d: "dict m ?ops = dict m ops"
    using assms(2,3) by (simp add: dict_def fun_eq_iff hides_update ever_update)
  show ?thesis
  proof (rule consistentI)
    show "i \<in> sets s' INDEX_KEY \<or> (\<exists>u. Indexing u \<in> set ?ops \<and> t_id u = i)" if "dict m ?ops i = Some u" for i u
      using consistentD(2) [OF assms(1) that [unfolded d]]
    proof (elim disjE exE conjE)
      fix v assume v: "Indexing v \<in> set ops" "t_id v = i"
      then obtain k where "k < length ops" "ops ! k = Indexing v" by (auto simp: in_set_conv_nth)
      then show ?thesis
        using assms(3,5) v by (cases "k = j") (auto, metis length_list_update nth_list_update_neq nth_mem)
    qed (simp add: assms(5))
    show "deletes q \<noteq> Some (t_id u)" if "Creating u \<in> set ?ops" "q \<in> set ?ops" for u q
      using consistentD(3) [OF assms(1), of u q] in_update [OF that(1) assms(2)] in_update [OF that(2) assms(2)] by auto
  qed (use consistentD(1) [OF assms(1)] d assms(4) in simp)
qed

lemma consistent_del:
  assumes "consistent R C kv sets m s ops" "j < length ops" "ops ! j = Removing i0"
    and "kv s' = (kv s)(task_key i0 := None)" "sets s' INDEX_KEY = sets s INDEX_KEY"
  shows "consistent R C kv sets m s' (ops[j := Unindexing i0])"
proof -
  let ?ops = "ops[j := Unindexing i0]"
  have r: "Removing i0 \<in> set ops" using assms(2,3) by (metis nth_mem)
  have ever: "ever m ?ops = ever m ops" using assms(3) by (intro ever_update) simp
  have "Some i0 \<in> hides ` set ?ops" using set_update_memI [OF assms(2), of "Unindexing i0"] by force
  then have d: "dict m ?ops = (dict m ops)(i0 := None)"
    using hides_other [OF assms(2), of "Unindexing i0"] assms(3) by (auto simp: dict_def fun_eq_iff ever)
  show ?thesis
  proof (rule consistentI)
    show "holds_entry C (kv s' (task_key i)) i (dict m ?ops i)" for i
      using consistentD(1) [OF assms(1), of i] assms(4) by (simp add: d)
    show "i \<in> sets s' INDEX_KEY \<or> (\<exists>u. Indexing u \<in> set ?ops \<and> t_id u = i)" if "dict m ?ops i = Some u" for i u
    proof -
      have "dict m ops i = Some u" using that by (simp add: d split: if_splits)
      from consistentD(2) [OF assms(1) this] show ?thesis
        using assms(3,5) indexing_update [of _ ops j "Unindexing i0"] by (metis store_task.distinct)
    qed
    show "deletes q \<noteq> Some (t_id u)" if "Creating u \<in> set ?ops" "q \<in> set ?ops" for u q
    proof -
      have u: "Creating u \<in> set ops" using in_update [OF that(1) assms(2)] by auto
      show ?thesis
        using consistentD(3) [OF assms(1) u] r in_update [OF that(2) assms(2)] by force
    qed
  qed
qed

lemma consistent_srem:
  assumes "consistent R C kv sets m s ops" "j < length ops" "ops ! j = Unindexing i0"
    and "kv s' = kv s" "sets s' INDEX_KEY = sets s INDEX_KEY - {i0}"
  shows "consistent R C kv sets m s' (ops[j := Deleted i0 (Inr True)])"
proof -
  let ?ops = "ops[j := Deleted i0 (Inr True)]"
  have r: "Unindexing i0 \<in> set ops" using assms(2,3) by (metis nth_mem)
  have d: "dict m ?ops = dict m ops"
    using assms(2,3) by (simp add: dict_def fun_eq_iff hides_update ever_update)
  have gone: "dict m ops i0 = None" using r by (force simp: dict_def)
  show ?thesis
  proof (rule consistentI)
    show "i \<in> sets s' INDEX_KEY \<or> (\<exists>u. Indexing u \<in> set ?ops \<and> t_id u = i)" if "dict m ?ops i = Some u" for i u
    proof -
      have "i \<noteq> i0" using that gone by (auto simp: d)
      with consistentD(2) [OF assms(1) that [unfolded d]] show ?thesis
        using assms(3,5) indexing_update [of _ ops j "Deleted i0 (Inr True)"] by (metis Diff_iff singletonD store_task.distinct)
    qed
    show "deletes q \<noteq> Some (t_id u)" if "Creating u \<in> set ?ops" "q \<in> set ?ops" for u q
    proof -
      have u: "Creating u \<in> set ops" using in_update [OF that(1) assms(2)] by auto
      show ?thesis
        using consistentD(3) [OF assms(1) u] r in_update [OF that(2) assms(2)] by force
    qed
  qed (use consistentD(1) [OF assms(1)] d assms(4) in simp)
qed

text \<open>What a successful command does.\<close>

lemma set_json_ok:
  assumes "serves R kv sets" "round_trips C" "vk_set_json R C (task_key i) t None s = (Inr u, s')"
  shows "\<exists>raw. dec C raw = Inr t \<and> kv s' = (kv s)(task_key i \<mapsto> raw) \<and> sets s' INDEX_KEY = sets s INDEX_KEY"
proof -
  obtain raw where raw: "enc C t = Inr raw" "dec C raw = Inr t" using assms(2) by (auto simp: round_trips_def)
  then have "rd_set R (task_key i) raw s = (Inr u, s')" using assms(3) by (simp add: vk_set_json_def vk_set_def)
  from serves_set [OF assms(1) this] raw(2) show ?thesis by (intro exI [of _ raw]) auto
qed

lemma set_add_ok:
  assumes "serves R kv sets" "vk_set_add R k i s = (Inr u, s')"
  shows "kv s' = kv s \<and> sets s' = (sets s)(k := insert i (sets s k))"
proof -
  obtain n where "rd_sadd R k i s = (Inr n, s')"
    using assms(2) by (auto simp: vk_set_add_def forget_def split: prod.splits sum.splits)
  from serves_sadd [OF assms(1) this] show ?thesis by simp
qed

lemma set_remove_ok:
  assumes "serves R kv sets" "vk_set_remove R k i s = (Inr u, s')"
  shows "kv s' = kv s \<and> sets s' = (sets s)(k := sets s k - {i})"
proof -
  obtain n where "rd_srem R k i s = (Inr n, s')"
    using assms(2) by (auto simp: vk_set_remove_def forget_def split: prod.splits sum.splits)
  from serves_srem [OF assms(1) this] show ?thesis by simp
qed

lemma del_ok:
  assumes "serves R kv sets" "vk_del R (task_key i) s = (Inr u, s')"
  shows "kv s' = (kv s)(task_key i := None) \<and> sets s' INDEX_KEY = sets s INDEX_KEY"
proof -
  obtain n where "rd_del R (task_key i) s = (Inr n, s')"
    using assms(2) by (auto simp: vk_del_def forget_def split: prod.splits sum.splits)
  from serves_del [OF assms(1) this] show ?thesis by simp
qed

lemma members_ok:
  "serves R kv sets \<Longrightarrow> vk_set_members R k s = (r, s') \<Longrightarrow> kv s' = kv s \<and> sets s' = sets s"
  using serves_smembers [of R kv sets k s r s'] by (simp add: vk_set_members_def)

lemma consistent_step:
  assumes "serves R kv sets" "round_trips C" "fresh_ids m ops" "consistent R C kv sets m s ops"
    and "j < length ops" "store_op_step R C (ops ! j) s = Some (p, s')" "\<not> failed p"
  shows "consistent R C kv sets m s' (ops[j := p])"
proof -
  note read = consistent_read [OF assms(4,5)]
  note entry = get_json_entry [OF assms(1) consistentD(1) [OF assms(4)]]
  from assms(6) show ?thesis
  proof (cases rule: store_op_step_cases)
    case (set t r)
    then have p: "vk_set_json R C (task_key (t_id t)) t None s = (Inr (), s')" "p = Indexing t"
      using assms(7) by (cases r; simp)+
    from set_json_ok [OF assms(1,2) p(1)] show ?thesis
      unfolding p(2) by (elim exE conjE) (rule consistent_set [OF assms(4,3,5) set(1)])
  next
    case (index t r)
    then have p: "vk_set_add R INDEX_KEY (t_id t) s = (Inr (), s')" "p = Created t (Inr ())"
      using assms(7) by (cases r; simp)+
    from set_add_ok [OF assms(1) p(1)] show ?thesis using consistent_sadd [OF assms(4,5) index(1)] p(2) by simp
  next
    case (remove i r)
    then have p: "vk_del R (task_key i) s = (Inr (), s')" "p = Unindexing i" using assms(7) by (cases r; simp)+
    from del_ok [OF assms(1) p(1)] show ?thesis using consistent_del [OF assms(4,5) remove(1)] p(2) by simp
  next
    case (unindex i r)
    then have p: "vk_set_remove R INDEX_KEY i s = (Inr (), s')" "p = Deleted i (Inr True)" using assms(7) by (cases r; simp)+
    from set_remove_ok [OF assms(1) p(1)] show ?thesis using consistent_srem [OF assms(4,5) unindex(1)] p(2) by simp
  next
    case (look i r)
    then show ?thesis using entry [OF look(2)] assms(7) by (cases r) (auto intro!: read)
  next
    case (members r)
    then show ?thesis using members_ok [OF assms(1) members(2)] assms(7) by (cases r) (auto intro!: read)
  next
    case (fetch i ids ts r)
    then show ?thesis using entry [OF fetch(2)] assms(7) by (cases r) (auto intro!: read)
  next
    case (get i r)
    then show ?thesis using entry [OF get(2)] by (intro read) auto
  qed (auto intro!: read)
qed

section \<open>What the answers show\<close>

definition deleted :: "'e store_task list \<Rightarrow> string set" where
  "deleted ops = {i. Some i \<in> deletes ` set ops}"

text \<open>
  \<open>observes d m del p\<close>: what \<open>p\<close> has read so far is explained by the dictionary \<open>m\<close> it began with, the
  tasks \<open>d\<close> that ever were in the store and the ids \<open>del\<close> some operation has deleted.
\<close>

fun observes :: "(string \<rightharpoonup> task) \<Rightarrow> (string \<rightharpoonup> task) \<Rightarrow> string set \<Rightarrow> 'e store_task \<Rightarrow> bool" where
  "observes d m del (Got i (Inr v)) \<longleftrightarrow> v = d i \<or> v = None \<and> (m i = None \<or> i \<in> del)"
| "observes d m del (Removing i) \<longleftrightarrow> d i \<noteq> None"
| "observes d m del (Unindexing i) \<longleftrightarrow> d i \<noteq> None"
| "observes d m del (Deleted i (Inr b)) \<longleftrightarrow> (if b then d i \<noteq> None else m i = None \<or> i \<in> del)"
| "observes d m del (Fetching ids ts) \<longleftrightarrow>
     distinct (ids @ map t_id ts) \<and> (\<forall>t \<in> set ts. d (t_id t) = Some t) \<and>
     (\<forall>i t. m i = Some t \<longrightarrow> i \<in> del \<or> i \<in> set ids \<or> t \<in> set ts)"
| "observes d m del (Listed (Inr ts)) \<longleftrightarrow>
     distinct ts \<and> sorted_wrt (\<lambda>a b. t_created_at b \<le> t_created_at a) ts \<and>
     (\<forall>t \<in> set ts. d (t_id t) = Some t) \<and> (\<forall>i t. m i = Some t \<longrightarrow> i \<in> del \<or> t \<in> set ts)"
| "observes d m del _ \<longleftrightarrow> True"

lemma observes_mono: "observes d m del p \<Longrightarrow> del \<subseteq> del' \<Longrightarrow> observes d m del' p"
  by (induction d m del p rule: observes.induct) (auto split: if_splits, blast)

lemma deletes_step:
  "store_op_step R C p s = Some (p', s') \<Longrightarrow> \<not> failed p' \<Longrightarrow> deletes p = Some i \<Longrightarrow> deletes p' = Some i"
  by (induction R C p s rule: store_op_step.induct) (auto split: prod.splits sum.splits if_splits)

lemma deleted_step:
  assumes "j < length ops" "store_op_step R C (ops ! j) s = Some (p, s')" "\<not> failed p"
  shows "deleted ops \<subseteq> deleted (ops[j := p])"
proof
  fix i assume "i \<in> deleted ops"
  then obtain k where k: "k < length ops" "deletes (ops ! k) = Some i" by (force simp: deleted_def in_set_conv_nth)
  then have "deletes (ops[j := p] ! k) = Some i" using deletes_step [OF assms(2,3)] assms(1) by (cases "k = j") auto
  moreover have "ops[j := p] ! k \<in> set (ops[j := p])" using k(1) by (simp only: length_list_update nth_mem)
  ultimately show "i \<in> deleted (ops[j := p])" unfolding deleted_def by force
qed

lemma fresh_no_create: "fresh_ids m ops \<Longrightarrow> m i = Some t \<Longrightarrow> p \<in> set ops \<Longrightarrow> creates p = Some u \<Longrightarrow> t_id u \<noteq> i"
  by (auto simp: fresh_ids_def set_map_filter)

lemma ever_kept:
  assumes "fresh_ids m ops" "m i = Some t"
  shows "ever m ops i = Some t"
proof -
  have "map_of (map (\<lambda>t. (t_id t, t)) (List.map_filter creates ops)) i = None"
    using fresh_no_create [OF assms] by (force simp: map_of_eq_None_iff set_map_filter)
  then show ?thesis using assms(2) by (simp add: ever_def map_add_def)
qed

lemma dict_cases:
  assumes "fresh_ids m ops"
  shows "dict m ops i = ever m ops i \<or> dict m ops i = None \<and> (m i = None \<or> i \<in> deleted ops)"
proof (cases "dict m ops i = ever m ops i")
  case False
  then obtain p where p: "p \<in> set ops" "hides p = Some i" "dict m ops i = None" by (force simp: dict_def split: if_splits)
  have "m i = None \<or> i \<in> deleted ops"
    using hides_cases [OF p(2)] p(1) fresh_no_create [OF assms, of i _ p] by (force simp: deleted_def)
  with p show ?thesis by simp
qed simp

lemma dict_kept:
  assumes "fresh_ids m ops" "m i = Some t" "i \<notin> deleted ops"
  shows "dict m ops i = Some t"
  using dict_cases [OF assms(1), of i] ever_kept [OF assms(1,2)] assms(2,3) by auto

lemma indexed_kept:
  assumes "consistent R C kv sets m s ops" "fresh_ids m ops" "m i = Some t" "i \<notin> deleted ops"
  shows "i \<in> sets s INDEX_KEY"
  using consistentD(2) [OF assms(1) dict_kept [OF assms(2-4)]] fresh_no_create [OF assms(2,3)]
  by (metis creates.simps(2))

lemma observes_fetch:
  assumes "observes d m del (Fetching (i # ids) ts)" "found = d i \<or> found = None \<and> (m i = None \<or> i \<in> del)"
    and "\<And>t. found = Some t \<Longrightarrow> t_id t = i" "\<And>t. m i = Some t \<Longrightarrow> d i = Some t"
  shows "observes d m del (Fetching ids (case found of Some t \<Rightarrow> ts @ [t] | None \<Rightarrow> ts))"
proof (cases found)
  case None
  then show ?thesis using assms by (auto; metis option.distinct(1))
next
  case (Some t)
  then have t: "t_id t = i" "d i = Some t" using assms(2,3) by auto
  then have "m k = Some u \<longrightarrow> k \<in> del \<or> k \<in> set ids \<or> u \<in> set (ts @ [t])" for k u
    using assms(1,4) by (cases "k = i") auto
  then show ?thesis using assms(1) Some t by auto
qed

lemma observes_sorted:
  assumes "observes d m del (Fetching [] ts)"
  shows "observes d m del (Listed (Inr (newest_first ts)))"
proof -
  have "distinct ts" using assms by (simp add: distinct_map)
  then show ?thesis using assms newest_first_facts [of ts] by simp
qed

lemma observes_read:
  assumes "serves R kv sets" "fresh_ids m ops" "consistent R C kv sets m s ops"
    and "vk_get_json R C (task_key i) s = (Inr x, s1)"
  shows "x = ever m ops i \<or> x = None \<and> (m i = None \<or> i \<in> deleted ops)" "x = Some t \<Longrightarrow> t_id t = i"
    "x = None \<Longrightarrow> m i = None \<or> i \<in> deleted ops"
proof -
  have x: "x = dict m ops i"
    using get_json_entry [OF assms(1) consistentD(1) [OF assms(3)] assms(4)] by simp
  then show seen: "x = ever m ops i \<or> x = None \<and> (m i = None \<or> i \<in> deleted ops)" using dict_cases [OF assms(2), of i] by simp
  show "t_id t = i" if "x = Some t" using consistentD(1) [OF assms(3), of i] that x by simp
  show "m i = None \<or> i \<in> deleted ops" if "x = None"
    using seen that ever_kept [OF assms(2), of i] by (cases "m i") auto
qed

lemma observes_step:
  assumes "serves R kv sets" "fresh_ids m ops" "consistent R C kv sets m s ops"
    and "j < length ops" "store_op_step R C (ops ! j) s = Some (p, s')" "\<not> failed p"
    and "observes (ever m ops) m (deleted ops) (ops ! j)"
  shows "observes (ever m ops) m (deleted ops) p"
proof -
  note read = observes_read [OF assms(1-3)]
  from assms(5) show ?thesis
  proof (cases rule: store_op_step_cases)
    case (get i r)
    then show ?thesis using read(1) [of i] assms(6) by (cases r) auto
  next
    case (look i r)
    then obtain found where found: "vk_get_json R C (task_key i) s = (Inr found, s')"
      "p = (if found \<noteq> None then Removing i else Deleted i (Inr False))" using assms(6) by (cases r) auto
    then show ?thesis using read(1,3) [OF found(1)] by (cases "found = None") simp_all
  next
    case (members r)
    then obtain ids where ids: "r = Inr ids" "p = Fetching ids []" using assms(6) by (cases r) auto
    have "set ids = sets s INDEX_KEY \<and> distinct ids"
      using serves_smembers [OF assms(1), of INDEX_KEY s r s'] members(2) ids(1) by (simp add: vk_set_members_def)
    with ids indexed_kept [OF assms(3,2)] show ?thesis by auto
  next
    case (sort ts)
    then show ?thesis using observes_sorted assms(7) by (simp only:)
  next
    case (fetch i ids ts r)
    then obtain found where found: "vk_get_json R C (task_key i) s = (Inr found, s')"
      "p = Fetching ids (case found of Some t \<Rightarrow> ts @ [t] | None \<Rightarrow> ts)" using assms(6) by (cases r) auto
    show ?thesis
      unfolding found(2)
      by (rule observes_fetch [OF assms(7) [unfolded fetch(1)] read(1,2) [OF found(1)] ever_kept [OF assms(2)]])
  qed (use assms(6,7) in \<open>auto split: sum.splits\<close>)
qed

lemma observed_step:
  assumes "serves R kv sets" "fresh_ids m ops" "consistent R C kv sets m s ops"
    and "j < length ops" "store_op_step R C (ops ! j) s = Some (p, s')" "\<not> failed p"
    and "list_all (observes (ever m ops) m (deleted ops)) ops"
  shows "list_all (observes (ever m (ops[j := p])) m (deleted (ops[j := p]))) (ops[j := p])"
proof -
  have ever: "ever m (ops[j := p]) = ever m ops" using creates_step [OF assms(5)] by (rule ever_update)
  have "observes (ever m ops) m (deleted ops) q" if "q \<in> set (ops[j := p])" for q
    using in_update [OF that assms(4)] observes_step [OF assms(1-6)] assms(4,7) by (auto simp: list_all_length)
  then show ?thesis
    using observes_mono [OF _ deleted_step [OF assms(4-6)]] by (auto simp: list_all_iff ever)
qed

section \<open>With failing commands\<close>

text \<open>
  Whatever fails, a task's key is empty or holds the task that was stored or is created under its id: a
  failed write may have taken effect, but writes nothing else.
\<close>

definition sound ::
  "(task, 'e) codec \<Rightarrow> ('s \<Rightarrow> string \<Rightarrow> string option) \<Rightarrow> (string \<rightharpoonup> task) \<Rightarrow> 's \<Rightarrow> 'e store_task list \<Rightarrow> bool" where
  "sound C kv m s ops \<longleftrightarrow>
     (\<forall>i raw. kv s (task_key i) = Some raw \<longrightarrow> (\<exists>t. t_id t = i \<and> ever m ops i = Some t \<and> dec C raw = Inr t))"

fun truthful :: "(string \<rightharpoonup> task) \<Rightarrow> 'e store_task \<Rightarrow> bool" where
  "truthful d (Got i (Inr (Some t))) \<longleftrightarrow> t_id t = i \<and> d i = Some t"
| "truthful d (Removing i) \<longleftrightarrow> d i \<noteq> None"
| "truthful d (Unindexing i) \<longleftrightarrow> d i \<noteq> None"
| "truthful d (Deleted i (Inr True)) \<longleftrightarrow> d i \<noteq> None"
| "truthful d (Fetching ids ts) \<longleftrightarrow> (\<forall>t \<in> set ts. d (t_id t) = Some t)"
| "truthful d (Listed (Inr ts)) \<longleftrightarrow> (\<forall>t \<in> set ts. d (t_id t) = Some t)"
| "truthful d _ \<longleftrightarrow> True"

lemma get_json_sound:
  assumes "serves R kv sets" "sound C kv m s ops" "vk_get_json R C (task_key i) s = (r, s')"
  shows "kv s' = kv s \<and> (\<forall>t. r = Inr (Some t) \<longrightarrow> t_id t = i \<and> ever m ops i = Some t)"
proof -
  obtain g s1 where g: "rd_get R (task_key i) s = (g, s1)" by fastforce
  note get = serves_get [OF assms(1) g]
  have s': "s' = s1" using assms(3) g by (auto simp: vk_get_json_def vk_get_def split: sum.splits option.splits)
  have "t_id t = i \<and> ever m ops i = Some t" if r: "r = Inr (Some t)" for t
  proof -
    obtain raw where raw: "g = Inr (Some raw)" "dec C raw = Inr t"
      using assms(3) [unfolded r] g by (auto simp: vk_get_json_def vk_get_def split: sum.splits option.splits)
    then have "kv s (task_key i) = Some raw" using get by simp
    then obtain u where "t_id u = i" "ever m ops i = Some u" "dec C raw = Inr u"
      using assms(2) unfolding sound_def by blast
    then show ?thesis using raw(2) by simp
  qed
  with get s' show ?thesis by simp
qed

text \<open>What one step may write to the tasks' keys.\<close>

lemma get_json_keeps:
  assumes "serves R kv sets" "vk_get_json R C k s = (r, s')"
  shows "kv s' = kv s"
proof -
  obtain g where "rd_get R k s = (g, s')"
    using assms(2) by (cases "rd_get R k s") (auto simp: vk_get_json_def vk_get_def split: sum.splits option.splits)
  from serves_get [OF assms(1) this] show ?thesis by simp
qed

lemma set_json_writes:
  assumes "serves R kv sets" "round_trips C" "vk_set_json R C (task_key i) t None s = (r, s')"
  shows "kv s' = kv s \<or> (\<exists>raw. dec C raw = Inr t \<and> kv s' = (kv s)(task_key i \<mapsto> raw))"
proof -
  obtain raw where raw: "enc C t = Inr raw" "dec C raw = Inr t" using assms(2) by (auto simp: round_trips_def)
  then have "rd_set R (task_key i) raw s = (r, s')" using assms(3) by (simp add: vk_set_json_def vk_set_def)
  from serves_set [OF assms(1) this] raw(2) show ?thesis by blast
qed

lemma del_writes:
  assumes "serves R kv sets" "vk_del R k s = (r, s')"
  shows "kv s' = kv s \<or> kv s' = (kv s)(k := None)"
proof -
  obtain n where "rd_del R k s = (n, s')"
    using assms(2) by (auto simp: vk_del_def forget_def split: prod.splits sum.splits)
  from serves_del [OF assms(1) this] show ?thesis by blast
qed

lemma index_writes:
  assumes "serves R kv sets"
  shows "vk_set_add R k i s = (r, s') \<Longrightarrow> kv s' = kv s" "vk_set_remove R k i s = (r, s') \<Longrightarrow> kv s' = kv s"
  using serves_sadd [OF assms, of k i s] serves_srem [OF assms, of k i s]
  by (auto simp: vk_set_add_def vk_set_remove_def forget_def split: prod.splits sum.splits)

lemma step_writes:
  assumes "serves R kv sets" "round_trips C" "store_op_step R C q s = Some (p, s')"
  shows "kv s' = kv s \<or> (\<exists>t raw. q = Creating t \<and> dec C raw = Inr t \<and> kv s' = (kv s)(task_key (t_id t) \<mapsto> raw)) \<or>
    (\<exists>i. kv s' = (kv s)(task_key i := None))"
  using assms(3)
proof (cases rule: store_op_step_cases)
  case (set t r)
  then show ?thesis using set_json_writes [OF assms(1,2) set(2)] by blast
next
  case (remove i r)
  then show ?thesis using del_writes [OF assms(1) remove(2)] by blast
qed (simp_all add: index_writes [OF assms(1)] members_ok [OF assms(1)] get_json_keeps [OF assms(1)])

lemma sound_kept:
  assumes "serves R kv sets" "round_trips C" "fresh_ids m ops" "sound C kv m s ops"
    and "j < length ops" "store_op_step R C (ops ! j) s = Some (p, s')"
  shows "sound C kv m s' (ops[j := p])"
proof -
  have ever: "ever m (ops[j := p]) = ever m ops" using creates_step [OF assms(6)] by (rule ever_update)
  have created: "ever m ops (t_id t) = Some t" if "ops ! j = Creating t" for t
    using ever_created [OF assms(3), of "Creating t"] nth_mem [OF assms(5)] that by simp
  from step_writes [OF assms(1,2,6)] show ?thesis
    using assms(4) created by (auto simp: sound_def ever split: if_splits)
qed

lemma truthful_step:
  assumes "serves R kv sets" "sound C kv m s ops" "store_op_step R C q s = Some (p, s')" "truthful (ever m ops) q"
  shows "truthful (ever m ops) p"
proof -
  have read: "t_id t = i \<and> ever m ops i = Some t" if "vk_get_json R C (task_key i) s = (Inr (Some t), s')" for i t
    using get_json_sound [OF assms(1,2) that] by simp
  from assms(3) show ?thesis
  proof (cases rule: store_op_step_cases)
    case (get i r)
    then show ?thesis using read [of i] by (cases r; cases "projr r") auto
  next
    case (look i r)
    then show ?thesis using read [of i] by (cases r; cases "projr r") auto
  next
    case (sort ts)
    then show ?thesis using assms(4) newest_first_facts(1) [of ts] by simp
  next
    case (fetch i ids ts r)
    then show ?thesis using read [of i] assms(4) by (cases r; cases "projr r") auto
  qed (use assms(4) in \<open>auto split: sum.split\<close>)
qed

section \<open>Reachable states\<close>

fun unstarted :: "'e store_task \<Rightarrow> bool" where
  "unstarted (Creating t) = True"
| "unstarted (Getting i) = True"
| "unstarted (Deleting i) = True"
| "unstarted Listing = True"
| "unstarted _ = False"

fun returned :: "'e store_task \<Rightarrow> bool" where
  "returned (Created t r) = True"
| "returned (Got i r) = True"
| "returned (Deleted i r) = True"
| "returned (Listed r) = True"
| "returned _ = False"

definition store_start ::
  "('s, 'e) redis \<Rightarrow> (task, 'e) codec \<Rightarrow> ('s \<Rightarrow> string \<Rightarrow> string option) \<Rightarrow> ('s \<Rightarrow> string \<Rightarrow> string set) \<Rightarrow>
   (string \<rightharpoonup> task) \<Rightarrow> ('s, 'e) store_system \<Rightarrow> bool" where
  "store_start R C kv sets m y \<longleftrightarrow>
     serves R kv sets \<and> round_trips C \<and> holds_tasks C kv sets (sy_server y) m \<and>
     fresh_ids m (sy_ops y) \<and> list_all unstarted (sy_ops y)"

definition store_inv ::
  "('s, 'e) redis \<Rightarrow> (task, 'e) codec \<Rightarrow> ('s \<Rightarrow> string \<Rightarrow> string option) \<Rightarrow> ('s \<Rightarrow> string \<Rightarrow> string set) \<Rightarrow>
   (string \<rightharpoonup> task) \<Rightarrow> ('s, 'e) store_system \<Rightarrow> bool" where
  "store_inv R C kv sets m y \<longleftrightarrow>
     serves R kv sets \<and> round_trips C \<and> fresh_ids m (sy_ops y) \<and>
     sound C kv m (sy_server y) (sy_ops y) \<and> list_all (truthful (ever m (sy_ops y))) (sy_ops y) \<and>
     (\<not> list_ex failed (sy_ops y) \<longrightarrow>
        consistent R C kv sets m (sy_server y) (sy_ops y) \<and>
        list_all (observes (ever m (sy_ops y)) m (deleted (sy_ops y))) (sy_ops y))"

lemma failed_stays: "failed q \<Longrightarrow> store_op_step R C q s = None"
  by (cases q) auto

lemma unstartedD:
  assumes "unstarted p"
  shows "deletes p = None" "observes d m del p" "truthful d p"
  using assms by (cases p; simp)+

lemma dict_start:
  assumes "fresh_ids m ops" "list_all unstarted ops"
  shows "dict m ops = m"
proof
  fix i
  have un: "unstarted p" if "p \<in> set ops" for p using assms(2) that by (simp add: list_all_iff)
  show "dict m ops i = m i"
  proof (cases "\<exists>t. t \<in> set (List.map_filter creates ops) \<and> t_id t = i")
    case True
    then obtain t p where p: "p \<in> set ops" "creates p = Some t" "t_id t = i" by (auto simp: set_map_filter)
    have "m i = None" using assms(1) p by (auto simp: fresh_ids_def set_map_filter)
    moreover have "hides p = Some i" using un [OF p(1)] p by (cases p) auto
    then have "Some i \<in> hides ` set ops" using p(1) by force
    ultimately show ?thesis by (simp add: dict_def)
  next
    case False
    then have "map_of (map (\<lambda>t. (t_id t, t)) (List.map_filter creates ops)) i = None"
      by (auto simp: map_of_eq_None_iff)
    moreover have "hides p \<noteq> Some i" if "p \<in> set ops" for p
      using hides_cases [of p i] unstartedD [OF un [OF that]] False that by (force simp: set_map_filter)
    then have "Some i \<notin> hides ` set ops" by (metis imageE)
    ultimately show ?thesis by (simp add: dict_def ever_def map_add_def)
  qed
qed

lemma sound_start:
  assumes "fresh_ids m ops" "holds_tasks C kv sets s m"
  shows "sound C kv m s ops"
  unfolding sound_def
proof (intro allI impI)
  fix i raw assume raw: "kv s (task_key i) = Some raw"
  note entry = holds_tasks_entry [OF assms(2), of i]
  then obtain t where "m i = Some t" using raw by (cases "m i") auto
  then show "\<exists>t. t_id t = i \<and> ever m ops i = Some t \<and> dec C raw = Inr t"
    using entry raw ever_kept [OF assms(1)] by auto
qed

lemma store_inv_start:
  assumes "store_start R C kv sets m y"
  shows "store_inv R C kv sets m y"
proof -
  have start: "serves R kv sets" "round_trips C" "holds_tasks C kv sets (sy_server y) m" "fresh_ids m (sy_ops y)"
    "list_all unstarted (sy_ops y)" using assms by (simp_all add: store_start_def)
  have un: "deletes p = None" "observes d m del p" "truthful d p" if "p \<in> set (sy_ops y)" for p d del
    using unstartedD [of p] start(5) that by (simp_all only: list_all_iff)
  have "consistent R C kv sets m (sy_server y) (sy_ops y)"
    by (rule consistentI) (use start(3) un(1) in \<open>auto simp: holds_tasks_def dict_start [OF start(4,5)]\<close>)
  then show ?thesis
    using start sound_start [OF start(4,3)] un(2,3) by (simp add: store_inv_def list_all_iff)
qed

lemma store_invD:
  assumes "store_inv R C kv sets m y"
  shows "serves R kv sets" "round_trips C" "fresh_ids m (sy_ops y)"
    "sound C kv m (sy_server y) (sy_ops y)" "p \<in> set (sy_ops y) \<Longrightarrow> truthful (ever m (sy_ops y)) p"
    "\<not> list_ex failed (sy_ops y) \<Longrightarrow> consistent R C kv sets m (sy_server y) (sy_ops y)"
    "\<not> list_ex failed (sy_ops y) \<Longrightarrow> list_all (observes (ever m (sy_ops y)) m (deleted (sy_ops y))) (sy_ops y)"
  using assms by (simp_all add: store_inv_def list_all_iff)

lemma not_failed_step:
  assumes "j < length ops" "store_op_step R C (ops ! j) s = Some (p, s')" "\<not> list_ex failed (ops[j := p])"
  shows "\<not> list_ex failed ops" "\<not> failed p"
proof -
  have "\<not> failed (ops ! j)" using failed_stays [of "ops ! j" R C s] assms(2) by auto
  then show "\<not> list_ex failed ops" "\<not> failed p"
    using assms(1,3) by (auto simp: list_ex_length nth_list_update split: if_splits)
qed

lemma store_inv_step:
  assumes "store_system_step R C y z" "store_inv R C kv sets m y"
  shows "store_inv R C kv sets m z"
  using assms
proof (induction rule: store_system_step.induct)
  case (op j y p s)
  note inv = store_invD [OF op(3)] and ok = not_failed_step [OF op(1,2)]
  have fresh: "fresh_ids m ((sy_ops y)[j := p])"
    using inv(3) creates_step [OF op(2)] by (simp add: fresh_ids_def map_filter_update)
  have ever: "ever m ((sy_ops y)[j := p]) = ever m (sy_ops y)" using creates_step [OF op(2)] by (rule ever_update)
  have "truthful (ever m (sy_ops y)) q" if "q \<in> set ((sy_ops y)[j := p])" for q
    using in_update [OF that op(1)] truthful_step [OF inv(1,4) op(2) inv(5) [OF nth_mem [OF op(1)]]] inv(5) by auto
  then show ?case
    using inv(1,2) fresh ever sound_kept [OF inv(1-4) op(1,2)] consistent_step [OF inv(1-3) inv(6) [OF ok(1)] op(1,2) ok(2)]
      observed_step [OF inv(1,3) inv(6) [OF ok(1)] op(1,2) ok(2) inv(7) [OF ok(1)]]
    by (simp add: store_inv_def list_all_iff)
qed

interpretation store_conc: inductive_invariant "store_start R C kv sets m" "store_system_step R C" "store_inv R C kv sets m"
  for R C kv sets m
  by unfold_locales (rule store_inv_start, assumption, rule store_inv_step)

end
