(* ===== verification/Store_Races.thy ===== *)
theory Store_Races
  imports Store_Conc
begin

text \<open>
  What concurrent calls of the task store guarantee: the dictionary they leave behind, the answers they
  may give while they race, and that they all return.  The invariant behind this is that of \<open>Store_Conc\<close>.
\<close>

section \<open>Requests and what was ever stored\<close>

text \<open>The request an operation serves.\<close>

fun request :: "'e store_task \<Rightarrow> 'e store_task" where
  "request (Indexing t) = Creating t"
| "request (Created t r) = Creating t"
| "request (Got i r) = Getting i"
| "request (Removing i) = Deleting i"
| "request (Unindexing i) = Deleting i"
| "request (Deleted i r) = Deleting i"
| "request (Fetching ids ts) = Listing"
| "request (Listed r) = Listing"
| "request p = p"

lemma request_step: "store_op_step R C p s = Some (p', s') \<Longrightarrow> request p' = request p"
  by (induction R C p s rule: store_op_step.induct) (auto split: prod.splits sum.splits if_splits)

lemma requests_kept: "(store_system_step R C)\<^sup>*\<^sup>* y z \<Longrightarrow> map request (sy_ops z) = map request (sy_ops y)"
proof (induction rule: rtranclp_induct)
  case (step y' z)
  from step(2,3) show ?case
  proof (induction rule: store_system_step.induct)
    case (op j y p s)
    have "request p = map request (sy_ops y) ! j" using request_step [OF op(2)] op(1) by simp
    then show ?case using op(3) by (simp add: map_update list_update_same_conv)
  qed
qed simp

lemma request_creates: "request p = Creating t \<longleftrightarrow> creates p = Some t"
  by (cases p) auto

lemma request_deletes: "deletes p = Some i \<Longrightarrow> request p = Deleting i"
  by (cases p rule: deletes.cases) auto

lemma unstarted_requests: "list_all unstarted ops \<Longrightarrow> map request ops = ops"
proof (induction ops)
  case (Cons p ops)
  then show ?case by (cases p) auto
qed simp

lemma reached_requests:
  assumes "list_all unstarted (sy_ops y)" "(store_system_step R C)\<^sup>*\<^sup>* y z"
  shows "sy_ops y = map request (sy_ops z)"
  using requests_kept [OF assms(2)] unstarted_requests [OF assms(1)] by simp

lemma ever_iff:
  assumes "fresh_ids m ops"
  shows "ever m ops i = Some t \<longleftrightarrow> m i = Some t \<or> t_id t = i \<and> Creating t \<in> request ` set ops"
proof
  assume l: "ever m ops i = Some t"
  show "m i = Some t \<or> t_id t = i \<and> Creating t \<in> request ` set ops"
  proof (cases "m i = Some t")
    case False
    then have "map_of (map (\<lambda>t. (t_id t, t)) (List.map_filter creates ops)) i = Some t"
      using l by (auto simp: ever_def map_add_Some_iff)
    from map_of_SomeD [OF this] obtain p where "p \<in> set ops" "creates p = Some t" "t_id t = i"
      by (auto simp: set_map_filter)
    then show ?thesis using request_creates by (metis image_eqI)
  qed simp
next
  assume "m i = Some t \<or> t_id t = i \<and> Creating t \<in> request ` set ops"
  then show "ever m ops i = Some t"
  proof (elim disjE conjE)
    assume "Creating t \<in> request ` set ops" "t_id t = i"
    then obtain p where "p \<in> set ops" "creates p = Some t" using request_creates by (metis imageE)
    then show ?thesis using ever_created [OF assms] \<open>t_id t = i\<close> by metis
  qed (rule ever_kept [OF assms])
qed

lemma store_reached:
  assumes "serves R kv sets" "round_trips C" "holds_tasks C kv sets (sy_server y) m"
    and "fresh_ids m (sy_ops y)" "list_all unstarted (sy_ops y)"
    and "(store_system_step R C)\<^sup>*\<^sup>* y z"
  shows "fresh_ids m (sy_ops z)" "list_all (truthful (ever m (sy_ops z))) (sy_ops z)"
    "\<not> list_ex failed (sy_ops z) \<Longrightarrow> consistent R C kv sets m (sy_server z) (sy_ops z)"
    "\<not> list_ex failed (sy_ops z) \<Longrightarrow> list_all (observes (ever m (sy_ops z)) m (deleted (sy_ops z))) (sy_ops z)"
proof -
  have "store_start R C kv sets m y" using assms(1-5) by (simp add: store_start_def)
  from store_conc.steps_inv [OF assms(6) store_conc.start_inv [OF this]]
  show "fresh_ids m (sy_ops z)" "list_all (truthful (ever m (sy_ops z))) (sy_ops z)"
    "\<not> list_ex failed (sy_ops z) \<Longrightarrow> consistent R C kv sets m (sy_server z) (sy_ops z)"
    "\<not> list_ex failed (sy_ops z) \<Longrightarrow> list_all (observes (ever m (sy_ops z)) m (deleted (sy_ops z))) (sy_ops z)"
    by (simp_all add: store_inv_def)
qed

lemma returned_hides: "returned p \<Longrightarrow> hides p = Some i \<longleftrightarrow> p = Deleted i (Inr True)"
  by (cases p rule: hides.cases) auto

section \<open>Properties\<close>

text \<open>
  C8 However the requests interleave, once all have returned without an error the store is again a
  dictionary: the one before, with the created tasks, without those some delete has removed.  Every later
  get answers from it and every later list shows exactly its tasks, newest first.
\<close>

theorem concurrent_store_settles:
  assumes "serves R kv sets" "round_trips C" "holds_tasks C kv sets (sy_server y) m"
    and "fresh_ids m (sy_ops y)" "list_all unstarted (sy_ops y)"
    and "(store_system_step R C)\<^sup>*\<^sup>* y z" "list_all (\<lambda>p. returned p \<and> \<not> failed p) (sy_ops z)"
  shows "\<exists>m'. (\<forall>i t. m' i = Some t \<longleftrightarrow>
       (m i = Some t \<or> t_id t = i \<and> Creating t \<in> set (sy_ops y)) \<and> Deleted i (Inr True) \<notin> set (sy_ops z)) \<and>
     (\<forall>i v s'. store_get R C i (sy_server z) = (Inr v, s') \<longrightarrow> v = m' i) \<and>
     (\<forall>ts s'. store_list R C (sy_server z) = (Inr ts, s') \<longrightarrow>
        set ts = ran m' \<and> distinct ts \<and> sorted_wrt (\<lambda>a b. t_created_at b \<le> t_created_at a) ts)"
proof (intro exI conjI allI impI)
  let ?m = "dict m (sy_ops z)"
  have "\<not> list_ex failed (sy_ops z)" using assms(7) by (auto simp: list_all_iff list_ex_iff)
  note z = store_reached(1) [OF assms(1-6)] store_reached(3) [OF assms(1-6) this]
  have entries: "holds_entry C (kv (sy_server z) (task_key i)) i (?m i)" for i by (rule consistentD(1) [OF z(2)])
  have "Some i \<in> hides ` set (sy_ops z) \<longleftrightarrow> Deleted i (Inr True) \<in> set (sy_ops z)" for i
    using assms(7) returned_hides [of _ i] by (force simp: list_all_iff)
  then show "?m i = Some t \<longleftrightarrow>
      (m i = Some t \<or> t_id t = i \<and> Creating t \<in> set (sy_ops y)) \<and> Deleted i (Inr True) \<notin> set (sy_ops z)" for i t
    using ever_iff [OF z(1), of i t] reached_requests [OF assms(5,6)] by (simp add: dict_def)
  show "v = ?m i" if "store_get R C i (sy_server z) = (Inr v, s')" for i v s'
    using get_json_entry [OF assms(1) entries that [unfolded store_get_def]] by simp
  have "dom ?m \<subseteq> sets (sy_server z) INDEX_KEY"
  proof
    fix i assume "i \<in> dom ?m"
    then obtain u where "?m i = Some u" by auto
    from consistentD(2) [OF z(2) this] show "i \<in> sets (sy_server z) INDEX_KEY"
      using assms(7) by (force simp: list_all_iff)
  qed
  note list = list_entries [OF assms(1) entries this]
  show "set ts = ran ?m" "distinct ts" "sorted_wrt (\<lambda>a b. t_created_at b \<le> t_created_at a) ts"
    if "store_list R C (sy_server z) = (Inr ts, s')" for ts s'
    using list [OF that] by simp_all
qed

text \<open>
  C13 What the requests answer while they race.  Whatever commands fail, a get or a list only ever shows
  tasks that were stored or that a request creates, under their own ids, and a delete reports only such a
  task as deleted.  While no request has failed, a get that finds nothing, a delete that reports nothing
  and a list that misses a stored task do so only beside a delete of that id, and no list shows a task
  twice or out of order.
\<close>

theorem concurrent_answers:
  assumes "serves R kv sets" "round_trips C" "holds_tasks C kv sets (sy_server y) m"
    and "fresh_ids m (sy_ops y)" "list_all unstarted (sy_ops y)" "(store_system_step R C)\<^sup>*\<^sup>* y z"
  shows "(\<forall>i t. Got i (Inr (Some t)) \<in> set (sy_ops z) \<longrightarrow>
       t_id t = i \<and> (m i = Some t \<or> Creating t \<in> set (sy_ops y))) \<and>
     (\<forall>i. Deleted i (Inr True) \<in> set (sy_ops z) \<longrightarrow>
       m i \<noteq> None \<or> (\<exists>t. t_id t = i \<and> Creating t \<in> set (sy_ops y))) \<and>
     (\<forall>ts. Listed (Inr ts) \<in> set (sy_ops z) \<longrightarrow>
       (\<forall>t \<in> set ts. m (t_id t) = Some t \<or> Creating t \<in> set (sy_ops y))) \<and>
     (\<not> list_ex failed (sy_ops z) \<longrightarrow>
       (\<forall>i. Got i (Inr None) \<in> set (sy_ops z) \<or> Deleted i (Inr False) \<in> set (sy_ops z) \<longrightarrow>
         m i = None \<or> Deleting i \<in> set (sy_ops y)) \<and>
       (\<forall>ts. Listed (Inr ts) \<in> set (sy_ops z) \<longrightarrow>
         distinct ts \<and> sorted_wrt (\<lambda>a b. t_created_at b \<le> t_created_at a) ts \<and>
         (\<forall>i t. m i = Some t \<longrightarrow> Deleting i \<in> set (sy_ops y) \<or> t \<in> set ts)))"
proof (intro conjI allI impI)
  note z = store_reached [OF assms(1-6)]
  let ?d = "ever m (sy_ops z)" and ?del = "deleted (sy_ops z)"
  have told: "truthful ?d p" if "p \<in> set (sy_ops z)" for p using z(2) that by (simp add: list_all_iff)
  have seen: "observes ?d m ?del p" if "p \<in> set (sy_ops z)" "\<not> list_ex failed (sy_ops z)" for p
    using z(4) that by (simp add: list_all_iff)
  have d: "?d i = Some t \<longleftrightarrow> m i = Some t \<or> t_id t = i \<and> Creating t \<in> set (sy_ops y)" for i t
    using ever_iff [OF z(1), of i t] reached_requests [OF assms(5,6)] by simp
  have del: "Deleting i \<in> set (sy_ops y)" if "i \<in> ?del" for i
  proof -
    from that obtain p where "p \<in> set (sy_ops z)" "deletes p = Some i" by (force simp: deleted_def)
    then show ?thesis using request_deletes reached_requests [OF assms(5,6)] by (metis image_eqI list.set_map)
  qed
  show "t_id t = i" "m i = Some t \<or> Creating t \<in> set (sy_ops y)" if "Got i (Inr (Some t)) \<in> set (sy_ops z)" for i t
    using told [OF that] d [of i t] by auto
  show "m i \<noteq> None \<or> (\<exists>t. t_id t = i \<and> Creating t \<in> set (sy_ops y))" if "Deleted i (Inr True) \<in> set (sy_ops z)" for i
    using told [OF that] d [of i] by auto
  show "\<forall>t \<in> set ts. m (t_id t) = Some t \<or> Creating t \<in> set (sy_ops y)" if "Listed (Inr ts) \<in> set (sy_ops z)" for ts
    using told [OF that] d by auto
  assume ok: "\<not> list_ex failed (sy_ops z)"
  show "m i = None \<or> Deleting i \<in> set (sy_ops y)"
    if "Got i (Inr None) \<in> set (sy_ops z) \<or> Deleted i (Inr False) \<in> set (sy_ops z)" for i
    using that seen [of "Got i (Inr None)", OF _ ok] seen [of "Deleted i (Inr False)", OF _ ok] del [of i]
      ever_kept [OF z(1), of i] by (cases "m i") auto
  fix ts assume "Listed (Inr ts) \<in> set (sy_ops z)"
  from seen [OF this ok] have l: "distinct ts" "sorted_wrt (\<lambda>a b. t_created_at b \<le> t_created_at a) ts"
    "\<And>i t. m i = Some t \<Longrightarrow> i \<in> ?del \<or> t \<in> set ts" by auto
  show "distinct ts" "sorted_wrt (\<lambda>a b. t_created_at b \<le> t_created_at a) ts" by (fact l)+
  show "Deleting i \<in> set (sy_ops y) \<or> t \<in> set ts" if "m i = Some t" for i t using l(3) [OF that] del by blast
qed

section \<open>Every call returns\<close>

text \<open>What an operation has left to do, once it is known which ids a listing visits.\<close>

fun work_left :: "'e store_task \<Rightarrow> nat" where
  "work_left (Creating t) = 2"
| "work_left (Indexing t) = 1"
| "work_left (Getting i) = 1"
| "work_left (Deleting i) = 3"
| "work_left (Removing i) = 2"
| "work_left (Unindexing i) = 1"
| "work_left (Fetching ids ts) = Suc (length ids)"
| "work_left _ = 0"

definition rank :: "('s, 'e) store_system \<Rightarrow> nat \<times> nat" where
  "rank y = (count_list (sy_ops y) Listing, \<Sum>p\<leftarrow>sy_ops y. work_left p)"

lemma work_step:
  assumes "store_op_step R C p s = Some (p', s')"
  shows "p' \<noteq> Listing \<and> (p = Listing \<or> work_left p' < work_left p)"
  using assms by (induction R C p s rule: store_op_step.induct) (auto split: prod.splits sum.splits if_splits)

lemma progress: "store_op_step R C p s = None \<longleftrightarrow> returned p"
  by (induction R C p s rule: store_op_step.induct) (auto split: prod.split sum.split)

lemma rank_decreases: "store_system_step R C y z \<Longrightarrow> (rank z, rank y) \<in> less_than <*lex*> less_than"
proof (induction rule: store_system_step.induct)
  case (op j y p s)
  note w = work_step [OF op(2)]
  show ?case
  proof (cases "sy_ops y ! j = Listing")
    case True
    then show ?thesis using count_list_update [OF op(1), of p Listing] w by (simp add: rank_def)
  next
    case False
    then show ?thesis
      using count_list_update [OF op(1), of p Listing] w sum_list_update_less [OF op(1), of work_left p]
      by (simp add: rank_def)
  qed
qed

text \<open>
  C14 Every call returns: no interleaving of calls goes on for ever, whatever the server answers and even
  while it grows, and calls that cannot take a step have all returned.
\<close>

theorem calls_return:
  "wf {(z, y). store_system_step R C y z} \<and>
   ((\<nexists>z. store_system_step R C y z) \<longleftrightarrow> list_all returned (sy_ops y))"
proof
  have "{(z, y). store_system_step R C y z} \<subseteq> inv_image (less_than <*lex*> less_than) rank"
    using rank_decreases by (auto simp: in_inv_image)
  then show "wf {(z, y). store_system_step R C y z}" by (rule wf_subset [rotated]) auto
  show "(\<nexists>z. store_system_step R C y z) \<longleftrightarrow> list_all returned (sy_ops y)"
  proof
    assume stuck: "\<nexists>z. store_system_step R C y z"
    have "returned (sy_ops y ! j)" if "j < length (sy_ops y)" for j
    proof (rule ccontr)
      assume "\<not> returned (sy_ops y ! j)"
      then obtain p s where "store_op_step R C (sy_ops y ! j) (sy_server y) = Some (p, s)"
        using progress [of R C "sy_ops y ! j" "sy_server y"] by auto
      from store_system_step.op [OF that this] stuck show False by blast
    qed
    then show "list_all returned (sy_ops y)" by (simp add: list_all_length)
  next
    assume "list_all returned (sy_ops y)"
    then have "store_op_step R C (sy_ops y ! j) (sy_server y) = None" if "j < length (sy_ops y)" for j
      using that progress [of R C "sy_ops y ! j" "sy_server y"] by (simp add: list_all_length)
    then show "\<nexists>z. store_system_step R C y z" by (auto elim!: store_system_step.cases)
  qed
qed

section \<open>Runs on the example server\<close>

definition race_task :: task where
  "race_task = sample_task ''a'' 1"

definition race_raw :: string where
  "race_raw = (case enc toy_codec race_task of Inr raw \<Rightarrow> raw)"

lemma race_task_id: "t_id race_task = ''a''"
  by (simp add: race_task_def sample_id)

lemma race_codec: "enc toy_codec race_task = Inr race_raw" "dec toy_codec race_raw = Inr race_task"
proof -
  show e: "enc toy_codec race_task = Inr race_raw" by (simp add: race_raw_def toy_codec_def)
  then show "dec toy_codec race_raw = Inr race_task"
    using toy_codec_round_trips unfolding round_trips_def by (metis sum.inject(2))
qed

lemmas race_simps = race_task_id race_codec vk_set_json_def vk_set_def vk_set_add_def vk_get_json_def vk_get_def
  vk_del_def vk_set_remove_def vk_set_members_def forget_def mem_redis_def mem_members_def empty_server_def
  newest_first_def

definition race_start :: "string store_task list \<Rightarrow> (mem_server, string) store_system" where
  "race_start ops = \<lparr>sy_server = empty_server, sy_ops = ops\<rparr>"

text \<open>A delete that overtakes the second command of a create leaves an index entry without a task.\<close>

lemma race_run:
  "run_schedule mem_redis toy_codec [0, 1, 1, 1, 0, 2, 2, 2] (race_start [Creating race_task, Deleting ''a'', Listing]) =
     \<lparr>sy_server = \<lparr>mem_kv = [], mem_sets = [(INDEX_KEY, [''a'']), (INDEX_KEY, [])]\<rparr>,
      sy_ops = [Created race_task (Inr ()), Deleted ''a'' (Inr True), Listed (Inr [])]\<rparr>"
  by (simp add: race_start_def race_simps)

lemma race_begins:
  "holds_tasks toy_codec (\<lambda>s. map_of (mem_kv s)) (\<lambda>s k. set (mem_members s k)) (sy_server (race_start ops)) Map.empty"
  using empty_server_holds by (simp add: race_start_def)

theorem concurrent_store_settles_witness:
  "\<exists>z. (store_system_step mem_redis toy_codec)\<^sup>*\<^sup>* (race_start [Creating race_task, Deleting ''a'', Listing]) z \<and>
     sy_ops z = [Created race_task (Inr ()), Deleted ''a'' (Inr True), Listed (Inr [])] \<and>
     (\<forall>ts s'. store_list mem_redis toy_codec (sy_server z) = (Inr ts, s') \<longrightarrow> ts = [])"
proof -
  let ?y = "race_start [Creating race_task, Deleting ''a'', Listing]"
  obtain z where steps: "(store_system_step mem_redis toy_codec)\<^sup>*\<^sup>* ?y z"
    and ops: "sy_ops z = [Created race_task (Inr ()), Deleted ''a'' (Inr True), Listed (Inr [])]"
  proof
    show "(store_system_step mem_redis toy_codec)\<^sup>*\<^sup>* ?y (run_schedule mem_redis toy_codec [0, 1, 1, 1, 0, 2, 2, 2] ?y)"
      by (rule run_schedule_steps)
  qed (unfold race_run, simp)
  have ret: "list_all (\<lambda>p. returned p \<and> \<not> failed p) (sy_ops z)" unfolding ops by simp
  have new: "fresh_ids Map.empty (sy_ops ?y)" "list_all unstarted (sy_ops ?y)"
    by (simp_all add: race_start_def fresh_ids_def List.map_filter_simps)
  from concurrent_store_settles [OF mem_redis_serves toy_codec_round_trips race_begins new steps ret] show ?thesis
  proof (elim exE conjE, goal_cases)
    case (1 m')
    have "m' i = None" for i
    proof (cases "m' i")
      case (Some t)
      have "t_id t = i \<and> t = race_task \<and> Deleted i (Inr True) \<notin> set (sy_ops z)"
        using iffD1 [OF 1(1) [THEN spec, THEN spec] Some] by (auto simp: race_start_def)
      then show ?thesis unfolding ops by (auto simp: race_task_id)
    qed
    then have "ran m' = {}" by (simp add: ran_def)
    then have "ts = []" if "store_list mem_redis toy_codec (sy_server z) = (Inr ts, s')" for ts s'
      using 1(3) [rule_format, OF that] by simp
    with steps ops show ?thesis by (intro exI [of _ z] conjI allI impI)
  qed
qed

lemma race_read:
  "run_schedule mem_redis toy_codec [0, 1, 0, 2, 2, 2] (race_start [Creating race_task, Getting ''a'', Listing]) =
     \<lparr>sy_server = \<lparr>mem_kv = [(task_key ''a'', race_raw)], mem_sets = [(INDEX_KEY, [''a''])]\<rparr>,
      sy_ops = [Created race_task (Inr ()), Got ''a'' (Inr (Some race_task)), Listed (Inr [race_task])]\<rparr>"
  by (simp add: race_start_def race_simps)

theorem concurrent_answers_witness:
  "\<exists>z. (store_system_step mem_redis toy_codec)\<^sup>*\<^sup>* (race_start [Creating race_task, Getting ''a'', Listing]) z \<and>
     Got ''a'' (Inr (Some race_task)) \<in> set (sy_ops z) \<and>
     Creating race_task \<in> set (sy_ops (race_start [Creating race_task, Getting ''a'', Listing]))"
proof -
  let ?y = "race_start [Creating race_task, Getting ''a'', Listing]"
  let ?z = "run_schedule mem_redis toy_codec [0, 1, 0, 2, 2, 2] ?y"
  note steps = run_schedule_steps [of mem_redis toy_codec ?y "[0, 1, 0, 2, 2, 2]"]
  have got: "Got ''a'' (Inr (Some race_task)) \<in> set (sy_ops ?z)" unfolding race_read by simp
  have new: "fresh_ids Map.empty (sy_ops ?y)" "list_all unstarted (sy_ops ?y)"
    by (simp_all add: race_start_def fresh_ids_def List.map_filter_simps)
  from concurrent_answers [OF mem_redis_serves toy_codec_round_trips race_begins new steps,
      THEN conjunct1, rule_format, OF got]
  have "Creating race_task \<in> set (sy_ops ?y)" by (elim conjE disjE) simp_all
  with steps got show ?thesis by blast
qed

end
