(* ===== verification/Consumer_Group.thy ===== *)
theory Consumer_Group
  imports Kafka "HOL-Library.Multiset" "HOL-Library.Sublist"
begin

text \<open>
  The consumer loop over restarts.  The broker keeps, per partition, the records in order and the
  position the group has committed; a loop that starts is handed each partition from that position on.
  Commits are asynchronous (\<open>CommitMode::Async\<close>), so of the commits a run has made any number of the
  oldest may have reached the broker when the next run starts.
\<close>

section \<open>Runs of a group\<close>

definition of_partition :: "32 word \<Rightarrow> borrowed_message list \<Rightarrow> borrowed_message list" where
  "of_partition p bs = filter (\<lambda>b. bm_partition b = p) bs"

text \<open>One run: the polls it saw, and how many of its commits the broker has per partition at most.\<close>

record 'p group_session =
  gs_polls :: "('p + borrowed_message) list"
  gs_acked :: "32 word \<Rightarrow> nat"

definition next_positions :: "'p group_session \<Rightarrow> borrowed_message list \<Rightarrow> (32 word \<Rightarrow> nat) \<Rightarrow> 32 word \<Rightarrow> nat" where
  "next_positions g bs pos p = pos p + min (gs_acked g p) (length (of_partition p bs))"

text \<open>The positions, the handler's world and the commits after all runs.\<close>

fun group_run ::
  "(message \<Rightarrow> 'w \<Rightarrow> ('e + unit) \<times> 'w) \<Rightarrow> (borrowed_message \<Rightarrow> 'e option) \<Rightarrow> 'p group_session list \<Rightarrow>
   (32 word \<Rightarrow> nat) \<Rightarrow> 'w \<Rightarrow> (32 word \<Rightarrow> nat) \<times> 'w \<times> borrowed_message list" where
  "group_run handler commit [] pos w = (pos, w, [])"
| "group_run handler commit (g # gs) pos w =
     (let (st, w, bs) = consumer_run handler commit (gs_polls g) w;
          (pos, w, bs') = group_run handler commit gs (next_positions g bs pos) w
      in (pos, w, bs @ bs'))"

text \<open>The broker hands out each partition in order, from the committed position on.\<close>

fun fetched_in_order ::
  "(message \<Rightarrow> 'w \<Rightarrow> ('e + unit) \<times> 'w) \<Rightarrow> (borrowed_message \<Rightarrow> 'e option) \<Rightarrow> (32 word \<Rightarrow> borrowed_message list) \<Rightarrow>
   'p group_session list \<Rightarrow> (32 word \<Rightarrow> nat) \<Rightarrow> 'w \<Rightarrow> bool" where
  "fetched_in_order handler commit parts [] pos w \<longleftrightarrow> True"
| "fetched_in_order handler commit parts (g # gs) pos w \<longleftrightarrow>
     (\<forall>p. prefix (of_partition p (polled (gs_polls g))) (drop (pos p) (parts p))) \<and>
     (let (st, w, bs) = consumer_run handler commit (gs_polls g) w
      in fetched_in_order handler commit parts gs (next_positions g bs pos) w)"

section \<open>Positions and commits\<close>

lemma commits_prefix:
  "consumer_run handler commit polls w = (st, w', bs) \<Longrightarrow> prefix bs (polled polls)"
proof (induction handler commit polls w arbitrary: st w' bs rule: consumer_run.induct)
  case (3 handler commit b polls w)
  then show ?case by (fastforce split: prod.splits sum.splits option.splits)
qed auto

lemma of_partition_prefix: "prefix xs ys \<Longrightarrow> prefix (of_partition p xs) (of_partition p ys)"
  by (auto simp: of_partition_def prefix_def)

lemma position_moves:
  assumes "prefix xs (drop n ys)"
  shows "take (n + min a (length xs)) ys = take n ys @ take a xs"
proof -
  obtain zs where "drop n ys = xs @ zs" using assms by (auto simp: prefix_def)
  then have "take (min a (length xs)) (drop n ys) = take a xs" by (simp add: min_def)
  then show ?thesis by (simp add: take_add)
qed

lemma group_covers:
  assumes "fetched_in_order handler commit parts gs pos w" "group_run handler commit gs pos w = (pos', w', bs)"
  shows "mset (take (pos' p) (parts p)) \<subseteq># mset (take (pos p) (parts p)) + mset (of_partition p bs) \<and> pos p \<le> pos' p"
  using assms
proof (induction handler commit gs pos w arbitrary: bs rule: group_run.induct)
  case (2 handler commit g gs pos w)
  obtain st w1 bs1 where run: "consumer_run handler commit (gs_polls g) w = (st, w1, bs1)" by (metis prod_cases3)
  obtain pos2 w2 bs2 where rest: "group_run handler commit gs (next_positions g bs1 pos) w1 = (pos2, w2, bs2)"
    by (metis prod_cases3)
  have eq: "pos' = pos2" "w' = w2" "bs = bs1 @ bs2" using "2.prems"(2) run rest by simp_all
  have "prefix (of_partition p bs1) (drop (pos p) (parts p))"
    using "2.prems"(1) of_partition_prefix [OF commits_prefix [OF run], of p] by (auto intro: prefix_order.trans)
  from position_moves [OF this, of "gs_acked g p"]
  have step: "mset (take (next_positions g bs1 pos p) (parts p)) \<subseteq>#
      mset (take (pos p) (parts p)) + mset (of_partition p bs1)"
    by (simp add: next_positions_def) (metis append_take_drop_id mset_append mset_subset_eq_add_left)
  have "mset (take (pos' p) (parts p)) \<subseteq>#
      mset (take (next_positions g bs1 pos p) (parts p)) + mset (of_partition p bs2) \<and> next_positions g bs1 pos p \<le> pos' p"
    using "2.IH" [OF run [symmetric] refl refl] "2.prems"(1) run rest eq by simp
  moreover from this step have "mset (take (pos' p) (parts p)) \<subseteq>#
      mset (take (pos p) (parts p)) + mset (of_partition p bs1) + mset (of_partition p bs2)"
    by (meson subset_mset.add_right_mono subset_mset.order_trans)
  moreover have "pos p \<le> next_positions g bs1 pos p" by (simp add: next_positions_def)
  ultimately show ?case by (simp add: eq(3) of_partition_def add.assoc)
qed simp

lemma committed_accepted:
  "consumer_run handler commit polls w = (st, w', bs) \<Longrightarrow> b \<in> set bs \<Longrightarrow>
     commit b = None \<and> (\<exists>u u'. handler (to_message b) u = (Inr (), u'))"
proof (induction handler commit polls w arbitrary: st w' bs rule: consumer_run.induct)
  case (3 handler commit c polls w)
  obtain r w1 where h: "handler (to_message c) w = (r, w1)" by fastforce
  obtain st1 w2 bs1 where rest: "consumer_run handler commit polls w1 = (st1, w2, bs1)" by (metis prod_cases3)
  have ok: "r = Inr ()" "commit c = None" "bs = c # bs1"
    using "3.prems" h rest by (auto split: sum.splits option.splits)
  show ?case
  proof (cases "b = c")
    case True
    then show ?thesis using h ok by blast
  next
    case False
    then show ?thesis using "3.IH" [OF h [unfolded ok(1), symmetric] refl ok(2) rest] "3.prems"(2) ok(3) by simp
  qed
qed simp_all

lemma group_accepted:
  "group_run handler commit gs pos w = (pos', w', bs) \<Longrightarrow> b \<in> set bs \<Longrightarrow>
     commit b = None \<and> (\<exists>u u'. handler (to_message b) u = (Inr (), u'))"
proof (induction handler commit gs pos w arbitrary: bs rule: group_run.induct)
  case (2 handler commit g gs pos w)
  obtain st w1 bs1 where run: "consumer_run handler commit (gs_polls g) w = (st, w1, bs1)" by (metis prod_cases3)
  obtain pos2 w2 bs2 where rest: "group_run handler commit gs (next_positions g bs1 pos) w1 = (pos2, w2, bs2)"
    by (metis prod_cases3)
  have eq: "pos' = pos2" "w' = w2" "bs = bs1 @ bs2" using "2.prems"(1) run rest by simp_all
  then have "b \<in> set bs1 \<or> b \<in> set bs2" using "2.prems"(2) by auto
  then show ?case
    using committed_accepted [OF run] "2.IH" [OF run [symmetric] refl refl] rest eq by metis
qed simp

text \<open>
  C12 At least once, over any number of crashes and restarts and whatever commits are lost: every record
  before a partition's final position was handed to the handler, accepted by it and committed, as often as
  it is in the partition.  Nothing is skipped, and a position never moves back.
\<close>

theorem delivered_at_least_once:
  assumes "fetched_in_order handler commit parts gs (\<lambda>p. 0) w"
    and "group_run handler commit gs (\<lambda>p. 0) w = (pos, w', bs)"
  shows "mset (take (pos p) (parts p)) \<subseteq># mset (of_partition p bs) \<and>
    (\<forall>b \<in> set bs. commit b = None \<and> (\<exists>u u'. handler (to_message b) u = (Inr (), u')))"
  using group_covers [OF assms, of p] group_accepted [OF assms(2)] by simp

definition group_record :: "64 word \<Rightarrow> bytes \<Rightarrow> borrowed_message" where
  "group_record off payload =
     \<lparr>bm_topic = ''t'', bm_key = None, bm_payload = Some payload, bm_partition = 0, bm_offset = off\<rparr>"

text \<open>The second record makes the first run fail; the next run sees it again.\<close>

definition busy_handler :: "message \<Rightarrow> nat \<Rightarrow> (string + unit) \<times> nat" where
  "busy_handler m n = (if msg_payload m = [2] \<and> n < 2 then Inl ''busy'' else Inr (), Suc n)"

definition two_records :: "32 word \<Rightarrow> borrowed_message list" where
  "two_records p = (if p = 0 then [group_record 0 [1], group_record 1 [2]] else [])"

definition two_runs :: "unit group_session list" where
  "two_runs =
     [\<lparr>gs_polls = [Inr (group_record 0 [1]), Inl (), Inr (group_record 1 [2])], gs_acked = (\<lambda>p. 1)\<rparr>,
      \<lparr>gs_polls = [Inr (group_record 1 [2])], gs_acked = (\<lambda>p. 1)\<rparr>]"

theorem delivered_at_least_once_witness:
  "\<exists>pos w' bs. group_run busy_handler (\<lambda>b. None) two_runs (\<lambda>p. 0) 0 = (pos, w', bs) \<and> pos 0 = 2 \<and>
     mset (two_records 0) \<subseteq># mset (of_partition 0 bs)"
proof -
  have rec: "to_message (group_record off b) =
      \<lparr>msg_topic = ''t'', msg_key = None, msg_payload = b, msg_partition = 0, msg_offset = off\<rparr>" for off b
    by (simp add: to_message_def group_record_def)
  have part: "bm_partition (group_record off b) = 0" for off b by (simp add: group_record_def)
  have runs: "consumer_run busy_handler (\<lambda>b. None) (gs_polls (two_runs ! 0)) 0 = (Stopped ''busy'', 2, [group_record 0 [1]])"
    "consumer_run busy_handler (\<lambda>b. None) (gs_polls (two_runs ! 1)) 2 = (Polling, 3, [group_record 1 [2]])"
    by (simp_all add: two_runs_def busy_handler_def rec)
  have fetched: "fetched_in_order busy_handler (\<lambda>b. None) two_records two_runs (\<lambda>p. 0) 0"
    using runs by (simp add: two_runs_def next_positions_def of_partition_def two_records_def part)
  obtain pos w' bs where run: "group_run busy_handler (\<lambda>b. None) two_runs (\<lambda>p. 0) 0 = (pos, w', bs)"
    by (metis prod_cases3)
  have pos: "pos 0 = 2"
    using run runs by (auto simp: two_runs_def next_positions_def of_partition_def part)
  moreover have "take (pos 0) (two_records 0) = two_records 0" by (simp add: pos two_records_def)
  ultimately show ?thesis using run delivered_at_least_once [OF fetched run, of 0] by auto
qed

end
