(* ===== verification/Pipeline.thy ===== *)
theory Pipeline
  imports Consumer_Worker Consumer_Group "HOL-Library.Countable"
begin

text \<open>
  The event pipeline: \<open>POST /tasks\<close> of the tasks service publishes to a topic that the consumer worker
  drains.  The broker between them is an argument, with its documented behaviour as a hypothesis: a send
  appends copies of its record to one partition of the topic, at least one when it is acknowledged
  (without idempotence a retried send may be stored again), and the group is handed each partition in
  order from its committed position.
\<close>

section \<open>Requests and the broker\<close>

text \<open>A sequence of \<open>POST\<close> requests: the fresh id, the clock reading and the extracted body of each.\<close>

fun create_all ::
  "('s, 'e, 'k) app \<Rightarrow> (string \<times> sys_time \<times> ('x + create_task)) list \<Rightarrow> 's \<Rightarrow> 'k \<Rightarrow> answer list \<times> 's \<times> 'k" where
  "create_all A [] s k = ([], s, k)"
| "create_all A ((uuid, t, body) # rqs) s k =
     (let (ans, s, k) = create A uuid t body s k; (anss, s, k) = create_all A rqs s k in (ans # anss, s, k))"

definition carries :: "borrowed_message \<Rightarrow> record_out \<Rightarrow> 32 word \<Rightarrow> bool" where
  "carries b r p \<longleftrightarrow>
     bm_topic b = rec_topic r \<and> bm_key b = Some (rec_key r) \<and> bm_payload b = Some (rec_payload r) \<and> bm_partition b = p"

definition broker_laws ::
  "(record_out \<Rightarrow> duration \<Rightarrow> 'k \<Rightarrow> ('e + unit) \<times> 'k) \<Rightarrow> ('k \<Rightarrow> 32 word \<Rightarrow> borrowed_message list) \<Rightarrow> 32 word list \<Rightarrow>
   bool" where
  "broker_laws deliver parts ps \<longleftrightarrow> distinct ps \<and>
     (\<forall>r d k res k'. deliver r d k = (res, k') \<longrightarrow>
        (\<exists>p \<in> set ps. \<exists>bs. parts k' = (parts k)(p := parts k p @ bs) \<and> (\<forall>b \<in> set bs. carries b r p) \<and>
           (res = Inr () \<longrightarrow> bs \<noteq> [])))"

text \<open>Every record in the topic is an event the worker understands; how many there are.\<close>

definition all_events :: "(bytes \<Rightarrow> json option) \<Rightarrow> (32 word \<Rightarrow> borrowed_message list) \<Rightarrow> bool" where
  "all_events parse parts \<longleftrightarrow> (\<forall>p. \<forall>b \<in> set (parts p). decodable parse b \<and> bm_partition b = p)"

definition stored :: "32 word list \<Rightarrow> (32 word \<Rightarrow> borrowed_message list) \<Rightarrow> nat" where
  "stored ps parts = (\<Sum>p\<leftarrow>ps. length (parts p))"

lemma stored_append:
  "distinct ps \<Longrightarrow> p \<in> set ps \<Longrightarrow> stored ps (parts(p := parts p @ bs)) = stored ps parts + length bs"
proof (induction ps)
  case (Cons q ps)
  have "stored ps (parts(q := parts q @ bs)) = stored ps parts" if "q \<notin> set ps"
    using that unfolding stored_def by (intro arg_cong [of _ _ sum_list] map_cong) auto
  with Cons show ?case by (cases "p = q") (auto simp: stored_def)
qed simp

lemma event_decodable:
  assumes "\<And>j. \<exists>payload. app_to_vec A j = Inr payload \<and> parse payload = Some j"
    and "app_to_vec A (event_json (event_of_task t)) = Inr payload" "bm_payload b = Some payload"
  shows "decodable parse b"
proof -
  have "parse payload = Some (event_json (event_of_task t))"
    using assms(1) [of "event_json (event_of_task t)"] assms(2) by auto
  then show ?thesis using assms(3) by (simp add: decodable_def to_message_def event_json_decodes)
qed

lemma publish_created_parts:
  assumes "broker_laws (app_deliver A) parts ps" "\<And>r d k. \<exists>k'. app_deliver A r d k = (Inr (), k')"
    and "\<And>j. \<exists>payload. app_to_vec A j = Inr payload \<and> parse payload = Some j" "all_events parse (parts k)"
  shows "all_events parse (parts (publish_created A t k)) \<and> stored ps (parts k) < stored ps (parts (publish_created A t k))"
proof -
  let ?k = "publish_created A t k"
  obtain payload where payload: "app_to_vec A (event_json (event_of_task t)) = Inr payload" using assms(3) by blast
  define r where "r = \<lparr>rec_topic = (if app_topic A = [] then pr_default_topic (app_producer A) else app_topic A),
    rec_key = as_bytes (t_id t), rec_payload = payload\<rparr>"
  have "app_deliver A r (duration_from_secs 5) k = (Inr (), ?k)"
    using assms(2) [of r "duration_from_secs 5" k] payload
    by (auto simp: publish_created_def publish_def Let_def r_def)
  then obtain p bs where bs: "p \<in> set ps" "parts ?k = (parts k)(p := parts k p @ bs)"
      "\<forall>b \<in> set bs. carries b r p" "bs \<noteq> []" and ps: "distinct ps"
    using assms(1) unfolding broker_laws_def by metis
  have "decodable parse b \<and> bm_partition b = p" if "b \<in> set bs" for b
    using bs(3) that event_decodable [OF assms(3) payload, of b] by (auto simp: carries_def r_def)
  then have "all_events parse (parts ?k)" using assms(4) unfolding all_events_def bs(2) by auto
  moreover have "stored ps (parts ?k) = stored ps (parts k) + length bs"
    unfolding bs(2) by (rule stored_append [OF ps bs(1)])
  ultimately show ?thesis using bs(4) by (cases bs) auto
qed

lemma create_parts:
  assumes "broker_laws (app_deliver A) parts ps" "\<And>r d k. \<exists>k'. app_deliver A r d k = (Inr (), k')"
    and "\<And>j. \<exists>payload. app_to_vec A j = Inr payload \<and> parse payload = Some j" "all_events parse (parts k)"
    and "create A uuid t body s k = (ans, s', k')"
  shows "all_events parse (parts k') \<and>
    stored ps (parts k) + (if answer_status ans = 201 then 1 else 0) \<le> stored ps (parts k')"
proof (cases "k' = k \<and> answer_status ans \<noteq> 201")
  case False
  then obtain tsk where "k' = publish_created A tsk k"
    using assms(5)
    by (auto simp: create_def Let_def problem_new_def with_extension_def split: sum.splits if_splits prod.splits)
  with publish_created_parts [OF assms(1-4), of tsk] show ?thesis by auto
qed (use assms(4) in simp)

lemma create_all_parts:
  assumes "broker_laws (app_deliver A) parts ps" "\<And>r d k. \<exists>k'. app_deliver A r d k = (Inr (), k')"
    and "\<And>j. \<exists>payload. app_to_vec A j = Inr payload \<and> parse payload = Some j"
    and "all_events parse (parts k)" "create_all A rqs s k = (anss, s', k')"
  shows "all_events parse (parts k') \<and>
    stored ps (parts k) + length (filter (\<lambda>a. answer_status a = 201) anss) \<le> stored ps (parts k')"
  using assms(4,5)
proof (induction rqs arbitrary: s k anss)
  case (Cons rq rqs)
  obtain uuid t body where rq: "rq = (uuid, t, body)" by (metis prod_cases3)
  obtain ans s1 k1 where c: "create A uuid t body s k = (ans, s1, k1)" by (metis prod_cases3)
  obtain anss1 s2 k2 where rest: "create_all A rqs s1 k1 = (anss1, s2, k2)" by (metis prod_cases3)
  have eq: "anss = ans # anss1" "s' = s2" "k' = k2" using Cons.prems(2) rq c rest by simp_all
  note one = create_parts [OF assms(1-3) Cons.prems(1) c]
  from Cons.IH [OF one [THEN conjunct1] rest [folded eq]] one show ?case by (auto simp: eq(1))
qed simp

section \<open>What the worker counts over its runs\<close>

lemma worker_run_counts:
  fixes commit :: "borrowed_message \<Rightarrow> 'e option"
  assumes "\<forall>b \<in> set (polled polls). decodable parse b"
    and "consumer_run (worker_handler parse) commit polls us = (st, us', bs)"
  shows "counter_total ''consumer_tasks_consumed_total'' us + length bs \<le> counter_total ''consumer_tasks_consumed_total'' us' \<and>
    counter_total ''consumer_tasks_skipped_total'' us' = counter_total ''consumer_tasks_skipped_total'' us"
  using assms
proof (induction polls arbitrary: us bs st)
  case (Cons q polls)
  show ?case
  proof (cases q)
    case (Inl e)
    then show ?thesis using Cons by simp
  next
    case (Inr b)
    have d: "decodable parse b" using Cons.prems(1) Inr by simp
    let ?us = "us @ [Inc ''consumer_tasks_consumed_total'' []]"
    have h: "worker_handler parse (to_message b) us = (Inr () :: 'e + unit, ?us)"
      using d by (simp add: worker_handler_eq count_of_def)
    obtain st1 us1 bs1 where rest: "consumer_run (worker_handler parse) commit polls ?us = (st1, us1, bs1)"
      by (metis prod_cases3)
    show ?thesis
    proof (cases "commit b")
      case None
      have eq: "us' = us1" "bs = b # bs1" "st = st1" using Cons.prems(2) Inr h rest None by simp_all
      have "\<forall>b \<in> set (polled polls). decodable parse b" using Cons.prems(1) Inr by simp
      from Cons.IH [OF this rest [folded eq]] show ?thesis by (simp add: eq(2))
    next
      case (Some e)
      then show ?thesis using Cons.prems(2) Inr h by auto
    qed
  qed
qed simp

lemma polled_events:
  assumes "all_events parse parts" "\<And>p. prefix (of_partition p bs) (drop (pos p) (parts p))" "b \<in> set bs"
  shows "decodable parse b"
proof -
  let ?p = "bm_partition b"
  have "b \<in> set (of_partition ?p bs)" using assms(3) by (simp add: of_partition_def)
  then have "b \<in> set (parts ?p)" using set_mono_prefix [OF assms(2)] by (meson in_set_dropD subsetD)
  then show ?thesis using assms(1) by (simp add: all_events_def)
qed

lemma group_counts:
  assumes "all_events parse parts"
  shows "fetched_in_order (worker_handler parse) commit parts gs pos us \<Longrightarrow>
    group_run (worker_handler parse) commit gs pos us = (pos', us', bs) \<Longrightarrow>
    counter_total ''consumer_tasks_consumed_total'' us + length bs \<le> counter_total ''consumer_tasks_consumed_total'' us' \<and>
    counter_total ''consumer_tasks_skipped_total'' us' = counter_total ''consumer_tasks_skipped_total'' us"
proof (induction gs arbitrary: pos us bs)
  case (Cons g gs)
  obtain st us1 bs1 where run: "consumer_run (worker_handler parse) commit (gs_polls g) us = (st, us1, bs1)"
    by (metis prod_cases3)
  obtain pos2 us2 bs2 where rest:
    "group_run (worker_handler parse) commit gs (next_positions g bs1 pos) us1 = (pos2, us2, bs2)"
    by (metis prod_cases3)
  have eq: "pos' = pos2" "us' = us2" "bs = bs1 @ bs2" using Cons.prems(2) run rest by simp_all
  have f: "fetched_in_order (worker_handler parse) commit parts gs (next_positions g bs1 pos) us1"
    using Cons.prems(1) run by simp
  have "\<forall>b \<in> set (polled (gs_polls g)). decodable parse b"
    using polled_events [OF assms] Cons.prems(1) by (metis fetched_in_order.simps(2))
  note one = worker_run_counts [OF this run]
  from Cons.IH [OF f rest [folded eq(1,2)]] one show ?case by (simp add: eq(3))
qed simp

lemma partitions_disjoint: "distinct ps \<Longrightarrow> (\<Sum>p\<leftarrow>ps. length (of_partition p bs)) \<le> length bs"
proof (induction bs)
  case (Cons b bs)
  have "(\<Sum>p\<leftarrow>ps. if bm_partition b = p then 1 else 0 :: nat) \<le> 1"
    using Cons.prems by (induction ps) (auto simp: sum_list_eq_0_iff)
  moreover have "length (of_partition p (b # bs)) = (if bm_partition b = p then 1 else 0) + length (of_partition p bs)" for p
    by (simp add: of_partition_def)
  ultimately show ?case using Cons by (simp add: sum_list_addf)
qed (simp add: of_partition_def)

section \<open>Properties\<close>

text \<open>
  C10 End to end, at least once: as long as the broker acknowledges, when the consumer group has reached the
  end of every partition, over however many runs of the worker and whatever commits were lost, the worker
  has counted at least as many consumed events as the tasks service has answered \<open>POST\<close> requests with 201,
  and it has skipped none.
\<close>

theorem created_tasks_consumed:
  assumes "broker_laws (app_deliver A) parts ps" "\<forall>r d k. \<exists>k'. app_deliver A r d k = (Inr (), k')"
    and "\<forall>j. \<exists>payload. app_to_vec A j = Inr payload \<and> parse payload = Some j"
    and "\<forall>p. parts k p = []" "create_all A rqs s k = (anss, s', k')"
    and "fetched_in_order (worker_handler parse) commit (parts k') gs (\<lambda>p. 0) []"
    and "group_run (worker_handler parse) commit gs (\<lambda>p. 0) [] = (pos, us, bs)"
    and "\<forall>p \<in> set ps. pos p = length (parts k' p)"
  shows "length (filter (\<lambda>a. answer_status a = 201) anss) \<le> counter_total ''consumer_tasks_consumed_total'' us \<and>
    counter_total ''consumer_tasks_skipped_total'' us = 0"
proof -
  have "all_events parse (parts k)" using assms(4) by (simp add: all_events_def)
  moreover have "\<And>r d k. \<exists>k'. app_deliver A r d k = (Inr (), k')"
    "\<And>j. \<exists>payload. app_to_vec A j = Inr payload \<and> parse payload = Some j" using assms(2,3) by blast+
  ultimately have made: "all_events parse (parts k')"
    "length (filter (\<lambda>a. answer_status a = 201) anss) \<le> stored ps (parts k')"
    using create_all_parts [OF assms(1) _ _ _ assms(5), of parse] by auto
  have "length (parts k' p) \<le> length (of_partition p bs)" if "p \<in> set ps" for p
    using group_covers [OF assms(6,7), of p] assms(8) that size_mset_mono by fastforce
  then have "stored ps (parts k') \<le> (\<Sum>p\<leftarrow>ps. length (of_partition p bs))"
    unfolding stored_def by (rule sum_list_mono)
  also have "\<dots> \<le> length bs" using assms(1) by (intro partitions_disjoint) (simp add: broker_laws_def)
  finally show ?thesis using made(2) group_counts [OF made(1) assms(6,7)] by simp
qed

text \<open>An example broker with one partition, and a printer that numbers the JSON values.\<close>

instance json :: countable
  by countable_datatype

definition number_bytes :: "json \<Rightarrow> bytes" where
  "number_bytes j = replicate (to_nat j) 0"

definition number_parse :: "bytes \<Rightarrow> json option" where
  "number_parse b = Some (from_nat (length b))"

definition event_app :: "(mem_server, string, record_out list) app" where
  "event_app = mem_app\<lparr>app_to_vec := (\<lambda>j. Inr (number_bytes j))\<rparr>"

definition record_in :: "record_out \<Rightarrow> borrowed_message" where
  "record_in r =
     \<lparr>bm_topic = rec_topic r, bm_key = Some (rec_key r), bm_payload = Some (rec_payload r), bm_partition = 0, bm_offset = 0\<rparr>"

definition one_partition :: "record_out list \<Rightarrow> 32 word \<Rightarrow> borrowed_message list" where
  "one_partition k p = (if p = 0 then map record_in k else [])"

lemma event_app_broker: "broker_laws (app_deliver event_app) one_partition [0]"
  by (auto simp: broker_laws_def event_app_def mem_app_def one_partition_def record_in_def carries_def fun_eq_iff
      intro!: exI [of _ "[record_in _]"])

text \<open>One task is created; the commit of the first run is lost, so the event is counted twice.\<close>

theorem created_tasks_consumed_witness:
  "\<exists>ans s' r us. create_all event_app [(''u'', 0, Inr \<lparr>ct_title = ''milk''\<rparr> :: unit + create_task)] empty_server [] =
       ([ans], s', [r]) \<and> answer_status ans = 201 \<and>
     (let g = \<lparr>gs_polls = [Inr (record_in r) :: unit + borrowed_message], gs_acked = (\<lambda>p. 0)\<rparr>
      in fst (snd (group_run (worker_handler number_parse) (\<lambda>b. None :: string option) [g, g\<lparr>gs_acked := (\<lambda>p. 1)\<rparr>] (\<lambda>p. 0) [])) = us) \<and>
     1 \<le> counter_total ''consumer_tasks_consumed_total'' us"
proof -
  let ?rq = "(''u'', 0, Inr \<lparr>ct_title = ''milk''\<rparr> :: unit + create_task)"
  let ?t = "\<lparr>t_id = ''u'', t_title = ''milk'', t_done = False, t_created_at = now_secs 0\<rparr>"
  obtain s1 where s1: "store_create mem_redis toy_codec ?t empty_server = (Inr (), s1)" using sample_created by blast
  define r where "r = \<lparr>rec_topic = default_topic, rec_key = as_bytes ''u'', rec_payload = number_bytes (event_json (event_of_task ?t))\<rparr>"
  have c: "create_all event_app [?rq] empty_server [] = ([JsonAnswer 201 (task_json ?t)], s1, [r])"
    using s1 by (simp add: create_def event_app_def mem_app_def Let_def publish_created_def publish_def r_def)
  let ?g = "\<lparr>gs_polls = [Inr (record_in r) :: unit + borrowed_message], gs_acked = (\<lambda>p. 0)\<rparr>"
  let ?gs = "[?g, ?g\<lparr>gs_acked := (\<lambda>p. 1)\<rparr>]"
  have part: "bm_partition (record_in r) = 0" by (simp add: record_in_def)
  have one: "consumer_run (worker_handler number_parse) (\<lambda>b. None :: string option) [Inr (record_in r)] us =
      (Polling, us @ [count_of number_parse (record_in r)], [record_in r])" for us
    by (simp add: worker_handler_eq)
  have f: "fetched_in_order (worker_handler number_parse) (\<lambda>b. None :: string option) (one_partition [r]) ?gs (\<lambda>p. 0) []"
    by (simp add: one next_positions_def of_partition_def one_partition_def part)
  obtain pos us bs where run:
    "group_run (worker_handler number_parse) (\<lambda>b. None :: string option) ?gs (\<lambda>p. 0) [] = (pos, us, bs)"
    by (metis prod_cases3)
  have pos: "\<forall>p \<in> set [0]. pos p = length (one_partition [r] p)"
    using run by (auto simp: worker_handler_eq next_positions_def of_partition_def one_partition_def part)
  have acks: "\<forall>r d k. \<exists>k'. app_deliver event_app r d k = (Inr (), k')"
    and prints: "\<forall>j. \<exists>payload. app_to_vec event_app j = Inr payload \<and> number_parse payload = Some j"
    by (simp_all add: event_app_def mem_app_def number_parse_def number_bytes_def)
  have empty: "\<forall>p. one_partition [] p = []" by (simp add: one_partition_def)
  note counted = created_tasks_consumed [OF event_app_broker acks prints empty c f run pos]
  have "1 \<le> counter_total ''consumer_tasks_consumed_total'' us" using counted by simp
  then show ?thesis using c run by (intro exI [of _ "JsonAnswer 201 (task_json ?t)"] exI [of _ s1] exI [of _ r] exI [of _ us])
    (simp only: Let_def fst_conv snd_conv answer_status.simps)
qed

end
