(* ===== verification/Spec2Isabelle.thy ===== *)
theory Spec2Isabelle
  imports Circuit_Breaker_Conc Client_Calls Client_Serde Secret_Cache_Conc Service_Mains Store_Races Pipeline
begin

text \<open>
  A verification library for the \<open>rust-basics\<close> workspace (\<open>src/crates\<close>): shared libraries for HTTP
  services and the four services built on them.

  \<^bold>\<open>The program.\<close>  \<open>resilient-client\<close> is an HTTP client with a policy per target: a circuit breaker,
  a rate limiter, a timeout and retries with full-jitter backoff; it counts requests in flight and
  drains them on shutdown.  \<open>httpx\<close> is the server scaffolding: routes, request metrics, liveness and
  readiness, problem details, configuration from YAML and the environment.  \<open>ratelimit\<close>, \<open>secrets\<close>,
  \<open>valkey\<close>, \<open>kafka\<close> and \<open>otelx\<close> wrap one dependency each.  The services: \<open>ping\<close> (rate limit and a
  bearer-protected route), \<open>tasks\<close> (a CRUD API on Valkey that publishes events to Kafka), \<open>consumer\<close>
  (drains those events) and \<open>heartbeat\<close> (a ticker that polls an upstream through the resilient client).

  \<^bold>\<open>Theories and the sources they model.\<close>
  \<^item> \<open>Prelude\<close>, \<open>Containers\<close>, \<open>Transition_Systems\<close>: widths of machine integers, the standard library's
    string functions, decimal printing and parsing; \<open>BTreeMap\<close> and \<open>HashMap\<close> through the locale
    \<open>keyed_store\<close>; reachability, the locale \<open>inductive_invariant\<close> every invariant proof goes through,
    and the locale \<open>simulation\<close>.
  \<^item> \<open>Float64\<close>, \<open>Std_Time\<close>: IEEE double precision with round-to-nearest-even for the operations the
    sources use, \<open>Duration\<close> and the system clock.
  \<^item> \<open>Circuit_Breaker\<close> and \<open>Circuit_Breaker_Conc\<close>: \<open>resilient-client/src/circuit_breaker.rs\<close>, once as
    sequential methods with a refinement to an abstract three-state breaker over exact fractions,
    once as interleaved atomic accesses of any number of threads.
  \<^item> \<open>Backoff\<close>, \<open>Client_Config\<close>, \<open>Metric_Log\<close>, \<open>Http_Types\<close>, \<open>Resilient_Client\<close>: \<open>backoff.rs\<close>, \<open>config.rs\<close>,
    \<open>error.rs\<close>, \<open>metrics.rs\<close> and \<open>client.rs\<close>.  \<open>send\<close> is composed of its parts in the order of the code;
    \<open>retry_loop\<close> is the loop of \<open>send_with_retry\<close> with its termination proof.
  \<^item> \<open>Client_Serde\<close>: the derived \<open>Serialize\<close> and \<open>Deserialize\<close> of the structs in \<open>config.rs\<close>.
  \<^item> \<open>Target_Policy\<close>: sequences of sends to one target, where breaker, limiter and retries act together.
  \<^item> \<open>Client_Lifecycle\<close>: concurrent \<open>send\<close> and \<open>shutdown\<close> calls as tasks of a step relation, with
    cancellation, refined step by step to a drain gate over natural numbers.  \<open>Client_Calls\<close> adds any number
    of \<open>send_with_retry\<close> calls as tasks of the same client.
  \<^item> \<open>Ratelimit\<close>, \<open>Secrets\<close>, \<open>Secret_Cache\<close>, \<open>Secret_Cache_Conc\<close>: \<open>ratelimit/src/lib.rs\<close>, \<open>secrets/src/lib.rs\<close>,
    \<open>cache.rs\<close>, the last also as loads and stores of any number of interleaved calls.
  \<^item> \<open>Json\<close>, \<open>Problem\<close>, \<open>Http_Answer\<close>, \<open>Health\<close>, \<open>Httpx_Config\<close>, \<open>Httpx_Server\<close>: \<open>httpx/src\<close>.
  \<^item> \<open>Ping\<close>: \<open>ping/src/lib.rs\<close> and the options of its \<open>main.rs\<close>.
  \<^item> \<open>Service_Configs\<close>: the \<open>config.rs\<close> of valkey, kafka, otelx, tasks, consumer and heartbeat.
  \<^item> \<open>Valkey\<close>, \<open>Task_Store\<close>, \<open>Kafka\<close>, \<open>Tasks_Service\<close>, \<open>Consumer_Worker\<close>, \<open>Heartbeat\<close>, \<open>Otelx\<close>: the
    \<open>lib.rs\<close>, \<open>domain.rs\<close>, \<open>store.rs\<close> and \<open>worker.rs\<close> of those crates.
  \<^item> \<open>Store_Conc\<close> and \<open>Store_Races\<close>: any number of concurrent calls on the task store, cut at their awaits into single
    commands (\<open>store_op_step\<close>), as a step relation; run alone each call is the operation of \<open>Task_Store\<close>.
  \<^item> \<open>Consumer_Group\<close>: the consumer loop over restarts, with partitions, committed positions and lost
    asynchronous commits.  \<open>Pipeline\<close>: \<open>POST\<close> requests, the broker and the worker's runs together.
  \<^item> \<open>Tasks_Api\<close>: sequences of requests to the tasks service through the assembled server, refined to a
    dictionary of tasks.
  \<^item> \<open>Service_Mains\<close>: the four \<open>main.rs\<close>, each from its configuration to the value \<open>main\<close> returns, and
    what the started services answer.

  \<^bold>\<open>What is an argument.\<close>  Code outside the repository is a parameter of the definitions that call it:
  the \<open>governor\<close> limiters (\<open>direct_limiter\<close>, \<open>keyed_governor\<close>), the \<open>reqwest\<close> transport and builder,
  the AES-GCM cipher (\<open>aead\<close>) and base64, \<open>axum\<close>'s router (\<open>axum\<close>), the Valkey driver (\<open>redis\<close>), the
  Kafka client, JSON and YAML text forms, the Prometheus registry, the OpenTelemetry exporter, the
  random number generator, and every reading of a clock.  What a property relies on is a named
  hypothesis: \<open>in_range\<close>, \<open>decrypts_own\<close> and \<open>tidy\<close>, \<open>axum_laws\<close>, \<open>serves\<close> and \<open>answers\<close>, \<open>round_trips\<close>,
  \<open>separate_budgets\<close>, \<open>registry_laws\<close>, \<open>quiet_retries\<close>, \<open>format_laws\<close>, \<open>fetched_in_order\<close>, \<open>broker_laws\<close>.  Each has an instance on which the witnesses evaluate the property.

  \<^bold>\<open>What the lemmas show.\<close>  For the breaker: refinement, shedding and recovery, no missed trip, one
  probe transition per opening in every interleaving, and two divergences from its documentation.
  For the client: the verdict on every outcome, fail-fast, the retry loop's exact behaviour and its
  bounds, that an outage opens the circuit after exactly the configured number of requests, exactness
  of the in-flight count, no lost wake-up on shutdown, and the two ways shutdown can go wrong.  For
  the store: refinement of a dictionary, one call at a time and for interleaved calls, what racing calls
  may answer, that they all return, and the orphan a failed \<open>create\<close> leaves.  For the services: the
  outcomes of every handler, that the assembled tasks service is a dictionary of tasks,
  commit-after-success, delivery at least once over restarts, every created task counted by the consumer,
  agreement of producer and consumer on the wire, and the accounting of requests and events.  For the
  binaries: the order in which starting fails, readiness as a function of listening, signals and the
  probes, spans flushed on every way out, and what each \<open>main\<close> returns.  For the secret cache: what racing
  calls may read, that it is linearizable (in the real-time order of the calls) while one writer is active
  at a time, and the insert that is lost when two are.  For the rest: round trips, precedence of configuration sources, and the rendered problem.

  \<^bold>\<open>Bounds.\<close>  No fuel is used: every loop is structural, has a termination proof, or is a step relation.
  The consumer loop, the heartbeat and the background probes run for ever in the source; a run is modelled over the
  finite sequence of polls or ticks seen so far.  Counters keep their width: the refinement of the
  breaker holds for fewer than \<open>2^32\<close> calls and for thresholds that are the double nearest to a fraction
  with a denominator up to \<open>2^20\<close>, the in-flight count for fewer than \<open>2^64\<close> sends, the exact backoff
  ceiling for fewer than \<open>2^31\<close> attempts and milliseconds up to \<open>2^53\<close>.

  \<^bold>\<open>Not modelled.\<close>  The \<open>tokio\<close> runtime itself (its schedules are arguments or interleavings), crate
  roots (re-exports), log lines, the Prometheus text format, the timing behaviour of
  \<open>constant_time_eq\<close>, memory orderings weaker than sequential consistency, deployment files,
  benchmarks and the TypeScript end-to-end tests.
\<close>

end
